(* ===== verification/Prelude.thy ===== *)
theory Prelude
  imports Main "HOL-Library.Word"
begin

text \<open>
  Shared vocabulary of the development: the machine integer types of the C code, the
  collections the component proofs draw on, and generic lemmas on words and lists.
  Pointers are 64-bit words; the null pointer is 0. Arithmetic on words wraps as the
  unsigned arithmetic of the C code does.
\<close>

unbundle bit_operations_syntax

section \<open>Machine integers\<close>

type_synonym u8 = "8 word"
type_synonym u16 = "16 word"
type_synonym u32 = "32 word"
type_synonym u64 = "64 word"
type_synonym addr = "64 word"

named_theorems pmm_simps \<open>field updates of the frame allocator's operations\<close>
named_theorems word_nat \<open>moving word inequalities and sums to natural numbers\<close>

declare word_less_nat_alt [word_nat] word_le_nat_alt [word_nat]

subsection \<open>Counting up on words\<close>

lemma unat_Suc_less [word_nat]:
  fixes i n :: "'a::len word"
  assumes "i < n"
  shows "unat (i + 1) = Suc (unat i)"
proof -
  have "i \<noteq> - 1"
    using assms by (metis word_order.extremum_strict)
  then have "1 + i \<noteq> 0"
    by (simp add: add_eq_0_iff)
  then show ?thesis by (simp add: unatSuc add.commute)
qed

lemma unat_add_no_wrap [word_nat]:
  fixes a b :: "'a::len word"
  assumes "unat a + unat b < 2 ^ LENGTH('a)"
  shows "unat (a + b) = unat a + unat b"
  using assms by (simp add: unat_word_ariths)

lemma unat_mult_no_wrap [word_nat]:
  fixes a b :: "'a::len word"
  assumes "unat a * unat b < 2 ^ LENGTH('a)"
  shows "unat (a * b) = unat a * unat b"
  using assms by (simp add: unat_word_ariths)

lemma unat_diff_le [word_nat]:
  fixes a b :: "'a::len word"
  assumes "b \<le> a"
  shows "unat (a - b) = unat a - unat b"
  using assms by (simp add: unat_sub)

lemma unat_eqI:
  fixes a b :: "'a::len word"
  shows "unat a = unat b \<Longrightarrow> a = b"
  by (simp add: word_unat_eq_iff)

subsection \<open>Single bits of a byte\<close>

text \<open>The shifted one \<open>1 << k\<close> of the C code simplifies to a power of two.\<close>

lemma unat_of_nat_small: "n < 2 ^ LENGTH('a) \<Longrightarrow> unat (of_nat n :: 'a::len word) = n"
  by (simp add: unat_of_nat)

lemma unat_2_power:
  assumes "k < LENGTH('a)"
  shows "unat (2 ^ k :: 'a::len word) = 2 ^ k"
proof -
  have "unat (of_nat (2 ^ k) :: 'a word) = 2 ^ k"
    by (rule unat_of_nat_small) (use assms in simp)
  then show ?thesis by simp
qed

text \<open>Rounding down to a multiple of a power of two.\<close>

lemma and_not_mask: "x AND NOT (mask k) = x - x mod 2 ^ k" for x :: "'a::len word"
proof -
  have "x AND NOT (mask k) = push_bit k (drop_bit k x)"
    by (rule bit_word_eqI) (auto simp: bit_simps)
  then show ?thesis using bits_ident [of k x] by (simp add: take_bit_eq_mod eq_diff_eq)
qed

lemma unat_and_not_mask:
  fixes x :: "'a::len word"
  assumes "k < LENGTH('a)"
  shows "unat (x AND NOT (mask k)) = unat x - unat x mod 2 ^ k"
proof -
  have m: "unat (x mod 2 ^ k) = unat x mod 2 ^ k"
    using assms by (simp add: unat_mod unat_2_power)
  then have "x mod 2 ^ k \<le> x" by (simp add: word_le_nat_alt)
  then show ?thesis using m by (simp add: and_not_mask unat_diff_le)
qed

lemma and_exp_eq_0:
  fixes b :: "'a::len word"
  shows "(b AND 2 ^ k = 0) \<longleftrightarrow> \<not> bit b k"
  using bit_imp_le_length [of b k]
  by (auto simp: bit_eq_iff [where 'a = "'a word"] bit_simps)

lemma bit_or_exp: "bit (b OR 2 ^ k :: 'a::len word) j \<longleftrightarrow> (j = k \<and> k < LENGTH('a)) \<or> bit b j"
  by (auto simp: bit_simps)

lemma bit_and_not_exp: "bit (b AND NOT (2 ^ k) :: 'a::len word) j \<longleftrightarrow> j \<noteq> k \<and> bit b j"
  using bit_imp_le_length [of b j] by (auto simp: bit_simps)

lemma word_div_mod_eqI:
  fixes a b c :: "'a::len word"
  shows "a div c = b div c \<Longrightarrow> a mod c = b mod c \<Longrightarrow> a = b"
  by (metis div_mult_mod_eq)

subsection \<open>Finite sets of words\<close>

lemma unat_image_lessThan:
  fixes n :: "'a::len word"
  shows "unat ` {i. i < n} = {..<unat n}"
proof -
  have "k \<in> unat ` {i. i < n}" if "k < unat n" for k
  proof -
    have "k < 2 ^ LENGTH('a)" using that unsigned_less [of n] by (rule less_trans)
    then have "unat (of_nat k :: 'a word) = k" by (simp add: unat_of_nat)
    with that show ?thesis
      by (intro image_eqI [where x = "of_nat k"]) (auto simp: word_less_nat_alt)
  qed
  then show ?thesis by (auto simp: word_less_nat_alt)
qed

lemma card_word_lessThan: "card {i. i < (n :: 'a::len word)} = unat n"
proof -
  have "card (unat ` {i. i < n}) = card {i. i < n}"
    by (rule card_image) (auto intro: inj_onI unat_eqI)
  then show ?thesis by (simp add: unat_image_lessThan)
qed

lemma finite_words [simp]: "finite (A :: 'a::len word set)"
  by (rule finite_subset [OF subset_UNIV]) simp

section \<open>Counting loops of the C code\<close>

text \<open>
  \<open>for_find P i n\<close> is \<^verbatim>\<open>for (; i < n; i++) if (P(i)) return i;\<close> and \<open>for_upto f i n s\<close> is
  \<^verbatim>\<open>for (; i < n; i++) s = f(i, s);\<close> with a counter of the C type's width.
\<close>

function for_find :: "('a::len word \<Rightarrow> bool) \<Rightarrow> 'a word \<Rightarrow> 'a word \<Rightarrow> 'a word option" where
  "for_find P i n = (if i < n then (if P i then Some i else for_find P (i + 1) n) else None)"
  by pat_completeness auto
termination
  by (relation "measure (\<lambda>(P, i, n). unat n - unat i)") (auto simp: word_less_nat_alt unat_Suc_less)

declare for_find.simps [simp del]

function for_upto :: "('a::len word \<Rightarrow> 's \<Rightarrow> 's) \<Rightarrow> 'a word \<Rightarrow> 'a word \<Rightarrow> 's \<Rightarrow> 's" where
  "for_upto f i n s = (if i < n then for_upto f (i + 1) n (f i s) else s)"
  by pat_completeness auto
termination
  by (relation "measure (\<lambda>(f, i, n, s). unat n - unat i)") (auto simp: word_less_nat_alt unat_Suc_less)

declare for_upto.simps [simp del]

lemma word_plus_1_le:
  fixes i n :: "'a::len word"
  shows "i < n \<Longrightarrow> i + 1 \<le> j \<longleftrightarrow> i < j"
  by (auto simp: word_less_nat_alt word_le_nat_alt unat_Suc_less)

lemma word_less_plus_1:
  fixes i n :: "'a::len word"
  shows "i < n \<Longrightarrow> j < i + 1 \<longleftrightarrow> j < i \<or> j = i"
  by (auto simp: word_plus_1_le not_le [symmetric])

lemma for_find_Some:
  "for_find P i n = Some k \<longleftrightarrow> i \<le> k \<and> k < n \<and> P k \<and> (\<forall>j. i \<le> j \<and> j < k \<longrightarrow> \<not> P j)"
proof (induction P i n rule: for_find.induct)
  case (1 P i n)
  show ?case
  proof (cases "i < n \<and> \<not> P i")
    case True
    then have "for_find P i n = for_find P (i + 1) n" by (simp add: for_find.simps [of P i n])
    moreover have "i + 1 \<le> j \<longleftrightarrow> i < j" and "i \<le> j \<longleftrightarrow> j = i \<or> i < j" for j
      using True by (auto simp: word_plus_1_le)
    ultimately show ?thesis using True 1 by auto
  next
    case False
    then show ?thesis by (auto simp: for_find.simps [of P i n])
  qed
qed

lemma for_find_None: "for_find P i n = None \<longleftrightarrow> (\<forall>j. i \<le> j \<and> j < n \<longrightarrow> \<not> P j)"
proof (induction P i n rule: for_find.induct)
  case (1 P i n)
  show ?case
  proof (cases "i < n \<and> \<not> P i")
    case True
    then have "for_find P i n = for_find P (i + 1) n" by (simp add: for_find.simps [of P i n])
    moreover have "i + 1 \<le> j \<longleftrightarrow> i < j" and "i \<le> j \<longleftrightarrow> j = i \<or> i < j" for j
      using True by (auto simp: word_plus_1_le)
    ultimately show ?thesis using True 1 by auto
  next
    case False
    then show ?thesis by (auto simp: for_find.simps [of P i n])
  qed
qed

lemma for_upto_induct:
  assumes "i \<le> n" and "P i s"
    and "\<And>j s. i \<le> j \<Longrightarrow> j < n \<Longrightarrow> P j s \<Longrightarrow> P (j + 1) (f j s)"
  shows "P n (for_upto f i n s)"
  using assms
proof (induction f i n s rule: for_upto.induct)
  case (1 f i n s)
  show ?case
  proof (cases "i < n")
    case True
    then have "i \<le> i + 1" "i + 1 \<le> n"
      by (auto simp: word_less_nat_alt word_le_nat_alt unat_Suc_less)
    moreover have "P (i + 1) (f i s)" using 1 True by simp
    ultimately have "P n (for_upto f (i + 1) n (f i s))"
      using 1 True order.trans [of i "i + 1"] by blast
    with True show ?thesis by (simp add: for_upto.simps [of f i n s])
  next
    case False
    then have "for_upto f i n s = s" by (subst for_upto.simps) simp
    with False 1 show ?thesis by auto
  qed
qed

lemma for_upto_frame:
  assumes "\<And>j s. g (f j s) = g s"
  shows "g (for_upto f i n s) = g s"
  using assms
proof (induction f i n s rule: for_upto.induct)
  case (1 f i n s)
  then show ?case by (subst for_upto.simps) auto
qed

section \<open>Little-endian loads\<close>

text \<open>Reading a field of a C structure at a byte address, on a little-endian machine.\<close>

type_synonym bytes = "u64 \<Rightarrow> u8"

definition load16 :: "bytes \<Rightarrow> u64 \<Rightarrow> u16" where
  "load16 m a = ucast (m a) OR push_bit 8 (ucast (m (a + 1)))"

definition load32 :: "bytes \<Rightarrow> u64 \<Rightarrow> u32" where
  "load32 m a = ucast (load16 m a) OR push_bit 16 (ucast (load16 m (a + 2)))"

definition load64 :: "bytes \<Rightarrow> u64 \<Rightarrow> u64" where
  "load64 m a = ucast (load32 m a) OR push_bit 32 (ucast (load32 m (a + 4)))"

text \<open>For witnesses: a call whose result is computed, with the resulting state left symbolic.\<close>

lemma result_eqI: "x \<noteq> None \<Longrightarrow> snd (the x) = v \<Longrightarrow> x = Some (fst (the x), v)"
  by auto

lemma pair_eqI: "snd x = v \<Longrightarrow> x = (fst x, v)"
  by auto

lemma words_below: "{i. i < n} = of_nat ` {0..<unat n}" for n :: "'a::len word"
proof (intro set_eqI iffI)
  fix i assume "i \<in> {i. i < n}"
  then have "unat i \<in> {0..<unat n}" by (simp add: word_less_nat_alt)
  then have "(of_nat (unat i) :: 'a word) \<in> of_nat ` {0..<unat n}" by (rule imageI)
  then show "i \<in> of_nat ` {0..<unat n}" by simp
next
  fix i :: "'a word" assume "i \<in> of_nat ` {0..<unat n}"
  then obtain k where "i = of_nat k" "k < unat n" by auto
  then show "i \<in> {i. i < n}"
    by (metis mem_Collect_eq unat_of_nat_small unsigned_less less_trans word_less_nat_alt)
qed

lemma distinct_words_below: "distinct (map of_nat [0..<unat n] :: 'a word list)" for n :: "'a::len word"
proof -
  have "inj_on (of_nat :: nat \<Rightarrow> 'a word) {0..<unat n}"
  proof (rule inj_onI)
    fix x y assume "x \<in> {0..<unat n}" "y \<in> {0..<unat n}" and eq: "(of_nat x :: 'a word) = of_nat y"
    then have "x < 2 ^ LENGTH('a)" "y < 2 ^ LENGTH('a)"
      using unsigned_less [of n] by (simp_all add: less_trans)
    then show "x = y" using eq by (metis unat_of_nat_small)
  qed
  then show ?thesis by (simp add: distinct_map)
qed

end
