(* ===== verification/Interfaces.thy ===== *)
theory Interfaces
  imports Prelude
begin

text \<open>
  The contracts that the allocators and index structures of the kernel offer to their clients, as
  locales: an allocator of regions (page frames), an allocator of objects (the kernel heap) and an
  index from keys to entries (the radix tree). The theories of the components interpret them on
  their own operations; what a client can rely on is proved here, once.
\<close>

section \<open>Allocators of regions\<close>

text \<open>
  A client of an allocator takes blocks and gives back blocks that it holds. \<open>alloc\<close> is \<open>None\<close>
  when the call does not return, \<open>Some (s, None)\<close> when it reports failure.
\<close>

inductive alloc_step ::
  "('r \<Rightarrow> 's \<Rightarrow> ('s \<times> 'b option) option) \<Rightarrow> ('s \<Rightarrow> 'b \<Rightarrow> 's) \<Rightarrow> ('r \<Rightarrow> 's \<Rightarrow> bool) \<Rightarrow>
   's \<times> 'b set \<Rightarrow> 's \<times> 'b set \<Rightarrow> bool"
  for alloc release admissible where
  take: "admissible r s \<Longrightarrow> alloc r s = Some (s', Some b) \<Longrightarrow>
    alloc_step alloc release admissible (s, H) (s', insert b H)"
| fail: "admissible r s \<Longrightarrow> alloc r s = Some (s', None) \<Longrightarrow>
    alloc_step alloc release admissible (s, H) (s', H)"
| give: "b \<in> H \<Longrightarrow> alloc_step alloc release admissible (s, H) (release s b, H - {b})"

inductive_cases alloc_stepE: "alloc_step alloc release admissible x y"

locale region_allocator =
  fixes alloc :: "'r \<Rightarrow> 's \<Rightarrow> ('s \<times> 'b option) option"
    and release :: "'s \<Rightarrow> 'b \<Rightarrow> 's"
    and admissible :: "'r \<Rightarrow> 's \<Rightarrow> bool"
    and ok :: "'s \<Rightarrow> bool"
    and avail :: "'s \<Rightarrow> 'f set"
    and managed :: "'s \<Rightarrow> 'f set"
    and region :: "'b \<Rightarrow> 'f set"
  assumes avail_managed: "ok s \<Longrightarrow> avail s \<subseteq> managed s"
    and alloc_returns: "ok s \<Longrightarrow> admissible r s \<Longrightarrow> alloc r s \<noteq> None"
    and alloc_Some: "ok s \<Longrightarrow> admissible r s \<Longrightarrow> alloc r s = Some (s', Some b) \<Longrightarrow>
      ok s' \<and> managed s' = managed s \<and> region b \<noteq> {} \<and> region b \<subseteq> avail s \<and> avail s' = avail s - region b"
    and alloc_None: "ok s \<Longrightarrow> admissible r s \<Longrightarrow> alloc r s = Some (s', None) \<Longrightarrow>
      ok s' \<and> managed s' = managed s \<and> avail s' = avail s"
    and release_ok: "ok s \<Longrightarrow> region b \<subseteq> managed s - avail s \<Longrightarrow>
      ok (release s b) \<and> managed (release s b) = managed s \<and> avail (release s b) = avail s \<union> region b"
begin

text \<open>
  What a run of a client keeps: the blocks it holds are pairwise disjoint and disjoint from
  what is available, and together they are what was available at the start.
\<close>

definition client_inv :: "'f set \<Rightarrow> 'f set \<Rightarrow> 's \<times> 'b set \<Rightarrow> bool" where
  "client_inv M A x \<longleftrightarrow>
     (case x of (s, H) \<Rightarrow> ok s \<and> managed s = M \<and> (\<forall>b\<in>H. region b \<noteq> {}) \<and>
        (\<forall>b\<in>H. \<forall>c\<in>H. b \<noteq> c \<longrightarrow> region b \<inter> region c = {}) \<and>
        avail s \<inter> (\<Union>b\<in>H. region b) = {} \<and> avail s \<union> (\<Union>b\<in>H. region b) = A)"

lemma client_inv_take:
  assumes "client_inv M A (s, H)" and "admissible r s" and "alloc r s = Some (s', Some b)"
  shows "client_inv M A (s', insert b H)" and "b \<notin> H"
proof -
  from assms(1) have ok: "ok s" and A: "avail s \<inter> (\<Union>b\<in>H. region b) = {}"
    by (auto simp: client_inv_def)
  from alloc_Some [OF ok assms(2,3)] have b: "ok s'" "managed s' = managed s" "region b \<noteq> {}"
    "region b \<subseteq> avail s" "avail s' = avail s - region b" by auto
  from A b(4) have fresh: "region b \<inter> region c = {}" if "c \<in> H" for c using that by blast
  then show "b \<notin> H" using b(3) by blast
  have "region c \<inter> region b = {}" if "c \<in> H" for c using fresh [OF that] by blast
  with assms(1) b fresh show "client_inv M A (s', insert b H)"
    unfolding client_inv_def by auto
qed

lemma client_inv_fail:
  assumes "client_inv M A (s, H)" and "admissible r s" and "alloc r s = Some (s', None)"
  shows "client_inv M A (s', H)"
  using assms(1) alloc_None [OF _ assms(2,3)] by (simp add: client_inv_def)

lemma client_inv_give:
  assumes "client_inv M A (s, H)" and "b \<in> H" and "A \<subseteq> M"
  shows "client_inv M A (release s b, H - {b})"
proof -
  have "region b \<subseteq> managed s - avail s" "ok s"
    using assms by (auto simp: client_inv_def)
  with release_ok have r: "ok (release s b)" "managed (release s b) = managed s"
    "avail (release s b) = avail s \<union> region b" by auto
  have "(\<Union>c\<in>H. region c) = region b \<union> (\<Union>c\<in>H - {b}. region c)"
    using assms(2) by blast
  moreover have "region b \<inter> (\<Union>c\<in>H - {b}. region c) = {}"
    using assms(1,2) by (auto simp: client_inv_def)
  ultimately show ?thesis
    using assms(1) r unfolding client_inv_def by (simp add: Int_Un_distrib2 Un_assoc) blast
qed

lemma client_run:
  assumes "(alloc_step alloc release admissible)\<^sup>*\<^sup>* (s0, {}) x" and "ok s0"
  shows "client_inv (managed s0) (avail s0) x"
  using assms(1)
proof (induction rule: rtranclp_induct)
  case base
  show ?case using assms(2) by (simp add: client_inv_def)
next
  case (step y z)
  note give = client_inv_give [OF _ _ avail_managed [OF assms(2)]]
  from step.hyps(2) step.IH show ?case
    by (cases rule: alloc_step.cases) (simp_all add: client_inv_take client_inv_fail give)
qed

lemma run_take_fresh:
  assumes "(alloc_step alloc release admissible)\<^sup>*\<^sup>* (s0, {}) (s, H)" and "ok s0"
    and "admissible r s" and "alloc r s = Some (s', Some b)"
  shows "b \<notin> H" and "c \<in> H \<Longrightarrow> region b \<inter> region c = {}" and "region b \<subseteq> avail s0"
proof -
  note inv = client_run [OF assms(1,2)]
  show "b \<notin> H" by (rule client_inv_take(2) [OF inv assms(3,4)])
  have "region b \<subseteq> avail s" "ok s"
    using alloc_Some [OF _ assms(3,4)] inv by (auto simp: client_inv_def)
  with inv show "c \<in> H \<Longrightarrow> region b \<inter> region c = {}" and "region b \<subseteq> avail s0"
    by (auto simp: client_inv_def)
qed

text \<open>A client that gives everything back leaves the allocator as it found it.\<close>

lemma run_all_given_back:
  assumes "(alloc_step alloc release admissible)\<^sup>*\<^sup>* (s0, {}) (s, {})" and "ok s0"
  shows "ok s \<and> avail s = avail s0"
  using client_run [OF assms] by (simp add: client_inv_def)

end

section \<open>Allocators of objects\<close>

text \<open>
  An allocator that keeps track of its live objects: a new object is at a fresh address, does
  not move or shrink the others, and objects do not overlap. This is what every user of
  \<open>kmalloc\<close> and \<open>kfree\<close> relies on.
\<close>

locale object_allocator =
  fixes alloc :: "'n \<Rightarrow> 's \<Rightarrow> ('s \<times> 'p option) option"
    and release :: "'s \<Rightarrow> 'p \<Rightarrow> 's"
    and ok :: "'s \<Rightarrow> bool"
    and live :: "'s \<Rightarrow> 'p set"
    and extent :: "'s \<Rightarrow> 'p \<Rightarrow> 'm set"
    and arena :: "'s \<Rightarrow> 'a"
  assumes returns: "ok s \<Longrightarrow> alloc n s \<noteq> None"
    and alloc_new: "ok s \<Longrightarrow> alloc n s = Some (s', Some p) \<Longrightarrow>
      ok s' \<and> arena s' = arena s \<and> p \<notin> live s \<and> live s' = insert p (live s) \<and> (\<forall>q\<in>live s. extent s' q = extent s q)"
    and alloc_fails: "ok s \<Longrightarrow> alloc n s = Some (s', None) \<Longrightarrow> s' = s"
    and release_live: "ok s \<Longrightarrow> p \<in> live s \<Longrightarrow>
      ok (release s p) \<and> arena (release s p) = arena s \<and> live (release s p) = live s - {p} \<and>
      (\<forall>q\<in>live s - {p}. extent (release s p) q = extent s q)"
    and disjoint: "ok s \<Longrightarrow> p \<in> live s \<Longrightarrow> q \<in> live s \<Longrightarrow> p \<noteq> q \<Longrightarrow> extent s p \<inter> extent s q = {}"
begin

lemma object_run:
  assumes "(alloc_step alloc release (\<lambda>_ _. True))\<^sup>*\<^sup>* (s0, live s0) (s, H)" and "ok s0"
  shows "ok s \<and> live s = H \<and> arena s = arena s0"
proof -
  have "(case x of (s, H) \<Rightarrow> ok s \<and> live s = H \<and> arena s = arena s0)"
    if "(alloc_step alloc release (\<lambda>_ _. True))\<^sup>*\<^sup>* (s0, live s0) x" for x
    using that
  proof (induction rule: rtranclp_induct)
    case base
    show ?case using assms(2) by simp
  next
    case (step y z)
    from step.hyps(2) step.IH show ?case
      by (cases rule: alloc_step.cases) (auto dest: alloc_new alloc_fails release_live)
  qed
  from this [OF assms(1)] show ?thesis by simp
qed

text \<open>An object keeps its extent for as long as it is held, whatever happens to the others.\<close>

lemma step_keeps_extent:
  assumes "alloc_step alloc release (\<lambda>_ _. True) (s, H) (s', H')" and "ok s" and "live s = H"
    and "p \<in> H" and "p \<in> H'"
  shows "extent s' p = extent s p"
  using assms(1)
proof (cases rule: alloc_step.cases)
  case (take r b)
  then show ?thesis using alloc_new assms by blast
next
  case (fail r)
  then show ?thesis using alloc_fails assms by blast
next
  case (give b)
  then show ?thesis using release_live assms by auto
qed

end

section \<open>Index structures\<close>

text \<open>
  A finite map behind an index structure whose insertion can fail for lack of memory. The client
  keeps a counter of the entries, as the page cache does.
\<close>

locale index_map =
  fixes ok :: "'s \<Rightarrow> bool"
    and key :: "'k \<Rightarrow> bool"
    and val :: "'v \<Rightarrow> bool"
    and get :: "'s \<Rightarrow> 'k \<Rightarrow> 'v option"
    and ins :: "'s \<Rightarrow> 'k \<Rightarrow> 'v \<Rightarrow> ('s \<times> bool) option"
    and del :: "'s \<Rightarrow> 'k \<Rightarrow> ('s \<times> 'v option) option"
  assumes ins_spec: "ok s \<Longrightarrow> key k \<Longrightarrow> val v \<Longrightarrow> \<exists>s' b. ins s k v = Some (s', b) \<and> ok s' \<and>
      (if b then get s k = None \<and> get s' = (get s)(k \<mapsto> v) else get s' = get s)"
    and del_spec: "ok s \<Longrightarrow> \<exists>s'. del s k = Some (s', get s k) \<and> ok s' \<and> get s' = (get s)(k := None)"
begin

definition counted :: "'s \<Rightarrow> nat \<Rightarrow> bool" where
  "counted s n \<longleftrightarrow> ok s \<and> finite (dom (get s)) \<and> card (dom (get s)) = n"

lemma ins_counted:
  assumes "counted s n" and "key k" and "val v"
  shows "\<exists>s' b. ins s k v = Some (s', b) \<and> counted s' (if b then n + 1 else n) \<and>
    (if b then get s k = None \<and> get s' = (get s)(k \<mapsto> v) else get s' = get s)"
proof -
  have ok: "ok s" using assms(1) by (simp add: counted_def)
  obtain s' b where s': "ins s k v = Some (s', b)" "ok s'"
    "if b then get s k = None \<and> get s' = (get s)(k \<mapsto> v) else get s' = get s"
    using ins_spec [OF ok assms(2,3)] by blast
  have "b \<Longrightarrow> k \<notin> dom (get s)" using s'(3) by auto
  then have "counted s' (if b then n + 1 else n)"
    using s' assms(1) by (cases b) (auto simp: counted_def)
  with s' show ?thesis by blast
qed

lemma del_counted:
  assumes "counted s n"
  shows "\<exists>s'. del s k = Some (s', get s k) \<and> counted s' (if get s k = None then n else n - 1) \<and>
    get s' = (get s)(k := None)"
proof -
  have ok: "ok s" using assms by (simp add: counted_def)
  obtain s' where s': "del s k = Some (s', get s k)" "ok s'" "get s' = (get s)(k := None)"
    using del_spec [OF ok] by blast
  have "dom (get s') = dom (get s) - {k}" using s'(3) by simp
  then have "card (dom (get s')) = (if get s k = None then n else n - 1)"
    using assms by (auto simp: counted_def card_Diff_singleton_if domIff)
  moreover have "finite (dom (get s'))" using s'(3) assms by (simp add: counted_def)
  ultimately show ?thesis using s' by (auto simp: counted_def)
qed

end

end
