(* ===== verification/Heap.thy ===== *)
theory Heap
  imports Interfaces
begin

text \<open>
  The kernel heap, \<^verbatim>\<open>kernel/memory/heap.c\<close>: one doubly linked list of blocks, each a 40-byte
  \<open>heap_block\<close> header followed by its payload. Headers are a store from addresses to records.
  The pointer structure is related to a list of cells (payload size, free or not) that lie one
  after the other from the start of the heap; on these, allocation is first fit with
  splitting and freeing merges with both neighbours.
\<close>

section \<open>The code\<close>

record heap_block =
  hb_size :: u64
  hb_next :: u64
  hb_prev :: u64
  hb_free :: u32
  hb_magic :: u64

record heap =
  free_list :: u64
  hblocks :: "u64 \<Rightarrow> heap_block"

definition HEAP_BLOCK_SIZE :: u64 where
  "HEAP_BLOCK_SIZE = 40"

definition HEAP_MAGIC :: u64 where
  "HEAP_MAGIC = 0x12345678"

definition hb_upd :: "u64 \<Rightarrow> (heap_block \<Rightarrow> heap_block) \<Rightarrow> heap \<Rightarrow> heap" where
  "hb_upd p f h = h\<lparr>hblocks := (hblocks h)(p := f (hblocks h p))\<rparr>"

definition heap_init_list :: "u64 \<Rightarrow> u64 \<Rightarrow> heap \<Rightarrow> heap" where
  "heap_init_list start_virt sz h =
     (h\<lparr>free_list := start_virt\<rparr>)
     \<lparr>hblocks := (hblocks h)(start_virt :=
        \<lparr>hb_size = sz - HEAP_BLOCK_SIZE, hb_next = 0, hb_prev = 0, hb_free = 1, hb_magic = HEAP_MAGIC\<rparr>)\<rparr>"

definition kmalloc_split :: "u64 \<Rightarrow> u64 \<Rightarrow> heap \<Rightarrow> heap" where
  "kmalloc_split cur aligned_size h =
     (let c = hblocks h cur;
          new_block = cur + HEAP_BLOCK_SIZE + aligned_size;
          h1 = hb_upd new_block (\<lambda>_. \<lparr>hb_size = hb_size c - aligned_size - HEAP_BLOCK_SIZE,
                 hb_next = hb_next c, hb_prev = cur, hb_free = 1, hb_magic = HEAP_MAGIC\<rparr>) h;
          h2 = (if hb_next (hblocks h1 new_block) \<noteq> 0
                then hb_upd (hb_next (hblocks h1 new_block)) (\<lambda>b. b\<lparr>hb_prev := new_block\<rparr>) h1 else h1)
      in hb_upd cur (\<lambda>b. b\<lparr>hb_size := aligned_size, hb_next := new_block\<rparr>) h2)"

partial_function (option) kmalloc_loop :: "u64 \<Rightarrow> u64 \<Rightarrow> heap \<Rightarrow> (heap \<times> u64) option" where
  "kmalloc_loop aligned_size cur h =
     (if cur = 0 then Some (h, 0)
      else if hb_free (hblocks h cur) \<noteq> 0 \<and> aligned_size \<le> hb_size (hblocks h cur) then
        (let h1 = (if aligned_size + HEAP_BLOCK_SIZE + 16 < hb_size (hblocks h cur)
                   then kmalloc_split cur aligned_size h else h)
         in Some (hb_upd cur (\<lambda>b. b\<lparr>hb_free := 0\<rparr>) h1, cur + HEAP_BLOCK_SIZE))
      else kmalloc_loop aligned_size (hb_next (hblocks h cur)) h)"

declare kmalloc_loop.simps [code]

definition kmalloc :: "u64 \<Rightarrow> heap \<Rightarrow> (heap \<times> u64) option" where
  "kmalloc sz h =
     (if sz = 0 then Some (h, 0) else kmalloc_loop ((sz + 7) AND NOT 7) (free_list h) h)"

definition kfree_merge_next :: "u64 \<Rightarrow> heap \<Rightarrow> heap" where
  "kfree_merge_next block h =
     (let n = hb_next (hblocks h block) in
      if n \<noteq> 0 \<and> hb_free (hblocks h n) \<noteq> 0 then
        (let h1 = hb_upd block (\<lambda>b. b\<lparr>hb_size := hb_size b + (HEAP_BLOCK_SIZE + hb_size (hblocks h n))\<rparr>) h;
             h2 = hb_upd block (\<lambda>b. b\<lparr>hb_next := hb_next (hblocks h1 n)\<rparr>) h1;
             n' = hb_next (hblocks h2 block)
         in if n' \<noteq> 0 then hb_upd n' (\<lambda>b. b\<lparr>hb_prev := block\<rparr>) h2 else h2)
      else h)"

definition kfree_merge_prev :: "u64 \<Rightarrow> heap \<Rightarrow> heap" where
  "kfree_merge_prev block h =
     (let p = hb_prev (hblocks h block) in
      if p \<noteq> 0 \<and> hb_free (hblocks h p) \<noteq> 0 then
        (let h1 = hb_upd p (\<lambda>b. b\<lparr>hb_size := hb_size b + (HEAP_BLOCK_SIZE + hb_size (hblocks h block))\<rparr>) h;
             h2 = hb_upd p (\<lambda>b. b\<lparr>hb_next := hb_next (hblocks h1 block)\<rparr>) h1;
             n = hb_next (hblocks h2 block)
         in if n \<noteq> 0 then hb_upd n (\<lambda>b. b\<lparr>hb_prev := hb_prev (hblocks h2 block)\<rparr>) h2 else h2)
      else h)"

definition kfree :: "u64 \<Rightarrow> heap \<Rightarrow> heap" where
  "kfree ptr h =
     (if ptr = 0 then h
      else
        (let block = ptr - HEAP_BLOCK_SIZE in
         if hb_magic (hblocks h block) \<noteq> HEAP_MAGIC then h
         else kfree_merge_prev block (kfree_merge_next block (hb_upd block (\<lambda>b. b\<lparr>hb_free := 1\<rparr>) h))))"

partial_function (option) heap_stats_loop :: "heap \<Rightarrow> u64 \<Rightarrow> u32 \<Rightarrow> u64 \<Rightarrow> (u32 \<times> u64) option" where
  "heap_stats_loop h cur count total_free =
     (if cur = 0 then Some (count, total_free)
      else if hb_free (hblocks h cur) \<noteq> 0
      then heap_stats_loop h (hb_next (hblocks h cur)) (count + 1) (total_free + hb_size (hblocks h cur))
      else heap_stats_loop h (hb_next (hblocks h cur)) count total_free)"

declare heap_stats_loop.simps [code]

definition heap_dump_stats :: "heap \<Rightarrow> (u32 \<times> u64) option" where
  "heap_dump_stats h = heap_stats_loop h (free_list h) 0 0"

section \<open>Cells\<close>

type_synonym cell = "nat \<times> bool"

definition cell_total :: "cell list \<Rightarrow> nat" where
  "cell_total cs = sum_list (map (\<lambda>c. 40 + fst c) cs)"

fun cell_malloc :: "nat \<Rightarrow> cell list \<Rightarrow> (nat \<times> cell list) option" where
  "cell_malloc n [] = None"
| "cell_malloc n ((sz, f) # cs) =
     (if f \<and> n \<le> sz then
        Some (0, if n + 56 < sz then (n, False) # (sz - n - 40, True) # cs else (sz, False) # cs)
      else map_option (\<lambda>(i, cs'). (40 + sz + i, (sz, f) # cs')) (cell_malloc n cs))"

fun merge_next :: "cell list \<Rightarrow> cell list" where
  "merge_next ((s1, True) # (s2, True) # cs) = (s1 + 40 + s2, True) # cs"
| "merge_next cs = cs"

text \<open>Freeing the first cell behind the cells \<open>xs\<close>; the last of \<open>xs\<close> absorbs it when free.\<close>

definition merge_prev :: "cell list \<Rightarrow> cell list \<Rightarrow> cell list" where
  "merge_prev xs cs =
     (if xs \<noteq> [] \<and> snd (last xs) then butlast xs @ merge_next (last xs # cs) else xs @ cs)"

definition cell_free :: "cell list \<Rightarrow> nat \<Rightarrow> cell list \<Rightarrow> cell list" where
  "cell_free xs sz ys = merge_prev xs (merge_next ((sz, True) # ys))"

text \<open>
  \<open>seg h pr p nx cs\<close>: the blocks from address \<open>p\<close> on are the cells \<open>cs\<close>, the first has the
  predecessor \<open>pr\<close> and the last the successor \<open>nx\<close>.
\<close>

fun seg :: "heap \<Rightarrow> nat \<Rightarrow> nat \<Rightarrow> nat \<Rightarrow> cell list \<Rightarrow> bool" where
  "seg h pr p nx [] = True"
| "seg h pr p nx ((sz, f) # cs) =
     (hblocks h (of_nat p) = \<lparr>hb_size = of_nat sz, hb_next = of_nat (if cs = [] then nx else p + 40 + sz),
        hb_prev = of_nat pr, hb_free = (if f then 1 else 0), hb_magic = HEAP_MAGIC\<rparr> \<and>
      seg h p (p + 40 + sz) nx cs)"

fun last_start :: "nat \<Rightarrow> nat \<Rightarrow> cell list \<Rightarrow> nat" where
  "last_start pr p [] = pr"
| "last_start pr p ((sz, f) # cs) = last_start p (p + 40 + sz) cs"

definition no_adjacent :: "cell list \<Rightarrow> bool" where
  "no_adjacent cs \<longleftrightarrow> successively (\<lambda>c d. \<not> (snd c \<and> snd d)) cs"

definition heap_rep :: "heap \<Rightarrow> nat \<Rightarrow> cell list \<Rightarrow> bool" where
  "heap_rep h base cs \<longleftrightarrow>
     cs \<noteq> [] \<and> 0 < base \<and> base mod 8 = 0 \<and> (\<forall>c\<in>set cs. fst c mod 8 = 0) \<and>
     base + cell_total cs + 64 \<le> 2 ^ 64 \<and> free_list h = of_nat base \<and> seg h 0 base 0 cs \<and> no_adjacent cs"

section \<open>Segments\<close>

lemma cell_total_simps [simp]:
  "cell_total [] = 0" "cell_total (c # cs) = 40 + fst c + cell_total cs"
  "cell_total (xs @ ys) = cell_total xs + cell_total ys"
  by (simp_all add: cell_total_def)

lemma seg_append:
  "seg h pr p nx (xs @ ys) \<longleftrightarrow>
     seg h pr p (if ys = [] then nx else p + cell_total xs) xs \<and>
     seg h (last_start pr p xs) (p + cell_total xs) nx ys"
  by (induction xs arbitrary: pr p) (auto simp: add.assoc)

lemma last_start_range:
  "xs \<noteq> [] \<Longrightarrow> p \<le> last_start pr p xs \<and> last_start pr p xs + 40 + fst (last xs) = p + cell_total xs"
  by (induction pr p xs rule: last_start.induct) (auto split: if_splits)

lemma last_start_append [simp]:
  "last_start pr p (xs @ ys) = last_start (last_start pr p xs) (p + cell_total xs) ys"
  by (induction xs arbitrary: pr p) (auto simp: add.assoc)

text \<open>A segment depends only on the headers that it covers.\<close>

lemma seg_frame:
  assumes "seg h pr p nx cs" and "p + cell_total cs \<le> 2 ^ 64"
    and "\<And>q. p \<le> q \<Longrightarrow> q < p + cell_total cs \<Longrightarrow> hblocks h' (of_nat q) = hblocks h (of_nat q)"
  shows "seg h' pr p nx cs"
  using assms
proof (induction h pr p nx cs rule: seg.induct)
  case (2 h pr p nx sz f cs)
  have "seg h' p (p + 40 + sz) nx cs"
    by (rule "2.IH") (use 2 in \<open>auto simp: add.assoc\<close>)
  with 2 show ?case by simp
qed simp

lemma of_nat_u64_eq_iff:
  "x < 2 ^ 64 \<Longrightarrow> y < 2 ^ 64 \<Longrightarrow> (of_nat x :: u64) = of_nat y \<longleftrightarrow> x = y"
proof -
  assume "x < 2 ^ 64" "y < 2 ^ 64"
  then have "unat (of_nat x :: u64) = x" "unat (of_nat y :: u64) = y"
    by (simp_all add: unat_of_nat_small)
  then show ?thesis by metis
qed

lemma hb_upd_other [simp]: "q \<noteq> p \<Longrightarrow> hblocks (hb_upd p f h) q = hblocks h q"
  and hb_upd_same [simp]: "hblocks (hb_upd p f h) p = f (hblocks h p)"
  and hb_upd_list [simp]: "free_list (hb_upd p f h) = free_list h"
  by (simp_all add: hb_upd_def)

lemma seg_upd_outside:
  assumes "seg h pr p nx cs" and "p + cell_total cs \<le> 2 ^ 64" and "a < 2 ^ 64" "a < p \<or> p + cell_total cs \<le> a"
  shows "seg (hb_upd (of_nat a) f h) pr p nx cs"
proof (rule seg_frame [OF assms(1,2)])
  fix q assume "p \<le> q" "q < p + cell_total cs"
  then have "(of_nat q :: u64) \<noteq> of_nat a"
    using assms(2-4) by (subst of_nat_u64_eq_iff) auto
  then show "hblocks (hb_upd (of_nat a) f h) (of_nat q) = hblocks h (of_nat q)" by simp
qed

lemma seg_upd_prev:
  assumes "seg h pr p nx cs" and "p + cell_total cs \<le> 2 ^ 64" and "cs \<noteq> []"
  shows "seg (hb_upd (of_nat p) (\<lambda>b. b\<lparr>hb_prev := of_nat pr'\<rparr>) h) pr' p nx cs"
proof (cases cs)
  case (Cons c cs')
  obtain sz f where c: "c = (sz, f)" by fastforce
  have "seg (hb_upd (of_nat p) (\<lambda>b. b\<lparr>hb_prev := of_nat pr'\<rparr>) h) p (p + 40 + sz) nx cs'"
    by (rule seg_upd_outside) (use assms Cons c in auto)
  then show ?thesis using assms(1) Cons c by simp
qed (use assms in simp)

text \<open>An operation on the heap that touches only headers in a range of addresses.\<close>

definition only_in :: "nat \<Rightarrow> nat \<Rightarrow> heap \<Rightarrow> heap \<Rightarrow> bool" where
  "only_in a b h h' \<longleftrightarrow> free_list h' = free_list h \<and>
     (\<forall>q < 2 ^ 64. q < a \<or> b \<le> q \<longrightarrow> hblocks h' (of_nat q) = hblocks h (of_nat q))"

lemma only_in_refl [simp]: "only_in a b h h"
  by (simp add: only_in_def)

lemma only_in_upd:
  assumes "only_in a b h h'" and "a \<le> q" "q < b" "b \<le> 2 ^ 64"
  shows "only_in a b h (hb_upd (of_nat q) f h')"
proof -
  have "hblocks (hb_upd (of_nat q) f h') (of_nat x) = hblocks h' (of_nat x)"
    if "x < 2 ^ 64" "x < a \<or> b \<le> x" for x
    using that assms(2-4) by (intro hb_upd_other) (subst of_nat_u64_eq_iff, auto)
  with assms(1) show ?thesis by (simp add: only_in_def)
qed

lemma only_in_mono: "only_in a b h h' \<Longrightarrow> a' \<le> a \<Longrightarrow> b \<le> b' \<Longrightarrow> only_in a' b' h h'"
  by (auto simp: only_in_def)

lemma seg_only_in:
  assumes "seg h pr p nx cs" and "only_in a b h h'" and "p + cell_total cs \<le> 2 ^ 64"
    and "p + cell_total cs \<le> a \<or> b \<le> p"
  shows "seg h' pr p nx cs"
  by (rule seg_frame [OF assms(1,3)]) (use assms in \<open>auto simp: only_in_def\<close>)

section \<open>Allocation\<close>

lemma kmalloc_split_seg:
  assumes seg: "seg h pr p 0 ((sz, f) # cs)" and p: "0 < p" and n: "n + 56 < sz"
    and bound: "p + cell_total ((sz, f) # cs) + 64 \<le> 2 ^ 64"
  shows "seg (kmalloc_split (of_nat p) (of_nat n) h) pr p 0 ((n, f) # (sz - n - 40, True) # cs)"
    and "only_in p (p + cell_total ((sz, f) # cs)) h (kmalloc_split (of_nat p) (of_nat n) h)"
proof -
  define q where "q = p + 40 + n"
  define r where "r = p + 40 + sz"
  define e where "e = p + cell_total ((sz, f) # cs)"
  define m where "m = sz - n - 40"
  note defs = q_def r_def e_def
  have new: "(of_nat p :: u64) + HEAP_BLOCK_SIZE + of_nat n = of_nat q"
    by (simp add: HEAP_BLOCK_SIZE_def q_def)
  have sub: "(of_nat sz :: u64) - of_nat n - HEAP_BLOCK_SIZE = of_nat m"
    using n by (simp add: HEAP_BLOCK_SIZE_def m_def of_nat_diff)
  define nx where "nx = (if cs = [] then 0 else r)"
  define h1 where "h1 = hb_upd (of_nat q) (\<lambda>_. \<lparr>hb_size = of_nat m, hb_next = of_nat nx,
    hb_prev = of_nat p, hb_free = 1, hb_magic = HEAP_MAGIC\<rparr>) h"
  define h2 where "h2 = (if cs = [] then h1 else hb_upd (of_nat r) (\<lambda>b. b\<lparr>hb_prev := of_nat q\<rparr>) h1)"
  have b: "hblocks h (of_nat p) = \<lparr>hb_size = of_nat sz, hb_next = of_nat nx, hb_prev = of_nat pr,
      hb_free = (if f then 1 else 0), hb_magic = HEAP_MAGIC\<rparr>" and tail: "seg h p r 0 cs"
    using seg by (auto simp: nx_def r_def)
  have nx0: "(of_nat nx :: u64) = 0 \<longleftrightarrow> cs = []"
    using bound of_nat_u64_eq_iff [of r 0] by (auto simp: nx_def r_def)
  have split: "kmalloc_split (of_nat p) (of_nat n) h =
      hb_upd (of_nat p) (\<lambda>b. b\<lparr>hb_size := of_nat n, hb_next := of_nat q\<rparr>) h2"
    using nx0 unfolding kmalloc_split_def Let_def new
    by (simp add: b sub h1_def h2_def nx_def)
  have o1: "only_in p e h h1"
    unfolding h1_def by (rule only_in_upd) (use bound n in \<open>auto simp: defs\<close>)
  have o2: "only_in p e h h2"
    using o1 only_in_upd [OF o1, of r] bound by (cases cs) (auto simp: h2_def defs)
  show "only_in p (p + cell_total ((sz, f) # cs)) h (kmalloc_split (of_nat p) (of_nat n) h)"
    unfolding split e_def [symmetric] by (rule only_in_upd [OF o2]) (use bound in \<open>auto simp: defs\<close>)
  have ne: "(of_nat p :: u64) \<noteq> of_nat q" "(of_nat p :: u64) \<noteq> of_nat r" "(of_nat q :: u64) \<noteq> of_nat r"
    using bound n by (subst of_nat_u64_eq_iff; simp add: defs)+
  have "seg h1 p r 0 cs"
    unfolding h1_def by (rule seg_upd_outside [OF tail]) (use bound n in \<open>auto simp: defs\<close>)
  then have "seg h2 q r 0 cs"
    using seg_upd_prev [of h1 p r 0 cs q] bound by (cases cs) (auto simp: h2_def r_def)
  then have "seg (kmalloc_split (of_nat p) (of_nat n) h) q r 0 cs"
    unfolding split by (rule seg_upd_outside) (use bound n in \<open>auto simp: defs\<close>)
  moreover have "hblocks h2 (of_nat q) = \<lparr>hb_size = of_nat m, hb_next = of_nat nx,
      hb_prev = of_nat p, hb_free = 1, hb_magic = HEAP_MAGIC\<rparr>" "hblocks h2 (of_nat p) = hblocks h (of_nat p)"
    using ne by (simp_all add: h2_def h1_def)
  moreover have "p + 40 + n = q" "q + 40 + m = r" using n by (simp_all add: defs m_def)
  ultimately show "seg (kmalloc_split (of_nat p) (of_nat n) h) pr p 0 ((n, f) # (sz - n - 40, True) # cs)"
    using ne b unfolding split m_def [symmetric] by (simp add: nx_def del: of_nat_add)
qed

lemma seg_upd_free:
  assumes "seg h pr p nx ((sz, f) # cs)" and "p + cell_total ((sz, f) # cs) \<le> 2 ^ 64"
  shows "seg (hb_upd (of_nat p) (\<lambda>b. b\<lparr>hb_free := if f' then 1 else 0\<rparr>) h) pr p nx ((sz, f') # cs)"
proof -
  have "seg (hb_upd (of_nat p) (\<lambda>b. b\<lparr>hb_free := if f' then 1 else 0\<rparr>) h) p (p + 40 + sz) nx cs"
    by (rule seg_upd_outside) (use assms in auto)
  then show ?thesis using assms(1) by simp
qed

lemma kmalloc_take_seg:
  assumes seg: "seg h pr p 0 ((sz, True) # cs)" and p: "0 < p" and n: "n \<le> sz"
    and bound: "p + cell_total ((sz, True) # cs) + 64 \<le> 2 ^ 64"
  obtains h' where "kmalloc_loop (of_nat n) (of_nat p) h = Some (h', of_nat (p + 40))"
    "seg h' pr p 0 (if n + 56 < sz then (n, False) # (sz - n - 40, True) # cs else (sz, False) # cs)"
    "only_in p (p + cell_total ((sz, True) # cs)) h h'"
proof -
  define h1 where "h1 = (if n + 56 < sz then kmalloc_split (of_nat p) (of_nat n) h else h)"
  define h' where "h' = hb_upd (of_nat p) (\<lambda>b. b\<lparr>hb_free := 0\<rparr>) h1"
  have blk: "hb_free (hblocks h (of_nat p)) = 1" "hb_size (hblocks h (of_nat p)) = of_nat sz"
    using seg by auto
  have u: "unat (of_nat sz :: u64) = sz" "unat (of_nat n :: u64) = n"
    using bound n by (auto intro: unat_of_nat_small)
  have pnz: "(of_nat p :: u64) \<noteq> 0" using of_nat_u64_eq_iff [of p 0] bound p by simp
  have le: "(of_nat n :: u64) \<le> of_nat sz" using n u by (simp add: word_le_nat_alt)
  have "unat (of_nat (n + 56) :: u64) = n + 56" by (rule unat_of_nat_small) (use bound n in simp)
  then have lt: "(of_nat n :: u64) + HEAP_BLOCK_SIZE + 16 < of_nat sz \<longleftrightarrow> n + 56 < sz"
    using u by (simp add: word_less_nat_alt HEAP_BLOCK_SIZE_def add.assoc)
  have ret: "kmalloc_loop (of_nat n) (of_nat p) h = Some (h', of_nat (p + 40))"
    using pnz le by (subst kmalloc_loop.simps)
      (simp add: blk lt h'_def h1_def Let_def, simp add: HEAP_BLOCK_SIZE_def)
  have o1: "only_in p (p + cell_total ((sz, True) # cs)) h h1"
    using kmalloc_split_seg(2) [OF seg p _ bound] by (simp add: h1_def)
  have only: "only_in p (p + cell_total ((sz, True) # cs)) h h'"
    unfolding h'_def by (rule only_in_upd [OF o1]) (use bound in auto)
  have f: "(\<lambda>b. b\<lparr>hb_free := 0\<rparr>) = (\<lambda>b :: heap_block. b\<lparr>hb_free := if False then 1 else 0\<rparr>)"
    by simp
  have "seg h' pr p 0 (if n + 56 < sz then (n, False) # (sz - n - 40, True) # cs else (sz, False) # cs)"
  proof (cases "n + 56 < sz")
    case True
    have "seg h' pr p 0 ((n, False) # (sz - n - 40, True) # cs)"
      unfolding h'_def f by (rule seg_upd_free [where f = True])
        (use kmalloc_split_seg(1) [OF seg p True bound] True bound in \<open>auto simp: h1_def\<close>)
    with True show ?thesis by simp
  next
    case False
    have "seg h' pr p 0 ((sz, False) # cs)"
      unfolding h'_def f by (rule seg_upd_free [where f = True])
        (use seg False bound in \<open>auto simp: h1_def\<close>)
    with False show ?thesis by simp
  qed
  with ret only that show thesis by blast
qed

lemma cell_malloc_total:
  "cell_malloc n cs = Some (i, cs') \<Longrightarrow> cell_total cs' = cell_total cs \<and> cs' \<noteq> [] \<and> i + 40 \<le> cell_total cs"
  by (induction cs arbitrary: i cs') (auto split: if_splits)

lemma kmalloc_loop_None:
  assumes "seg h pr p 0 cs" and "0 < p" and "p + cell_total cs + 64 \<le> 2 ^ 64" and "n < 2 ^ 64"
    and "cell_malloc n cs = None"
  shows "kmalloc_loop (of_nat n) (of_nat (if cs = [] then 0 else p)) h = Some (h, 0)"
  using assms
proof (induction cs arbitrary: pr p)
  case Nil
  show ?case by (subst kmalloc_loop.simps) simp
next
  case (Cons c cs)
  obtain sz f where c: "c = (sz, f)" by fastforce
  have u: "unat (of_nat sz :: u64) = sz" "unat (of_nat n :: u64) = n"
    using Cons.prems c by (auto intro: unat_of_nat_small)
  have pnz: "(of_nat p :: u64) \<noteq> 0" using of_nat_u64_eq_iff [of p 0] Cons.prems by simp
  have "kmalloc_loop (of_nat n) (of_nat p) h =
      kmalloc_loop (of_nat n) (of_nat (if cs = [] then 0 else p + 40 + sz)) h"
    using Cons.prems c pnz u by (subst kmalloc_loop.simps) (auto simp: word_le_nat_alt split: if_splits)
  also have "\<dots> = Some (h, 0)"
    by (rule Cons.IH [where pr = p]) (use Cons.prems c in \<open>auto split: if_splits\<close>)
  finally show ?case by simp
qed

lemma kmalloc_loop_Some:
  assumes "seg h pr p 0 cs" and "0 < p" and "p + cell_total cs + 64 \<le> 2 ^ 64" and "n < 2 ^ 64"
    and "cell_malloc n cs = Some (i, cs')"
  shows "\<exists>h'. kmalloc_loop (of_nat n) (of_nat p) h = Some (h', of_nat (p + i + 40)) \<and>
    seg h' pr p 0 cs' \<and> only_in p (p + cell_total cs) h h'"
  using assms
proof (induction cs arbitrary: pr p i cs')
  case (Cons c cs)
  obtain sz f where c: "c = (sz, f)" by fastforce
  show ?case
  proof (cases "f \<and> n \<le> sz")
    case True
    then obtain h' where "kmalloc_loop (of_nat n) (of_nat p) h = Some (h', of_nat (p + 40))"
      "seg h' pr p 0 (if n + 56 < sz then (n, False) # (sz - n - 40, True) # cs else (sz, False) # cs)"
      "only_in p (p + cell_total ((sz, True) # cs)) h h'"
      using kmalloc_take_seg [of h pr p sz cs n] Cons.prems c by auto
    then show ?thesis using Cons.prems(5) c True by (intro exI [of _ h']) auto
  next
    case False
    with Cons.prems(5) c obtain j cs1 where j: "cell_malloc n cs = Some (j, cs1)"
      "i = 40 + sz + j" "cs' = (sz, f) # cs1" by auto
    then have ne: "cs \<noteq> []" "cs1 \<noteq> []" using cell_malloc_total by fastforce+
    have "\<exists>h'. kmalloc_loop (of_nat n) (of_nat (p + 40 + sz)) h = Some (h', of_nat (p + 40 + sz + j + 40)) \<and>
        seg h' p (p + 40 + sz) 0 cs1 \<and> only_in (p + 40 + sz) (p + 40 + sz + cell_total cs) h h'"
      by (rule Cons.IH) (use Cons.prems c j in auto)
    then obtain h' where h': "kmalloc_loop (of_nat n) (of_nat (p + 40 + sz)) h =
        Some (h', of_nat (p + 40 + sz + j + 40))" "seg h' p (p + 40 + sz) 0 cs1"
        and only: "only_in (p + 40 + sz) (p + 40 + sz + cell_total cs) h h'" by blast
    have u: "unat (of_nat sz :: u64) = sz" "unat (of_nat n :: u64) = n"
      using Cons.prems c by (auto intro: unat_of_nat_small)
    have pnz: "(of_nat p :: u64) \<noteq> 0" using of_nat_u64_eq_iff [of p 0] Cons.prems by simp
    have "kmalloc_loop (of_nat n) (of_nat p) h = kmalloc_loop (of_nat n) (of_nat (p + 40 + sz)) h"
      using Cons.prems(1) c pnz u False ne by (subst kmalloc_loop.simps) (auto simp: word_le_nat_alt)
    moreover have "hblocks h' (of_nat p) = hblocks h (of_nat p)"
      using only Cons.prems(3) by (auto simp: only_in_def)
    then have "seg h' pr p 0 cs'" using h'(2) Cons.prems(1) c ne j(3) by simp
    moreover have "only_in p (p + cell_total (c # cs)) h h'"
      by (rule only_in_mono [OF only]) (auto simp: c)
    ultimately show ?thesis using h'(1) j(2) by (auto simp: add_ac)
  qed
qed simp

definition aligned :: "u64 \<Rightarrow> nat" where
  "aligned sz = unat ((sz + 7) AND NOT 7)"

lemma aligned_eq: "aligned sz = unat (sz + 7) - unat (sz + 7) mod 8"
proof -
  have "(7 :: u64) = mask 3" by (simp add: mask_eq_exp_minus_1)
  then show ?thesis unfolding aligned_def using unat_and_not_mask [of 3 "sz + 7"] by simp
qed

lemma aligned_mod [simp]: "aligned sz mod 8 = 0"
  by (simp add: aligned_eq minus_mod_eq_mult_div)

lemma aligned_no_wrap:
  assumes "unat sz \<le> 2 ^ 64 - 8"
  shows "unat sz \<le> aligned sz" and "aligned sz < unat sz + 8"
proof -
  have "unat (sz + 7) = unat sz + 7" using assms by (simp add: unat_add_no_wrap)
  then show "unat sz \<le> aligned sz" "aligned sz < unat sz + 8"
    using mod_less_divisor [of 8 "unat sz + 7"] by (auto simp: aligned_eq)
qed

lemma aligned_wrap:
  assumes "2 ^ 64 - 8 < unat sz"
  shows "aligned sz = 0"
proof -
  have "unat sz < 2 ^ 64" using unsigned_less [of sz] by simp
  then have "unat (sz + 7) < 8" using assms by (auto simp: unat_word_ariths mod_if)
  then show ?thesis by (simp add: aligned_eq)
qed

lemma cell_malloc_sizes:
  "cell_malloc n cs = Some (i, cs') \<Longrightarrow> 8 dvd n \<Longrightarrow> \<forall>c\<in>set cs. 8 dvd fst c \<Longrightarrow> \<forall>c\<in>set cs'. 8 dvd fst c"
proof (induction cs arbitrary: i cs')
  case (Cons c cs)
  obtain sz f where "c = (sz, f)" by fastforce
  with Cons show ?case by (fastforce split: if_splits intro: dvd_diff_nat)
qed simp

text \<open>Two free cells are never neighbours: allocation keeps this, and freeing merges.\<close>

lemma no_adjacent_append:
  "no_adjacent (xs @ ys) \<longleftrightarrow> no_adjacent xs \<and> no_adjacent ys \<and>
     (xs \<noteq> [] \<and> ys \<noteq> [] \<longrightarrow> \<not> (snd (last xs) \<and> snd (hd ys)))"
  by (auto simp: no_adjacent_def successively_append_iff)

lemma no_adjacent_Cons:
  "no_adjacent (c # cs) \<longleftrightarrow> no_adjacent cs \<and> (cs \<noteq> [] \<longrightarrow> \<not> (snd c \<and> snd (hd cs)))"
  by (auto simp: no_adjacent_def successively_Cons)

lemma cell_malloc_head:
  "cell_malloc n (c # cs) = Some (i, cs') \<Longrightarrow> snd (hd cs') \<Longrightarrow> snd c"
  by (cases c) (auto split: if_splits)

lemma cell_malloc_no_adjacent:
  "cell_malloc n cs = Some (i, cs') \<Longrightarrow> no_adjacent cs \<Longrightarrow> no_adjacent cs'"
proof (induction cs arbitrary: i cs')
  case (Cons c cs)
  obtain sz f where c: "c = (sz, f)" by fastforce
  show ?case
  proof (cases "f \<and> n \<le> sz")
    case True
    with Cons.prems c show ?thesis
      by (cases cs) (auto simp: no_adjacent_Cons split: if_splits)
  next
    case False
    with Cons.prems c obtain j cs1 where j: "cell_malloc n cs = Some (j, cs1)" "cs' = (sz, f) # cs1" by auto
    then obtain d ds where cs: "cs = d # ds" by (cases cs) auto
    have "no_adjacent cs1" using Cons.IH [OF j(1)] Cons.prems(2) by (simp add: no_adjacent_Cons)
    moreover have "\<not> (f \<and> snd (hd cs1))"
      using cell_malloc_head [OF j(1) [unfolded cs]] cs Cons.prems(2) c by (auto simp: no_adjacent_Cons)
    ultimately show ?thesis by (simp add: j(2) no_adjacent_Cons)
  qed
qed simp

text \<open>
  \<open>kmalloc\<close> implements first fit on the cells: the request is rounded up to a multiple of eight
  and taken from the first free cell that is large enough.
\<close>

lemma kmalloc_rep:
  assumes rep: "heap_rep h base cs" and nz: "sz \<noteq> 0"
  shows "case cell_malloc (aligned sz) cs of
      None \<Rightarrow> kmalloc sz h = Some (h, 0)
    | Some (i, cs') \<Rightarrow> \<exists>h'. kmalloc sz h = Some (h', of_nat (base + i + 40)) \<and> heap_rep h' base cs'"
proof -
  have seg: "seg h 0 base 0 cs" and b: "0 < base" "base + cell_total cs + 64 \<le> 2 ^ 64" "cs \<noteq> []"
    and fl: "free_list h = of_nat base" and "base mod 8 = 0" and d: "\<forall>c\<in>set cs. 8 dvd fst c"
    using rep by (auto simp: heap_rep_def mod_eq_0_iff_dvd)
  have k: "kmalloc sz h = kmalloc_loop (of_nat (aligned sz)) (of_nat base) h"
    using nz fl by (simp add: kmalloc_def aligned_def)
  have n: "aligned sz < 2 ^ 64" unfolding aligned_def using unsigned_less [where 'b = 64] by simp
  have d8: "8 dvd aligned sz" using aligned_mod by blast
  show ?thesis
  proof (cases "cell_malloc (aligned sz) cs")
    case None
    then show ?thesis using kmalloc_loop_None [OF seg b(1,2) n] b(3) k by simp
  next
    case (Some r)
    obtain i cs' where r: "cell_malloc (aligned sz) cs = Some (i, cs')" using Some by (cases r) simp
    obtain h' where h': "kmalloc sz h = Some (h', of_nat (base + i + 40))" "seg h' 0 base 0 cs'"
      "only_in base (base + cell_total cs) h h'"
      using kmalloc_loop_Some [OF seg b(1,2) n r] k by auto
    have "heap_rep h' base cs'"
      using rep h' cell_malloc_total [OF r] cell_malloc_sizes [OF r d8 d] cell_malloc_no_adjacent [OF r]
      by (auto simp: heap_rep_def only_in_def mod_eq_0_iff_dvd)
    with h' r show ?thesis by auto
  qed
qed

section \<open>Freeing\<close>

text \<open>The block at \<open>p\<close> absorbs the free block behind it.\<close>

lemma absorb_seg:
  assumes seg: "seg h pr p 0 ((sz, True) # (s2, True) # cs)" and p: "0 < p"
    and bound: "p + cell_total ((sz, True) # (s2, True) # cs) \<le> 2 ^ 64"
  shows "seg (kfree_merge_next (of_nat p) h) pr p 0 ((sz + 40 + s2, True) # cs)"
    and "only_in p (p + cell_total ((sz, True) # (s2, True) # cs)) h (kfree_merge_next (of_nat p) h)"
proof -
  define r where "r = p + 40 + sz"
  define t where "t = r + 40 + s2"
  define e where "e = p + cell_total ((sz, True) # (s2, True) # cs)"
  define nx where "nx = (if cs = [] then 0 else t)"
  note defs = r_def t_def e_def
  have bp: "hblocks h (of_nat p) = \<lparr>hb_size = of_nat sz, hb_next = of_nat r, hb_prev = of_nat pr,
      hb_free = 1, hb_magic = HEAP_MAGIC\<rparr>"
    and br: "hblocks h (of_nat r) = \<lparr>hb_size = of_nat s2, hb_next = of_nat nx, hb_prev = of_nat p,
      hb_free = 1, hb_magic = HEAP_MAGIC\<rparr>"
    and tail: "seg h r t 0 cs"
    using seg by (auto simp: nx_def defs)
  have ne: "(of_nat p :: u64) \<noteq> of_nat r" "(of_nat r :: u64) \<noteq> 0"
    using bound of_nat_u64_eq_iff [of p r] of_nat_u64_eq_iff [of r 0] by (simp_all add: defs)
  have net: "(of_nat t :: u64) \<noteq> 0" "(of_nat t :: u64) \<noteq> of_nat p" if "cs \<noteq> []"
    using that bound of_nat_u64_eq_iff [of t 0] of_nat_u64_eq_iff [of t p] by (cases cs; simp add: defs)+
  define h2 where "h2 = hb_upd (of_nat p) (\<lambda>b. b\<lparr>hb_next := of_nat nx\<rparr>)
    (hb_upd (of_nat p) (\<lambda>b. b\<lparr>hb_size := hb_size b + (HEAP_BLOCK_SIZE + of_nat s2)\<rparr>) h)"
  have eq: "kfree_merge_next (of_nat p) h =
      (if cs = [] then h2 else hb_upd (of_nat t) (\<lambda>b. b\<lparr>hb_prev := of_nat p\<rparr>) h2)"
    using ne net by (auto simp: kfree_merge_next_def Let_def bp br h2_def nx_def)
  have o2: "only_in p e h h2"
    unfolding h2_def using bound by (intro only_in_upd only_in_refl) (auto simp: defs)
  show "only_in p (p + cell_total ((sz, True) # (s2, True) # cs)) h (kfree_merge_next (of_nat p) h)"
    using o2 only_in_upd [OF o2, of t] bound unfolding eq e_def [symmetric]
    by (cases cs) (auto simp: defs)
  have "seg h2 r t 0 cs"
    unfolding h2_def using bound tail by (intro seg_upd_outside) (auto simp: defs)
  then have "seg (kfree_merge_next (of_nat p) h) p t 0 cs"
    unfolding eq using seg_upd_prev [of h2 r t 0 cs p] bound by (cases cs) (auto simp: defs)
  moreover have "hblocks (kfree_merge_next (of_nat p) h) (of_nat p) = hblocks h2 (of_nat p)"
    unfolding eq using net by auto
  moreover have "p + 40 + (sz + 40 + s2) = t" by (simp add: defs)
  ultimately show "seg (kfree_merge_next (of_nat p) h) pr p 0 ((sz + 40 + s2, True) # cs)"
    by (simp add: h2_def bp nx_def HEAP_BLOCK_SIZE_def add.assoc)
qed

lemma merge_next_seg:
  assumes seg: "seg h pr p 0 ((sz, True) # cs)" and p: "0 < p"
    and bound: "p + cell_total ((sz, True) # cs) \<le> 2 ^ 64"
  shows "seg (kfree_merge_next (of_nat p) h) pr p 0 (merge_next ((sz, True) # cs))"
    and "only_in p (p + cell_total ((sz, True) # cs)) h (kfree_merge_next (of_nat p) h)"
proof -
  consider (absorb) s2 cs' where "cs = (s2, True) # cs'" | (used) s2 cs' where "cs = (s2, False) # cs'"
    | (last) "cs = []" by (metis (full_types) neq_Nil_conv prod.collapse)
  then have "seg (kfree_merge_next (of_nat p) h) pr p 0 (merge_next ((sz, True) # cs)) \<and>
    only_in p (p + cell_total ((sz, True) # cs)) h (kfree_merge_next (of_nat p) h)"
  proof cases
    case absorb
    then show ?thesis using absorb_seg [of h pr p sz s2 cs'] assms by simp
  next
    case used
    then have "kfree_merge_next (of_nat p) h = h" using seg by (simp add: kfree_merge_next_def Let_def)
    then show ?thesis using used seg by simp
  next
    case last
    then have "kfree_merge_next (of_nat p) h = h" using seg by (simp add: kfree_merge_next_def Let_def)
    then show ?thesis using last seg by simp
  qed
  then show "seg (kfree_merge_next (of_nat p) h) pr p 0 (merge_next ((sz, True) # cs))"
    and "only_in p (p + cell_total ((sz, True) # cs)) h (kfree_merge_next (of_nat p) h)" by auto
qed

text \<open>Merging with the previous block is what merging that block with its successor is.\<close>

lemma merge_prev_eq:
  assumes seg: "seg h pr p 0 ((s1, True) # (sz, True) # cs)" and p: "0 < p"
    and bound: "p + cell_total ((s1, True) # (sz, True) # cs) \<le> 2 ^ 64"
  shows "kfree_merge_prev (of_nat (p + 40 + s1)) h = kfree_merge_next (of_nat p) h"
proof -
  define r where "r = p + 40 + s1"
  have ne: "(of_nat r :: u64) \<noteq> of_nat p" "(of_nat p :: u64) \<noteq> 0" "(of_nat r :: u64) \<noteq> 0"
    using bound p of_nat_u64_eq_iff [of r p] of_nat_u64_eq_iff [of p 0] of_nat_u64_eq_iff [of r 0]
    by (simp_all add: r_def)
  have bp: "hblocks h (of_nat p) = \<lparr>hb_size = of_nat s1, hb_next = of_nat r, hb_prev = of_nat pr,
      hb_free = 1, hb_magic = HEAP_MAGIC\<rparr>"
    and br: "hb_prev (hblocks h (of_nat r)) = of_nat p" "hb_free (hblocks h (of_nat r)) = 1"
    using seg by (auto simp: r_def)
  show ?thesis
    unfolding r_def [symmetric]
    using ne by (simp add: kfree_merge_prev_def kfree_merge_next_def Let_def bp br)
qed

lemma merge_next_facts:
  "cell_total (merge_next cs) = cell_total cs" "merge_next cs = [] \<longleftrightarrow> cs = []"
  "\<forall>c\<in>set cs. 8 dvd fst c \<Longrightarrow> \<forall>c\<in>set (merge_next cs). 8 dvd fst c"
  by (induction cs rule: merge_next.induct) auto

lemma merge_next_Cons: obtains sz' cs' where "merge_next ((sz, True) # cs) = (sz', True) # cs'"
  by (cases "(sz, True) # cs" rule: merge_next.cases) auto

lemma merge_prev_facts:
  "cell_total (merge_prev xs cs) = cell_total (xs @ cs)"
  "\<forall>c\<in>set (xs @ cs). 8 dvd fst c \<Longrightarrow> \<forall>c\<in>set (merge_prev xs cs). 8 dvd fst c"
  "cs \<noteq> [] \<Longrightarrow> merge_prev xs cs \<noteq> []"
proof -
  show "cell_total (merge_prev xs cs) = cell_total (xs @ cs)"
    by (cases xs rule: rev_cases) (simp_all add: merge_prev_def merge_next_facts(1))
  show "cs \<noteq> [] \<Longrightarrow> merge_prev xs cs \<noteq> []"
    by (cases xs rule: rev_cases) (simp_all add: merge_prev_def merge_next_facts(2))
  assume a: "\<forall>c\<in>set (xs @ cs). 8 dvd fst c"
  show "\<forall>c\<in>set (merge_prev xs cs). 8 dvd fst c"
  proof (cases "xs \<noteq> [] \<and> snd (last xs)")
    case True
    have "\<forall>c\<in>set (merge_next (last xs # cs)). 8 dvd fst c"
      by (rule merge_next_facts(3)) (use a True in simp)
    with a True show ?thesis by (auto simp: merge_prev_def dest: in_set_butlastD)
  next
    case False
    then have "merge_prev xs cs = xs @ cs" by (auto simp: merge_prev_def)
    with a show ?thesis by simp
  qed
qed

lemma merge_prev_simps [simp]:
  "merge_prev [] cs = cs"
  "merge_prev (ys @ [(s1, True)]) ((sz, True) # cs) = ys @ (s1 + 40 + sz, True) # cs"
  "merge_prev (ys @ [(s1, False)]) cs = ys @ (s1, False) # cs"
  by (simp_all add: merge_prev_def)

lemma merge_prev_seg:
  assumes seg: "seg h 0 base 0 (xs @ (sz, True) # cs)" and b: "0 < base"
    and bound: "base + cell_total (xs @ (sz, True) # cs) \<le> 2 ^ 64"
  shows "seg (kfree_merge_prev (of_nat (base + cell_total xs)) h) 0 base 0 (merge_prev xs ((sz, True) # cs)) \<and>
    free_list (kfree_merge_prev (of_nat (base + cell_total xs)) h) = free_list h"
proof (cases xs rule: rev_cases)
  case Nil
  then have "hb_prev (hblocks h (of_nat (base + cell_total xs))) = 0" using seg by simp
  then have "kfree_merge_prev (of_nat (base + cell_total xs)) h = h"
    by (simp only: kfree_merge_prev_def Let_def) simp
  with Nil seg show ?thesis by simp
next
  case (snoc ys c)
  obtain s1 f where c: "c = (s1, f)" by fastforce
  define p where "p = base + cell_total ys"
  have two: "seg h (last_start 0 base ys) p 0 ((s1, f) # (sz, True) # cs)"
    and one: "seg h 0 base p ys"
    using seg unfolding snoc c append_assoc seg_append [of _ _ _ _ ys] by (simp_all add: p_def)
  have bp: "p + cell_total ((s1, f) # (sz, True) # cs) \<le> 2 ^ 64" "0 < p"
    using bound b by (simp_all add: snoc c p_def)
  have q: "base + cell_total xs = p + 40 + s1" by (simp add: snoc c p_def)
  show ?thesis
  proof (cases f)
    case True
    then have f: "f = True" by simp
    note a = absorb_seg [OF two [unfolded f] bp(2) bp(1) [unfolded f]]
    have "seg (kfree_merge_next (of_nat p) h) 0 base p ys"
      by (rule seg_only_in [OF one a(2)]) (use bp(1) in \<open>auto simp: p_def\<close>)
    then have "seg (kfree_merge_next (of_nat p) h) 0 base 0 (ys @ (s1 + 40 + sz, True) # cs)"
      using a(1) unfolding seg_append p_def by simp
    moreover have "kfree_merge_prev (of_nat (p + 40 + s1)) h = kfree_merge_next (of_nat p) h"
      by (rule merge_prev_eq [OF two [unfolded f] bp(2) bp(1) [unfolded f]])
    ultimately show ?thesis using a(2) unfolding q by (simp add: snoc c True only_in_def)
  next
    case False
    have "hb_prev (hblocks h (of_nat (p + 40 + s1))) = of_nat p" "hb_free (hblocks h (of_nat p)) = 0"
      using two False by simp_all
    then have "kfree_merge_prev (of_nat (p + 40 + s1)) h = h"
      by (simp only: kfree_merge_prev_def Let_def) simp
    then show ?thesis using seg unfolding q by (simp add: snoc c False)
  qed
qed

lemma cell_free_facts:
  "cell_total (cell_free xs sz ys) = cell_total (xs @ (sz, False) # ys)"
  "cell_free xs sz ys \<noteq> []"
  "\<forall>c\<in>set (xs @ (sz, False) # ys). 8 dvd fst c \<Longrightarrow> \<forall>c\<in>set (cell_free xs sz ys). 8 dvd fst c"
proof -
  show "cell_total (cell_free xs sz ys) = cell_total (xs @ (sz, False) # ys)"
    by (simp add: cell_free_def merge_prev_facts(1) merge_next_facts(1))
  show "cell_free xs sz ys \<noteq> []"
    unfolding cell_free_def by (rule merge_prev_facts(3)) (simp add: merge_next_facts(2))
  assume a: "\<forall>c\<in>set (xs @ (sz, False) # ys). 8 dvd fst c"
  have "\<forall>c\<in>set (merge_next ((sz, True) # ys)). 8 dvd fst c"
    by (rule merge_next_facts(3)) (use a in simp)
  with a show "\<forall>c\<in>set (cell_free xs sz ys). 8 dvd fst c"
    unfolding cell_free_def by (intro merge_prev_facts(2)) auto
qed

lemma cell_free_no_adjacent:
  assumes "no_adjacent (xs @ (sz, False) # ys)"
  shows "no_adjacent (cell_free xs sz ys)"
proof -
  obtain k cs where mn: "merge_next ((sz, True) # ys) = (k, True) # cs" by (rule merge_next_Cons)
  have na: "no_adjacent xs" "no_adjacent ys" using assms by (auto simp: no_adjacent_append no_adjacent_Cons)
  have cs: "no_adjacent ((k, True) # cs)"
    using mn na(2) by (cases "(sz, True) # ys" rule: merge_next.cases) (auto simp: no_adjacent_Cons)
  show ?thesis
  proof (cases xs rule: rev_cases)
    case Nil
    then show ?thesis using cs by (simp add: cell_free_def mn)
  next
    case (snoc zs c)
    then show ?thesis using na(1) cs
      by (cases c; cases "snd c") (auto simp: cell_free_def mn no_adjacent_append no_adjacent_Cons)
  qed
qed

text \<open>\<open>kfree\<close> of a used block implements freeing a cell and merging it with its neighbours.\<close>

lemma kfree_rep:
  assumes rep: "heap_rep h base (xs @ (sz, False) # ys)"
  shows "heap_rep (kfree (of_nat (base + cell_total xs + 40)) h) base (cell_free xs sz ys)"
proof -
  define p where "p = base + cell_total xs"
  define h1 where "h1 = hb_upd (of_nat p) (\<lambda>b. b\<lparr>hb_free := if True then 1 else 0\<rparr>) h"
  define h2 where "h2 = kfree_merge_next (of_nat p) h1"
  have seg: "seg h 0 base p xs" "seg h (last_start 0 base xs) p 0 ((sz, False) # ys)"
    and b: "0 < base" "base + cell_total (xs @ (sz, False) # ys) + 64 \<le> 2 ^ 64"
    using rep by (simp_all add: heap_rep_def seg_append p_def)
  then have bp: "0 < p" "p + cell_total ((sz, True) # ys) + 64 \<le> 2 ^ 64" by (simp_all add: p_def)
  have nz: "(of_nat (p + 40) :: u64) \<noteq> 0" using of_nat_u64_eq_iff [of "p + 40" 0] bp by simp
  have k: "kfree (of_nat (p + 40)) h = kfree_merge_prev (of_nat p) h2"
    using nz seg(2) by (simp add: kfree_def HEAP_BLOCK_SIZE_def Let_def h1_def h2_def)
  have s1: "seg h1 (last_start 0 base xs) p 0 ((sz, True) # ys)"
    unfolding h1_def by (rule seg_upd_free [OF seg(2)]) (use bp in simp)
  have x1: "seg h1 0 base p xs"
    unfolding h1_def by (rule seg_upd_outside [OF seg(1)]) (use bp in \<open>auto simp: p_def\<close>)
  have bp': "p + cell_total ((sz, True) # ys) \<le> 2 ^ 64" using bp(2) by simp
  note m = merge_next_seg [OF s1 bp(1) bp', folded h2_def]
  have x2: "seg h2 0 base p xs"
    by (rule seg_only_in [OF x1 m(2)]) (use bp in \<open>auto simp: p_def\<close>)
  obtain sz' cs' where mn: "merge_next ((sz, True) # ys) = (sz', True) # cs'" by (rule merge_next_Cons)
  have tot: "cell_total ((sz', True) # cs') = cell_total ((sz, True) # ys)"
    using merge_next_facts(1) mn by metis
  have s2: "seg h2 0 base 0 (xs @ (sz', True) # cs')"
    using x2 m(1) unfolding mn seg_append p_def by simp
  have "base + cell_total (xs @ (sz', True) # cs') \<le> 2 ^ 64" using b(2) tot by simp
  from merge_prev_seg [OF s2 b(1) this]
  have "seg (kfree_merge_prev (of_nat p) h2) 0 base 0 (cell_free xs sz ys)"
    and "free_list (kfree_merge_prev (of_nat p) h2) = free_list h2"
    unfolding p_def cell_free_def mn by simp_all
  moreover have "free_list h2 = free_list h" using m(2) by (simp add: only_in_def h1_def)
  moreover have "\<forall>c\<in>set (cell_free xs sz ys). 8 dvd fst c"
    by (rule cell_free_facts(3)) (use rep in \<open>simp add: heap_rep_def mod_eq_0_iff_dvd\<close>)
  ultimately show ?thesis
    using rep unfolding p_def [symmetric] k heap_rep_def cell_free_facts(1)
    by (simp add: mod_eq_0_iff_dvd cell_free_facts(2) cell_free_no_adjacent)
qed

section \<open>Live blocks\<close>

fun used_cells :: "nat \<Rightarrow> cell list \<Rightarrow> (nat \<times> nat) set" where
  "used_cells p [] = {}"
| "used_cells p ((sz, f) # cs) = (if f then {} else {(p + 40, sz)}) \<union> used_cells (p + 40 + sz) cs"

lemma used_cells_append: "used_cells p (xs @ ys) = used_cells p xs \<union> used_cells (p + cell_total xs) ys"
  by (induction p xs rule: used_cells.induct) (auto simp: add.assoc)

lemma used_cells_range: "(a, n) \<in> used_cells p cs \<Longrightarrow> p + 40 \<le> a \<and> a + n \<le> p + cell_total cs"
  by (induction p cs rule: used_cells.induct) (auto split: if_splits)

lemma used_cells_disjoint:
  "(a, n) \<in> used_cells p cs \<Longrightarrow> (b, k) \<in> used_cells p cs \<Longrightarrow> (a, n) \<noteq> (b, k) \<Longrightarrow>
     a + n + 40 \<le> b \<or> b + k + 40 \<le> a"
proof (induction p cs rule: used_cells.induct)
  case (2 p sz f cs)
  then show ?case using used_cells_range [of _ _ "p + 40 + sz" cs] by (auto split: if_splits)
qed simp

lemma used_cells_split:
  "(a, n) \<in> used_cells p cs \<Longrightarrow> \<exists>xs ys. cs = xs @ (n, False) # ys \<and> a = p + cell_total xs + 40"
proof (induction p cs rule: used_cells.induct)
  case (2 p sz f cs)
  show ?case
  proof (cases "(a, n) \<in> used_cells (p + 40 + sz) cs")
    case True
    then obtain xs ys where "cs = xs @ (n, False) # ys" "a = p + 40 + sz + cell_total xs + 40"
      using 2 by blast
    then show ?thesis by (intro exI [of _ "(sz, f) # xs"] exI [of _ ys]) simp
  next
    case False
    then show ?thesis using 2(2) by (intro exI [of _ "[]"] exI [of _ cs]) (auto split: if_splits)
  qed
qed simp

lemma used_cells_malloc:
  "cell_malloc n cs = Some (i, cs') \<Longrightarrow>
     \<exists>sz \<ge> n. used_cells p cs' = insert (p + i + 40, sz) (used_cells p cs) \<and> (p + i + 40, sz) \<notin> used_cells p cs"
proof (induction cs arbitrary: p i cs')
  case (Cons c cs)
  obtain sz f where c: "c = (sz, f)" by fastforce
  show ?case
  proof (cases "f \<and> n \<le> sz")
    case True
    have fresh: "(p + 40, k) \<notin> used_cells (p + 40 + sz) cs" for k using used_cells_range [of "p + 40"] by fastforce
    have "p + 40 + n + 40 + (sz - n - 40) = p + 40 + sz" if "n + 56 < sz" using that by simp
    then have "used_cells p cs' = insert (p + 40, if n + 56 < sz then n else sz) (used_cells p (c # cs)) \<and> i = 0"
      using Cons.prems c True by (auto split: if_splits simp: add_ac)
    with fresh c True show ?thesis by (intro exI [of _ "if n + 56 < sz then n else sz"]) auto
  next
    case False
    with Cons.prems c obtain j cs1 where j: "cell_malloc n cs = Some (j, cs1)" "i = 40 + sz + j" "cs' = (sz, f) # cs1"
      by auto
    with Cons.IH [OF j(1), of "p + 40 + sz"] c show ?thesis by (auto simp: add_ac)
  qed
qed simp

lemma used_cells_merge_next:
  "used_cells p (merge_next ((sz, True) # cs)) = used_cells (p + 40 + sz) cs"
  by (cases "(sz, True) # cs" rule: merge_next.cases) (auto simp: add.assoc)

lemma used_cells_free:
  "used_cells p (cell_free xs sz ys) = used_cells p (xs @ (sz, False) # ys) - {(p + cell_total xs + 40, sz)}"
proof -
  let ?q = "p + cell_total xs"
  have mp: "used_cells p (merge_prev xs ((k, True) # cs)) = used_cells p (xs @ (k, True) # cs)" for k cs
  proof (cases xs rule: rev_cases)
    case (snoc zs c)
    then show ?thesis by (cases c; cases "snd c") (auto simp: used_cells_append add.assoc)
  qed simp
  have "used_cells p (cell_free xs sz ys) = used_cells p xs \<union> used_cells (?q + 40 + sz) ys"
    unfolding cell_free_def
    by (rule merge_next_Cons [of sz ys])
      (use used_cells_merge_next [of ?q sz ys] in \<open>simp add: mp used_cells_append\<close>)
  moreover have "(?q + 40, sz) \<notin> used_cells p xs" using used_cells_range [of "?q + 40" sz p xs] by auto
  moreover have "(?q + 40, sz) \<notin> used_cells (?q + 40 + sz) ys"
    using used_cells_range [of "?q + 40" sz "?q + 40 + sz" ys] by auto
  ultimately show ?thesis by (auto simp: used_cells_append)
qed

text \<open>The cells are determined by the heap.\<close>

lemma seg_unique:
  assumes "seg h pr p 0 cs" and "seg h pr' p 0 cs'" and "cs \<noteq> []" and "cs' \<noteq> []"
    and "0 < p" and "p + cell_total cs \<le> 2 ^ 64" and "p + cell_total cs' \<le> 2 ^ 64"
  shows "cs = cs'"
  using assms
proof (induction cs arbitrary: cs' p pr pr')
  case (Cons c cs)
  obtain sz f where c: "c = (sz, f)" by fastforce
  obtain sz' f' ds where c': "cs' = (sz', f') # ds" using Cons.prems(4) by (cases cs') auto
  let ?b = "hblocks h (of_nat p)"
  have szs: "sz = sz'" "f = f'"
    using Cons.prems c c' of_nat_u64_eq_iff [of sz sz'] by (auto split: if_splits)
  have "(of_nat (if cs = [] then 0 else p + 40 + sz) :: u64) = of_nat (if ds = [] then 0 else p + 40 + sz)"
    using Cons.prems(1,2) c c' szs by auto
  moreover have "(if cs = [] then 0 else p + 40 + sz) < 2 ^ 64" "(if ds = [] then 0 else p + 40 + sz) < 2 ^ 64"
    using Cons.prems(6,7) c c' szs by (cases cs; cases ds; auto)+
  ultimately have nil: "cs = [] \<longleftrightarrow> ds = []" by (subst (asm) of_nat_u64_eq_iff) (auto split: if_splits)
  show ?case
  proof (cases "cs = []")
    case True
    then show ?thesis using nil c c' szs by simp
  next
    case False
    have "cs = ds"
      by (rule Cons.IH [where p = "p + 40 + sz"]) (use False nil Cons.prems c c' szs in auto)
    then show ?thesis using c c' szs by simp
  qed
qed simp

lemma heap_rep_unique:
  assumes "heap_rep h base cs" and "heap_rep h base' cs'"
  shows "base = base' \<and> cs = cs'"
proof -
  have "base = base'"
    using assms of_nat_u64_eq_iff [of base base'] by (auto simp: heap_rep_def)
  moreover from this have "cs = cs'"
    using assms by (intro seg_unique [of h 0 base cs 0 cs']) (auto simp: heap_rep_def)
  ultimately show ?thesis by simp
qed

definition heap_ok :: "heap \<Rightarrow> bool" where
  "heap_ok h \<longleftrightarrow> (\<exists>base cs. heap_rep h base cs)"

definition heap_blocks :: "heap \<Rightarrow> (nat \<times> nat) set" where
  "heap_blocks h = {b. \<exists>base cs. heap_rep h base cs \<and> b \<in> used_cells base cs}"

definition heap_live :: "heap \<Rightarrow> u64 set" where
  "heap_live h = (\<lambda>b. of_nat (fst b)) ` heap_blocks h"

text \<open>The bytes of the object at a pointer.\<close>

definition heap_extent :: "heap \<Rightarrow> u64 \<Rightarrow> nat set" where
  "heap_extent h ptr = {x. \<exists>b\<in>heap_blocks h. ptr = of_nat (fst b) \<and> fst b \<le> x \<and> x < fst b + snd b}"

lemma heap_blocks_rep: "heap_rep h base cs \<Longrightarrow> heap_blocks h = used_cells base cs"
  by (auto simp: heap_blocks_def dest: heap_rep_unique)

lemma heap_blocks_small:
  assumes "heap_ok h" and "b \<in> heap_blocks h"
  shows "fst b + snd b < 2 ^ 64" and "0 < fst b"
proof -
  obtain base cs where rep: "heap_rep h base cs" using assms(1) by (auto simp: heap_ok_def)
  then have "(fst b, snd b) \<in> used_cells base cs" using assms(2) heap_blocks_rep by auto
  from used_cells_range [OF this] rep show "fst b + snd b < 2 ^ 64" "0 < fst b"
    by (auto simp: heap_rep_def)
qed

lemma heap_blocks_inj:
  assumes "heap_ok h" and "b \<in> heap_blocks h" and "c \<in> heap_blocks h"
    and "(of_nat (fst b) :: u64) = of_nat (fst c)"
  shows "b = c"
proof -
  have eq: "fst b = fst c"
    using assms heap_blocks_small(1) [OF assms(1,2)] heap_blocks_small(1) [OF assms(1,3)]
      of_nat_u64_eq_iff [of "fst b" "fst c"] by simp
  obtain base cs where "heap_rep h base cs" using assms(1) by (auto simp: heap_ok_def)
  then have "(fst b, snd b) \<in> used_cells base cs" "(fst c, snd c) \<in> used_cells base cs"
    using assms(2,3) heap_blocks_rep by auto
  from used_cells_disjoint [OF this] eq show ?thesis by (cases "b = c") (auto simp: prod_eq_iff)
qed

lemma heap_extent_block:
  assumes "heap_ok h" and "b \<in> heap_blocks h"
  shows "heap_extent h (of_nat (fst b)) = {fst b..<fst b + snd b}"
proof -
  have "c \<in> heap_blocks h \<Longrightarrow> (of_nat (fst b) :: u64) = of_nat (fst c) \<longleftrightarrow> c = b" for c
    using heap_blocks_inj [OF assms] by blast
  then show ?thesis using assms(2) by (auto simp: heap_extent_def cong: bex_cong)
qed

definition heap_arena :: "heap \<Rightarrow> (nat \<times> nat) set" where
  "heap_arena h = {(base, n). \<exists>cs. heap_rep h base cs \<and> n = cell_total cs}"

lemma heap_arena_rep: "heap_rep h base cs \<Longrightarrow> heap_arena h = {(base, cell_total cs)}"
  by (auto simp: heap_arena_def dest: heap_rep_unique)

lemma heap_rep_dvd:
  assumes "heap_rep h base cs" and "(a, n) \<in> used_cells base cs"
  shows "a mod 8 = 0"
proof -
  obtain xs ys where cs: "cs = xs @ (n, False) # ys" "a = base + cell_total xs + 40"
    using used_cells_split [OF assms(2)] by blast
  have "\<forall>c\<in>set xs. 8 dvd fst c" "8 dvd base"
    using assms(1) cs by (auto simp: heap_rep_def mod_eq_0_iff_dvd)
  then have "8 dvd cell_total xs" by (induction xs) auto
  with \<open>8 dvd base\<close> show ?thesis unfolding cs(2) mod_eq_0_iff_dvd by (intro dvd_add) auto
qed

lemma kmalloc_new:
  assumes ok: "heap_ok h" and k: "kmalloc sz h = Some (h', p)" and p: "p \<noteq> 0"
  shows "\<exists>a n. p = of_nat a \<and> a mod 8 = 0 \<and> aligned sz \<le> n \<and> heap_ok h' \<and>
    heap_blocks h' = insert (a, n) (heap_blocks h) \<and> (a, n) \<notin> heap_blocks h \<and> heap_arena h' = heap_arena h"
proof -
  obtain base cs where rep: "heap_rep h base cs" using ok by (auto simp: heap_ok_def)
  have "sz \<noteq> 0" using k p by (auto simp: kmalloc_def)
  from kmalloc_rep [OF rep this] k p obtain i cs' where r: "cell_malloc (aligned sz) cs = Some (i, cs')"
    "p = of_nat (base + i + 40)" "heap_rep h' base cs'"
    by (auto split: option.splits)
  obtain n where n: "aligned sz \<le> n" "used_cells base cs' = insert (base + i + 40, n) (used_cells base cs)"
    "(base + i + 40, n) \<notin> used_cells base cs"
    using used_cells_malloc [OF r(1)] by blast
  have "(base + i + 40) mod 8 = 0" by (rule heap_rep_dvd [OF r(3)]) (use n(2) in blast)
  with n r rep cell_malloc_total [OF r(1)] show ?thesis
    by (intro exI [of _ "base + i + 40"] exI [of _ n])
      (auto simp: heap_blocks_rep heap_arena_rep heap_ok_def)
qed

lemma kmalloc_fails:
  assumes ok: "heap_ok h" and k: "kmalloc sz h = Some (h', 0)"
  shows "h' = h"
proof (cases "sz = 0")
  case False
  obtain base cs where rep: "heap_rep h base cs" using ok by (auto simp: heap_ok_def)
  show ?thesis
  proof (cases "cell_malloc (aligned sz) cs")
    case None
    then show ?thesis using kmalloc_rep [OF rep False] k by simp
  next
    case (Some r)
    then obtain i cs' where r: "cell_malloc (aligned sz) cs = Some (i, cs')" by (cases r) simp
    then have "(of_nat (base + i + 40) :: u64) = 0" using kmalloc_rep [OF rep False] k by auto
    moreover have "base + i + 40 < 2 ^ 64" using cell_malloc_total [OF r] rep by (simp add: heap_rep_def)
    ultimately show ?thesis using of_nat_u64_eq_iff [of "base + i + 40" 0] by simp
  qed
qed (use k in \<open>simp add: kmalloc_def\<close>)

lemma kmalloc_returns: "heap_ok h \<Longrightarrow> kmalloc sz h \<noteq> None"
proof -
  assume "heap_ok h"
  then obtain base cs where rep: "heap_rep h base cs" by (auto simp: heap_ok_def)
  show ?thesis
    using kmalloc_rep [OF rep, of sz] by (cases "sz = 0") (auto simp: kmalloc_def split: option.splits)
qed

lemma kfree_live:
  assumes ok: "heap_ok h" and b: "b \<in> heap_blocks h"
  shows "heap_ok (kfree (of_nat (fst b)) h)"
    and "heap_blocks (kfree (of_nat (fst b)) h) = heap_blocks h - {b}"
    and "heap_arena (kfree (of_nat (fst b)) h) = heap_arena h"
proof -
  obtain base cs where rep: "heap_rep h base cs" using ok by (auto simp: heap_ok_def)
  obtain xs ys where cs: "cs = xs @ (snd b, False) # ys" "fst b = base + cell_total xs + 40"
    using used_cells_split [of "fst b" "snd b" base cs] b heap_blocks_rep [OF rep] by auto
  have r: "heap_rep (kfree (of_nat (fst b)) h) base (cell_free xs (snd b) ys)"
    using kfree_rep rep unfolding cs by blast
  then show "heap_ok (kfree (of_nat (fst b)) h)" by (auto simp: heap_ok_def)
  show "heap_blocks (kfree (of_nat (fst b)) h) = heap_blocks h - {b}"
    unfolding heap_blocks_rep [OF r] heap_blocks_rep [OF rep] used_cells_free
    by (metis cs prod.collapse)
  show "heap_arena (kfree (of_nat (fst b)) h) = heap_arena h"
    unfolding heap_arena_rep [OF r] heap_arena_rep [OF rep] by (simp add: cell_free_facts(1) cs(1))
qed

definition kmalloc_opt :: "u64 \<Rightarrow> heap \<Rightarrow> (heap \<times> u64 option) option" where
  "kmalloc_opt n h = map_option (\<lambda>(h', p). (h', if p = 0 then None else Some p)) (kmalloc n h)"

lemma kmalloc_opt_Some: "kmalloc_opt n h = Some (h', Some p) \<longleftrightarrow> kmalloc n h = Some (h', p) \<and> p \<noteq> 0"
  and kmalloc_opt_None: "kmalloc_opt n h = Some (h', None) \<longleftrightarrow> kmalloc n h = Some (h', 0)"
  by (auto simp: kmalloc_opt_def)

lemma heap_disjoint:
  assumes "heap_ok h" and "b \<in> heap_blocks h" and "c \<in> heap_blocks h" and "b \<noteq> c"
  shows "{fst b..<fst b + snd b} \<inter> {fst c..<fst c + snd c} = {}"
proof -
  obtain base cs where "heap_rep h base cs" using assms(1) by (auto simp: heap_ok_def)
  then have "(fst b, snd b) \<in> used_cells base cs" "(fst c, snd c) \<in> used_cells base cs"
    using assms(2,3) heap_blocks_rep by auto
  from used_cells_disjoint [OF this] assms(4) show ?thesis by (auto simp: prod_eq_iff)
qed

interpretation kheap: object_allocator
  kmalloc_opt "\<lambda>h p. kfree p h" heap_ok heap_live heap_extent heap_arena
proof
  fix h h' :: heap and n p q :: u64
  assume ok: "heap_ok h"
  show "kmalloc_opt n h \<noteq> None" using kmalloc_returns [OF ok] by (simp add: kmalloc_opt_def)
  show "h' = h" if "kmalloc_opt n h = Some (h', None)"
    using that kmalloc_fails [OF ok] by (simp add: kmalloc_opt_None)
  show "heap_ok h' \<and> heap_arena h' = heap_arena h \<and> p \<notin> heap_live h \<and>
      heap_live h' = insert p (heap_live h) \<and> (\<forall>q\<in>heap_live h. heap_extent h' q = heap_extent h q)"
    if "kmalloc_opt n h = Some (h', Some p)"
  proof -
    from that kmalloc_new [OF ok] obtain a k where a: "p = of_nat a" "heap_ok h'"
      "heap_blocks h' = insert (a, k) (heap_blocks h)" "(a, k) \<notin> heap_blocks h"
      "heap_arena h' = heap_arena h" unfolding kmalloc_opt_Some by blast
    have "p \<notin> heap_live h"
    proof
      assume "p \<in> heap_live h"
      then obtain b where "b \<in> heap_blocks h" "p = of_nat (fst b)" by (auto simp: heap_live_def)
      with heap_blocks_inj [OF a(2), of "(a, k)" b] a show False by simp
    qed
    moreover have "heap_extent h' q = heap_extent h q" if "q \<in> heap_live h" for q
    proof -
      obtain b where b: "b \<in> heap_blocks h" "q = of_nat (fst b)"
        using \<open>q \<in> heap_live h\<close> by (auto simp: heap_live_def)
      then show ?thesis using heap_extent_block [OF a(2)] heap_extent_block [OF ok] a(3) by simp
    qed
    ultimately show ?thesis using a by (simp add: heap_live_def)
  qed
  assume "p \<in> heap_live h"
  then obtain b where b: "b \<in> heap_blocks h" "p = of_nat (fst b)" by (auto simp: heap_live_def)
  note f = kfree_live [OF ok b(1)]
  have live: "heap_live (kfree p h) = heap_live h - {p}"
    unfolding heap_live_def b(2) f(2) using heap_blocks_inj [OF ok _ b(1)] b(1) by auto
  have "heap_extent (kfree p h) q = heap_extent h q" if "q \<in> heap_live h - {p}" for q
  proof -
    obtain c where "c \<in> heap_blocks h - {b}" "q = of_nat (fst c)"
      using \<open>q \<in> heap_live h - {p}\<close> b(2) by (auto simp: heap_live_def)
    then show ?thesis using heap_extent_block [OF f(1)] heap_extent_block [OF ok] f(2) b(2) by simp
  qed
  then show "heap_ok (kfree p h) \<and> heap_arena (kfree p h) = heap_arena h \<and>
      heap_live (kfree p h) = heap_live h - {p} \<and>
      (\<forall>q\<in>heap_live h - {p}. heap_extent (kfree p h) q = heap_extent h q)"
    using live f(1,3) b(2) by simp
  show "heap_extent h p \<inter> heap_extent h q = {}" if "q \<in> heap_live h" "p \<noteq> q"
  proof -
    obtain c where c: "c \<in> heap_blocks h" "q = of_nat (fst c)"
      using \<open>q \<in> heap_live h\<close> by (auto simp: heap_live_def)
    with b \<open>p \<noteq> q\<close> have "b \<noteq> c" by auto
    with heap_disjoint [OF ok b(1) c(1)] show ?thesis
      using heap_extent_block [OF ok b(1)] heap_extent_block [OF ok c(1)] b(2) c(2) by simp
  qed
qed

text \<open>The two calls as a client with live objects sees them.\<close>

lemma kmalloc_cases:
  assumes "heap_ok h" and "kmalloc n h = Some (h', p)"
  obtains "p = 0" "h' = h"
  | "p \<noteq> 0" "heap_ok h'" "p \<notin> heap_live h" "heap_live h' = insert p (heap_live h)"
proof (cases "p = 0")
  case True
  then show ?thesis using kmalloc_fails [OF assms(1)] assms(2) that(1) by simp
next
  case False
  then have "kmalloc_opt n h = Some (h', Some p)" using assms(2) by (simp add: kmalloc_opt_Some)
  from kheap.alloc_new [OF assms(1) this] False that(2) show ?thesis by simp
qed

lemma kmalloc_step:
  assumes "heap_ok h"
  shows "\<exists>h' p. kmalloc n h = Some (h', p) \<and> heap_ok h' \<and>
    (p = 0 \<and> h' = h \<or> p \<noteq> 0 \<and> p \<notin> heap_live h \<and> heap_live h' = insert p (heap_live h))"
proof -
  obtain h' p where k: "kmalloc n h = Some (h', p)" using kmalloc_returns [OF assms] by fastforce
  from assms k show ?thesis by (rule kmalloc_cases) (use assms k in auto)
qed

lemma kfree_ok:
  assumes "heap_ok h" and "p \<in> heap_live h"
  shows "heap_ok (kfree p h)" "heap_live (kfree p h) = heap_live h - {p}"
  using kheap.release_live [OF assms] by simp_all

lemma heap_live_nonzero: "heap_ok h \<Longrightarrow> 0 \<notin> heap_live h"
proof
  assume ok: "heap_ok h" and "0 \<in> heap_live h"
  then obtain b where b: "b \<in> heap_blocks h" "(of_nat (fst b) :: u64) = 0" by (auto simp: heap_live_def)
  with heap_blocks_small [OF ok b(1)] show False by (simp add: word_of_nat_eq_0_iff nat_dvd_not_less)
qed

lemma heap_init_rep:
  assumes "unat start mod 8 = 0" "start \<noteq> 0" "unat sz mod 8 = 0" "48 \<le> unat sz"
    and "unat start + unat sz + 64 \<le> 2 ^ 64"
  shows "heap_rep (heap_init_list start sz h) (unat start) [(unat sz - 40, True)]"
proof -
  have "unat (sz - HEAP_BLOCK_SIZE) = unat sz - 40"
    using assms(4) by (simp add: HEAP_BLOCK_SIZE_def unat_diff_le word_le_nat_alt)
  then have "sz - HEAP_BLOCK_SIZE = of_nat (unat sz - 40)"
    by (metis of_nat_unat ucast_id)
  moreover have "(unat sz - 40) mod 8 = 0" using assms(3,4) by presburger
  moreover have "0 < unat start" using assms(2) by (simp add: unat_gt_0)
  ultimately show ?thesis
    using assms by (auto simp: heap_rep_def heap_init_list_def no_adjacent_def)
qed

lemma unused_single:
  assumes "used_cells p cs = {}" and "no_adjacent cs" and "cs \<noteq> []"
  shows "cs = [(cell_total cs - 40, True)]"
proof -
  have free: "snd c" if "c \<in> set cs" for c
    using assms(1) that by (induction p cs rule: used_cells.induct) (auto split: if_splits)
  obtain c ds where cs: "cs = c # ds" using assms(3) by (cases cs) auto
  have "ds = []" using assms(2) free cs by (cases ds) (auto simp: no_adjacent_def)
  with cs free show ?thesis by (cases c) auto
qed

section \<open>Properties\<close>

text \<open>
  C2. Heap objects do not overlap. In any sequence of \<open>kmalloc\<close> and \<open>kfree\<close> calls on a
  well-formed heap in which only live pointers are freed, a non-null result of \<open>kmalloc\<close> is a
  new pointer, a multiple of eight, with at least the requested number of bytes; its bytes are
  disjoint from those of every live object, and no live object moves or changes its size.
\<close>

theorem kmalloc_objects_disjoint:
  assumes "heap_ok h0"
    and "(alloc_step kmalloc_opt (\<lambda>h p. kfree p h) (\<lambda>_ _. True))\<^sup>*\<^sup>* (h0, heap_live h0) (h, H)"
    and "kmalloc sz h = Some (h', p)" and "p \<noteq> 0" and "unat sz \<le> 2 ^ 64 - 8"
  shows "p \<notin> H \<and> unat p mod 8 = 0 \<and> {unat p..<unat p + unat sz} \<subseteq> heap_extent h' p \<and>
    (\<forall>q\<in>H. heap_extent h' q = heap_extent h q \<and> heap_extent h' p \<inter> heap_extent h' q = {})"
proof -
  have ok: "heap_ok h" and H: "heap_live h = H" using kheap.object_run [OF assms(2,1)] by auto
  have "kmalloc_opt sz h = Some (h', Some p)" using assms(3,4) by (simp add: kmalloc_opt_Some)
  note new = kheap.alloc_new [OF ok this]
  obtain a n where a: "p = of_nat a" "a mod 8 = 0" "aligned sz \<le> n" "(a, n) \<in> heap_blocks h'" "heap_ok h'"
    using kmalloc_new [OF ok assms(3,4)] by auto
  have u: "unat p = a" unfolding a(1)
    by (rule unat_of_nat_small) (use heap_blocks_small(1) [OF a(5,4)] in simp)
  have "{unat p..<unat p + unat sz} \<subseteq> heap_extent h' p"
    unfolding u using heap_extent_block [OF a(5,4)] aligned_no_wrap(1) [OF assms(5)] a(1,3) by auto
  moreover have "heap_extent h' p \<inter> heap_extent h' q = {}" if "q \<in> H" for q
    by (rule kheap.disjoint [OF a(5)]) (use that new H in auto)
  ultimately show ?thesis using new H u a(2) by simp
qed

text \<open>
  C4. No memory is lost. When everything allocated from a fresh heap has been freed, in whatever
  order, the heap is again the single free block that \<open>heap_init\<close> made: freeing merges with both
  neighbours, so that no fragmentation survives.
\<close>

theorem heap_fully_reclaimed:
  assumes "unat start mod 8 = 0" "start \<noteq> 0" "unat sz mod 8 = 0" "48 \<le> unat sz"
    and "unat start + unat sz + 64 \<le> 2 ^ 64"
    and "(alloc_step kmalloc_opt (\<lambda>h p. kfree p h) (\<lambda>_ _. True))\<^sup>*\<^sup>* (heap_init_list start sz h0, {}) (h, {})"
  shows "heap_rep h (unat start) [(unat sz - 40, True)]"
proof -
  note init = heap_init_rep [OF assms(1-5), of h0]
  let ?h = "heap_init_list start sz h0"
  have ok: "heap_ok ?h" using init by (auto simp: heap_ok_def)
  have "heap_live ?h = {}" using heap_blocks_rep [OF init] by (simp add: heap_live_def)
  with kheap.object_run [OF _ ok, of h "{}"] assms(6)
  have h: "heap_ok h" "heap_live h = {}" "heap_arena h = heap_arena ?h" by auto
  obtain base cs where rep: "heap_rep h base cs" using h(1) by (auto simp: heap_ok_def)
  have "base = unat start" "cell_total cs = unat sz"
    using h(3) heap_arena_rep [OF rep] heap_arena_rep [OF init] assms(4) by auto
  moreover have "used_cells base cs = {}" using h(2) heap_blocks_rep [OF rep] by (auto simp: heap_live_def)
  ultimately show ?thesis using unused_single [of base cs] rep by (auto simp: heap_rep_def)
qed

text \<open>
  C8. \<open>kmalloc\<close> refines first-fit allocation with splitting on the list of cells: it always
  returns; it fails, leaving the heap as it is, exactly when no free cell holds the rounded-up
  request, and otherwise takes the first one and leaves its remainder as a free cell if more than
  16 bytes would remain behind a new header.
\<close>

theorem kmalloc_refines_first_fit:
  assumes "heap_rep h base cs" and "sz \<noteq> 0"
  shows "case cell_malloc (aligned sz) cs of
      None \<Rightarrow> kmalloc sz h = Some (h, 0)
    | Some (i, cs') \<Rightarrow> \<exists>h'. kmalloc sz h = Some (h', of_nat (base + i + 40)) \<and> heap_rep h' base cs'"
  by (rule kmalloc_rep [OF assms])

text \<open>
  C9. \<open>kfree\<close> of a live pointer refines freeing a cell: the cell becomes free, absorbs a free
  right neighbour and is absorbed by a free left neighbour; the doubly linked list stays
  consistent.
\<close>

theorem kfree_refines_merge:
  assumes "heap_rep h base (xs @ (sz, False) # ys)"
  shows "heap_rep (kfree (of_nat (base + cell_total xs + 40)) h) base (cell_free xs sz ys)"
  by (rule kfree_rep [OF assms])

text \<open>
  A request within 7 bytes of the largest \<open>size_t\<close> wraps to zero when it is rounded up: if any
  block is free, \<open>kmalloc\<close> succeeds on it, with an object smaller than the request.
\<close>

theorem kmalloc_size_overflow:
  assumes "heap_rep h base cs" and "2 ^ 64 - 8 < unat sz" and "\<exists>c\<in>set cs. snd c"
  shows "\<exists>h' p. kmalloc sz h = Some (h', p) \<and> p \<noteq> 0"
proof -
  have "sz \<noteq> 0" using assms(2) by auto
  moreover have "\<exists>r. cell_malloc 0 cs = Some r"
    using assms(3) by (induction cs) fastforce+
  then obtain i cs' where r: "cell_malloc (aligned sz) cs = Some (i, cs')"
    using aligned_wrap [OF assms(2)] by auto
  ultimately obtain h' where h': "kmalloc sz h = Some (h', of_nat (base + i + 40))"
    using kmalloc_rep [OF assms(1)] by fastforce
  have "base + i + 40 < 2 ^ 64" using cell_malloc_total [OF r] assms(1) by (simp add: heap_rep_def)
  then have "(of_nat (base + i + 40) :: u64) \<noteq> 0" using of_nat_u64_eq_iff [of "base + i + 40" 0] by simp
  with h' show ?thesis by blast
qed

section \<open>Witnesses\<close>

definition demo_heap :: heap where
  "demo_heap = heap_init_list 0x1000 0x200
     \<lparr>free_list = 0, hblocks = (\<lambda>_. \<lparr>hb_size = 0, hb_next = 0, hb_prev = 0, hb_free = 0, hb_magic = 0\<rparr>)\<rparr>"

lemma demo_heap_rep: "heap_rep demo_heap 0x1000 [(0x1D8, True)]"
  using heap_init_rep [of "0x1000" "0x200"] by (simp add: demo_heap_def)

lemma demo_kmalloc:
  "kmalloc 20 demo_heap = Some (fst (the (kmalloc 20 demo_heap)), 0x1028)"
  "kmalloc 30 (fst (the (kmalloc 20 demo_heap))) =
     Some (fst (the (kmalloc 30 (fst (the (kmalloc 20 demo_heap))))), 0x1068)"
  by (rule result_eqI; code_simp)+

lemma demo_heap_ok: "heap_ok demo_heap" "heap_live demo_heap = {}"
  using demo_heap_rep heap_blocks_rep [OF demo_heap_rep] by (auto simp: heap_ok_def heap_live_def)

theorem kmalloc_objects_disjoint_witness:
  "(let h1 = fst (the (kmalloc 20 demo_heap)); h2 = fst (the (kmalloc 30 h1)) in
    kmalloc 30 h1 = Some (h2, 0x1068) \<and> {0x1068..<0x1068 + 30} \<subseteq> heap_extent h2 0x1068 \<and>
    heap_extent h2 0x1068 \<inter> heap_extent h2 0x1028 = {})"
proof -
  let ?h1 = "fst (the (kmalloc 20 demo_heap))"
  have ok: "heap_ok demo_heap" using demo_heap_rep by (auto simp: heap_ok_def)
  have live: "heap_live demo_heap = {}" using heap_blocks_rep [OF demo_heap_rep] by (simp add: heap_live_def)
  have "kmalloc_opt 20 demo_heap = Some (?h1, Some 0x1028)"
    using demo_kmalloc(1) by (simp add: kmalloc_opt_Some)
  then have "alloc_step kmalloc_opt (\<lambda>h p. kfree p h) (\<lambda>_ _. True) (demo_heap, {}) (?h1, insert 0x1028 {})"
    by (intro alloc_step.take [where r = 20]) simp_all
  then have "(alloc_step kmalloc_opt (\<lambda>h p. kfree p h) (\<lambda>_ _. True))\<^sup>*\<^sup>*
      (demo_heap, heap_live demo_heap) (?h1, {0x1028})"
    unfolding live by (rule r_into_rtranclp)
  moreover have "(0x1068 :: u64) \<noteq> 0" "unat (30 :: u64) \<le> 2 ^ 64 - 8" by simp_all
  ultimately
  have t: "{unat (0x1068 :: u64)..<unat (0x1068 :: u64) + unat (30 :: u64)} \<subseteq>
      heap_extent (fst (the (kmalloc 30 ?h1))) 0x1068"
    "\<forall>q\<in>{0x1028}. heap_extent (fst (the (kmalloc 30 ?h1))) 0x1068 \<inter> heap_extent (fst (the (kmalloc 30 ?h1))) q = {}"
    using kmalloc_objects_disjoint [OF ok _ demo_kmalloc(2)] by blast+
  from t(1) have "{0x1068..<0x1068 + 30} \<subseteq> heap_extent (fst (the (kmalloc 30 ?h1))) 0x1068" by simp
  with t(2) demo_kmalloc(2) show ?thesis unfolding Let_def by blast
qed

theorem heap_fully_reclaimed_witness:
  "heap_rep (kfree 0x1028 (fst (the (kmalloc 20 demo_heap)))) 0x1000 [(0x1D8, True)]"
proof -
  let ?h1 = "fst (the (kmalloc 20 demo_heap))"
  let ?step = "alloc_step kmalloc_opt (\<lambda>h p. kfree p h) (\<lambda>_ _. True)"
  have "kmalloc_opt 20 demo_heap = Some (?h1, Some 0x1028)"
    using demo_kmalloc(1) by (simp add: kmalloc_opt_Some)
  then have "?step (demo_heap, {}) (?h1, insert 0x1028 {})"
    by (intro alloc_step.take [where r = 20]) simp_all
  moreover have "?step (?h1, {0x1028}) (kfree 0x1028 ?h1, {0x1028} - {0x1028})"
    by (rule alloc_step.give) simp
  ultimately have "?step\<^sup>*\<^sup>* (demo_heap, {}) (kfree 0x1028 ?h1, {})" by simp
  from heap_fully_reclaimed [OF _ _ _ _ _ this [unfolded demo_heap_def], folded demo_heap_def]
  show ?thesis by simp
qed

theorem kmalloc_refines_first_fit_witness:
  "\<exists>h'. kmalloc 20 demo_heap = Some (h', 0x1028) \<and> heap_rep h' 0x1000 [(24, False), (0x198, True)]"
proof -
  have "aligned 20 = 24" by (simp add: aligned_eq)
  with kmalloc_refines_first_fit [OF demo_heap_rep, of 20] show ?thesis by simp
qed

theorem kfree_refines_merge_witness:
  "\<exists>h. heap_rep h 0x1000 ([] @ (24, False) # [(0x198, True)]) \<and>
       heap_rep (kfree 0x1028 h) 0x1000 [(0x1D8, True)]"
proof -
  have "aligned 20 = 24" by (simp add: aligned_eq)
  with kmalloc_rep [OF demo_heap_rep, of 20]
  obtain h where h: "heap_rep h 0x1000 ([] @ (24, False) # [(0x198, True)])" by auto
  from kfree_refines_merge [OF h] h show ?thesis by (auto simp: cell_free_def)
qed

theorem kmalloc_size_overflow_witness: "\<exists>h' p. kmalloc 0xFFFFFFFFFFFFFFFF demo_heap = Some (h', p) \<and> p \<noteq> 0"
  by (rule kmalloc_size_overflow [OF demo_heap_rep]) simp_all

end
