(* ===== verification/Lists.thy ===== *)
theory Lists
  imports Prelude
begin

text \<open>
  The circular doubly linked lists of \<^verbatim>\<open>kernel/include/list.h\<close>. The two pointers of every list head are
  kept in a store indexed by the head's address. A list with head \<open>h\<close> stands for the sequence of the other heads on
  the circle, in the order of their next pointers; the operations are shown to implement the operations on the sequence.
\<close>

section \<open>The code\<close>

record list_head =
  lh_next :: u64
  lh_prev :: u64

type_synonym links = "u64 \<Rightarrow> list_head"

definition set_next :: "u64 \<Rightarrow> u64 \<Rightarrow> links \<Rightarrow> links" where
  "set_next p v l = l(p := (l p)\<lparr>lh_next := v\<rparr>)"

definition set_prev :: "u64 \<Rightarrow> u64 \<Rightarrow> links \<Rightarrow> links" where
  "set_prev p v l = l(p := (l p)\<lparr>lh_prev := v\<rparr>)"

definition INIT_LIST_HEAD :: "u64 \<Rightarrow> links \<Rightarrow> links" where
  "INIT_LIST_HEAD h l = set_prev h h (set_next h h l)"

definition list_add_between :: "u64 \<Rightarrow> u64 \<Rightarrow> u64 \<Rightarrow> links \<Rightarrow> links" where
  "list_add_between new prv nxt l = set_next prv new (set_prev new prv (set_next new nxt (set_prev nxt new l)))"

definition list_add :: "u64 \<Rightarrow> u64 \<Rightarrow> links \<Rightarrow> links" where
  "list_add new head l = list_add_between new head (lh_next (l head)) l"

definition list_add_tail :: "u64 \<Rightarrow> u64 \<Rightarrow> links \<Rightarrow> links" where
  "list_add_tail new head l = list_add_between new (lh_prev (l head)) head l"

definition list_del_between :: "u64 \<Rightarrow> u64 \<Rightarrow> links \<Rightarrow> links" where
  "list_del_between prv nxt l = set_next prv nxt (set_prev nxt prv l)"

definition list_del :: "u64 \<Rightarrow> links \<Rightarrow> links" where
  "list_del entry l =
     set_prev entry 0 (set_next entry 0 (list_del_between (lh_prev (l entry)) (lh_next (l entry)) l))"

definition list_empty :: "u64 \<Rightarrow> links \<Rightarrow> bool" where
  "list_empty head l \<longleftrightarrow> lh_next (l head) = head"

text \<open>
  The loop of \<^verbatim>\<open>list_for_each\<close>, up to an entry at which the body breaks: the result is that entry, or the
  head when the loop ran to the end.
\<close>

partial_function (option) list_find :: "(u64 \<Rightarrow> bool) \<Rightarrow> links \<Rightarrow> u64 \<Rightarrow> u64 \<Rightarrow> u64 option" where
  "list_find stop l head pos =
     (if pos = head \<or> stop pos then Some pos else list_find stop l head (lh_next (l pos)))"

declare list_find.simps [code]

partial_function (option) list_collect :: "links \<Rightarrow> u64 \<Rightarrow> u64 \<Rightarrow> u64 list option" where
  "list_collect l head pos =
     (if pos = head then Some []
      else Option.bind (list_collect l head (lh_next (l pos))) (\<lambda>xs. Some (pos # xs)))"

declare list_collect.simps [code]

section \<open>Rings\<close>

text \<open>\<open>link l a b\<close>: the pointers between the neighbours \<open>a\<close> and \<open>b\<close> are right in both directions.\<close>

definition link :: "links \<Rightarrow> u64 \<Rightarrow> u64 \<Rightarrow> bool" where
  "link l a b \<longleftrightarrow> lh_next (l a) = b \<and> lh_prev (l b) = a"

fun path :: "links \<Rightarrow> u64 \<Rightarrow> u64 list \<Rightarrow> u64 \<Rightarrow> bool" where
  "path l a [] b \<longleftrightarrow> link l a b"
| "path l a (x # xs) b \<longleftrightarrow> link l a x \<and> path l x xs b"

definition ring :: "links \<Rightarrow> u64 \<Rightarrow> u64 list \<Rightarrow> bool" where
  "ring l h xs \<longleftrightarrow> h \<noteq> 0 \<and> distinct (h # xs) \<and> 0 \<notin> set xs \<and> path l h xs h"

lemma path_append: "path l a (xs @ x # ys) b \<longleftrightarrow> path l a xs x \<and> path l x ys b"
  by (induction xs arbitrary: a) auto

lemma path_first: "path l a xs b \<Longrightarrow> lh_next (l a) = (case xs of [] \<Rightarrow> b | x # _ \<Rightarrow> x)"
  by (cases xs) (auto simp: link_def)

lemma path_last: "path l a xs b \<Longrightarrow> lh_prev (l b) = (if xs = [] then a else last xs)"
  by (induction xs arbitrary: a) (auto simp: link_def)

lemma path_cong:
  "(\<And>x. x \<in> set (a # xs) \<Longrightarrow> lh_next (l' x) = lh_next (l x)) \<Longrightarrow>
   (\<And>x. x \<in> set (b # xs) \<Longrightarrow> lh_prev (l' x) = lh_prev (l x)) \<Longrightarrow> path l' a xs b \<longleftrightarrow> path l a xs b"
proof (induction xs arbitrary: a)
  case (Cons x xs)
  have "path l' x xs b \<longleftrightarrow> path l x xs b" by (rule Cons.IH) (use Cons.prems in auto)
  with Cons.prems(1) [of a] Cons.prems(2) [of x] show ?case by (simp add: link_def)
qed (simp add: link_def)

lemma links_upd [simp]:
  "lh_next (set_next p v l q) = (if q = p then v else lh_next (l q))" "lh_prev (set_next p v l q) = lh_prev (l q)"
  "lh_prev (set_prev p v l q) = (if q = p then v else lh_prev (l q))" "lh_next (set_prev p v l q) = lh_next (l q)"
  by (simp_all add: set_next_def set_prev_def)

lemma list_add_between_next [simp]:
  "lh_next (list_add_between new prv nxt l q) = (if q = prv then new else if q = new then nxt else lh_next (l q))"
  "new \<noteq> nxt \<Longrightarrow> lh_prev (list_add_between new prv nxt l q) = (if q = new then prv else if q = nxt then new else lh_prev (l q))"
  by (simp_all add: list_add_between_def)

lemma ring_next: "ring l h xs \<Longrightarrow> lh_next (l h) = (case xs of [] \<Rightarrow> h | x # _ \<Rightarrow> x)"
  using path_first by (auto simp: ring_def)

lemma ring_prev: "ring l h xs \<Longrightarrow> lh_prev (l h) = (if xs = [] then h else last xs)"
  using path_last by (auto simp: ring_def)

lemma ring_init: "h \<noteq> 0 \<Longrightarrow> ring (INIT_LIST_HEAD h l) h []"
  by (simp add: ring_def INIT_LIST_HEAD_def link_def)

lemma ring_empty: "ring l h xs \<Longrightarrow> list_empty h l \<longleftrightarrow> xs = []"
  using ring_next [of l h xs] by (cases xs) (auto simp: list_empty_def ring_def)

text \<open>Other rings are not affected by an operation that writes only to the nodes of one.\<close>

lemma ring_cong: "(\<And>x. x \<in> set (h # xs) \<Longrightarrow> l' x = l x) \<Longrightarrow> ring l' h xs \<longleftrightarrow> ring l h xs"
  unfolding ring_def using path_cong [of h xs l' l h] by auto

section \<open>Insertion and removal\<close>

text \<open>A new node between the two parts of a ring; the head belongs to both ends.\<close>

lemma ring_insert:
  assumes r: "ring l h (xs @ ys)" and new: "new \<noteq> 0" "new \<notin> set (h # xs @ ys)"
  shows "ring (list_add_between new (if xs = [] then h else last xs) (if ys = [] then h else hd ys) l) h (xs @ new # ys)"
    (is "ring ?l h _")
proof -
  let ?p = "if xs = [] then h else last xs" and ?n = "if ys = [] then h else hd ys"
  have d: "distinct (h # xs @ ys)" using r by (simp add: ring_def)
  have p: "path l h (xs @ ys) h" using r by (simp add: ring_def)
  have pn: "?p \<in> set (h # xs)" "?n \<in> set (h # ys)" by auto
  then have nn: "new \<noteq> ?n" "new \<noteq> ?p" using new by auto
  have nx: "lh_next (?l q) = (if q = ?p then new else if q = new then ?n else lh_next (l q))"
    and pv: "lh_prev (?l q) = (if q = new then ?p else if q = ?n then new else lh_prev (l q))" for q
    using nn(1) by simp_all
  have left: "path ?l h xs new"
  proof (cases xs rule: rev_cases)
    case Nil
    then show ?thesis using nx pv by (simp add: link_def)
  next
    case (snoc zs z)
    have c: "path l h zs z" using p snoc by (simp add: path_append)
    have "lh_next (?l x) = lh_next (l x)" if "x \<in> set (h # zs)" for x
      using that snoc d new nx by auto
    moreover have "lh_prev (?l x) = lh_prev (l x)" if "x \<in> set (z # zs)" for x
    proof -
      have "x \<noteq> ?n" using that snoc d pn(2) by auto
      moreover have "x \<noteq> new" using that snoc new by auto
      ultimately show ?thesis by (simp only: pv if_False)
    qed
    ultimately have "path ?l h zs z" using c by (subst path_cong [where l = l]) auto
    then show ?thesis using snoc nx pv by (simp add: path_append link_def)
  qed
  moreover have "path ?l new ys h"
  proof (cases ys)
    case Nil
    then show ?thesis using nx pv nn by (simp add: link_def)
  next
    case (Cons y zs)
    have c: "path l y zs h" using p Cons by (simp add: path_append)
    have "lh_next (?l x) = lh_next (l x)" if "x \<in> set (y # zs)" for x
    proof -
      have "x \<noteq> ?p" using that Cons d pn(1) by auto
      moreover have "x \<noteq> new" using that Cons new by auto
      ultimately show ?thesis by (simp only: nx if_False)
    qed
    moreover have "lh_prev (?l x) = lh_prev (l x)" if "x \<in> set (h # zs)" for x
      using that Cons d new pv by auto
    ultimately have "path ?l y zs h" using c by (subst path_cong [where l = l]) auto
    then show ?thesis using Cons nx pv nn by (simp add: link_def)
  qed
  ultimately show ?thesis using r new by (auto simp: ring_def path_append)
qed

lemma ring_add: "ring l h xs \<Longrightarrow> new \<noteq> 0 \<Longrightarrow> new \<notin> set (h # xs) \<Longrightarrow> ring (list_add new h l) h (new # xs)"
  using ring_insert [of l h "[]" xs new] ring_next [of l h xs] by (cases xs) (simp_all add: list_add_def)

lemma ring_add_tail: "ring l h xs \<Longrightarrow> new \<noteq> 0 \<Longrightarrow> new \<notin> set (h # xs) \<Longrightarrow> ring (list_add_tail new h l) h (xs @ [new])"
  using ring_insert [of l h xs "[]" new] ring_prev [of l h xs] by (simp add: list_add_tail_def)

text \<open>Adding to the tail of an entry puts the new one before it.\<close>

lemma ring_add_before:
  assumes "ring l h (xs @ y # ys)" and "new \<noteq> 0" and "new \<notin> set (h # xs @ y # ys)"
  shows "ring (list_add_tail new y l) h (xs @ new # y # ys)"
proof -
  have "lh_prev (l y) = (if xs = [] then h else last xs)"
    using assms(1) path_last [of l h xs y] by (simp add: ring_def path_append)
  with ring_insert [OF assms] show ?thesis by (simp add: list_add_tail_def)
qed

lemma list_del_simps:
  assumes "lh_prev (l e) = p" "lh_next (l e) = n" "p \<noteq> e" "n \<noteq> e"
  shows "lh_next (list_del e l q) = (if q = e then 0 else if q = p then n else lh_next (l q))"
    and "lh_prev (list_del e l q) = (if q = e then 0 else if q = n then p else lh_prev (l q))"
  using assms by (auto simp: list_del_def list_del_between_def)

lemma ring_del:
  assumes r: "ring l h (xs @ e # ys)"
  shows "ring (list_del e l) h (xs @ ys)" and "lh_next (list_del e l e) = 0" and "lh_prev (list_del e l e) = 0"
proof -
  let ?p = "if xs = [] then h else last xs" and ?n = "if ys = [] then h else hd ys"
  have d: "distinct (h # xs @ e # ys)" and p: "path l h xs e" "path l e ys h"
    using r by (auto simp: ring_def path_append)
  have pe: "lh_prev (l e) = ?p" using path_last [OF p(1)] .
  have ne: "lh_next (l e) = ?n" using path_first [OF p(2)] by (cases ys) auto
  have pn: "?p \<in> set (h # xs)" "?n \<in> set (h # ys)" by auto
  then have "?p \<noteq> e" "?n \<noteq> e" using d by auto
  note del = list_del_simps [of l e, OF pe ne this]
  show "lh_next (list_del e l e) = 0" "lh_prev (list_del e l e) = 0" using del by simp_all
  have "path (list_del e l) h (xs @ ys) h"
  proof (cases ys)
    case Nil
    show ?thesis
    proof (cases xs rule: rev_cases)
      case Nil
      then show ?thesis using \<open>ys = []\<close> del d by (simp add: link_def)
    next
      case (snoc zs z)
      have "path l h zs z" using p(1) snoc by (simp add: path_append)
      then have "path (list_del e l) h zs z" using d snoc del \<open>ys = []\<close> by (subst path_cong [where l = l]) auto
      then show ?thesis using snoc \<open>ys = []\<close> d del by (simp add: path_append link_def)
    qed
  next
    case (Cons y zs)
    have "path l y zs h" using p(2) Cons by simp
    moreover have "lh_next (list_del e l x) = lh_next (l x)" if "x \<in> set (y # zs)" for x
    proof -
      have "x \<noteq> e" "x \<noteq> ?p" using that Cons d pn(1) by auto
      then show ?thesis by (simp only: del if_False)
    qed
    moreover have "lh_prev (list_del e l x) = lh_prev (l x)" if "x \<in> set (h # zs)" for x
      using that Cons d del by auto
    ultimately have right: "path (list_del e l) y zs h" by (subst path_cong [where l = l]) auto
    show ?thesis
    proof (cases xs rule: rev_cases)
      case Nil
      then show ?thesis using Cons right d del by (auto simp: link_def)
    next
      case (snoc ws w)
      have "path l h ws w" using p(1) snoc by (simp add: path_append)
      then have "path (list_del e l) h ws w" using d snoc del Cons by (subst path_cong [where l = l]) auto
      moreover have "link (list_del e l) w y" using snoc Cons d del by (auto simp: link_def)
      ultimately show ?thesis using snoc Cons right by (simp add: path_append)
    qed
  qed
  with r show "ring (list_del e l) h (xs @ ys)" by (auto simp: ring_def)
qed

section \<open>Walking a ring\<close>

lemma list_find_path:
  assumes "path l a xs h" and "distinct xs" and "h \<notin> set xs"
  shows "list_find stop l h (case xs of [] \<Rightarrow> h | x # _ \<Rightarrow> x) =
    Some (case dropWhile (\<lambda>x. \<not> stop x) xs of [] \<Rightarrow> h | x # _ \<Rightarrow> x)"
  using assms
proof (induction xs arbitrary: a)
  case Nil
  then show ?case by (simp add: list_find.simps)
next
  case (Cons x xs)
  have "list_find stop l h x = (if stop x then Some x else list_find stop l h (lh_next (l x)))"
    using Cons.prems(3) by (subst list_find.simps) auto
  moreover have "lh_next (l x) = (case xs of [] \<Rightarrow> h | x # _ \<Rightarrow> x)" using path_first Cons.prems(1) by auto
  ultimately show ?case using Cons by auto
qed

lemma list_find_ring:
  assumes "ring l h xs"
  shows "list_find stop l h (lh_next (l h)) = Some (case dropWhile (\<lambda>x. \<not> stop x) xs of [] \<Rightarrow> h | x # _ \<Rightarrow> x)"
  using list_find_path [of l h xs h stop] ring_next [OF assms] assms by (auto simp: ring_def)

lemma list_collect_path:
  assumes "path l a xs h" and "h \<notin> set xs"
  shows "list_collect l h (case xs of [] \<Rightarrow> h | x # _ \<Rightarrow> x) = Some xs"
  using assms
proof (induction xs arbitrary: a)
  case Nil
  then show ?case by (simp add: list_collect.simps)
next
  case (Cons x xs)
  have "list_collect l h x = Option.bind (list_collect l h (lh_next (l x))) (\<lambda>ys. Some (x # ys))"
    using Cons.prems by (subst list_collect.simps) auto
  moreover have "lh_next (l x) = (case xs of [] \<Rightarrow> h | x # _ \<Rightarrow> x)" using path_first Cons.prems(1) by auto
  ultimately show ?case using Cons by auto
qed

lemma list_collect_ring: "ring l h xs \<Longrightarrow> list_collect l h (lh_next (l h)) = Some xs"
  using list_collect_path [of l h xs h] ring_next [of l h xs] by (auto simp: ring_def)

end
