(* ===== verification/Hrtimer.thy ===== *)
theory Hrtimer
  imports Lists
begin

text \<open>
  High resolution timers, \<^verbatim>\<open>kernel/time/hrtimer.c\<close>. The node of a timer is its first member, so a timer and
  its list head have one address. The cycle counter is read by \<^verbatim>\<open>rdtsc\<close>: its value is an argument. The function of
  a timer is a pointer to code that may do anything, also to the timers: what it does is a parameter, over the timers and
  whatever else the kernel has. The lock of the list is left out, since interrupts are off while it is held.
\<close>

section \<open>The code\<close>

record hrtimer =
  ht_expires :: u64
  ht_function :: u64
  ht_data :: u64

record hrtimers =
  hrtimer_list :: u64
  ht_links :: links
  ht_timers :: "u64 \<Rightarrow> hrtimer"
  tsc_frequency :: u64
  initial_tsc :: u64

definition upd_links :: "(links \<Rightarrow> links) \<Rightarrow> hrtimers \<Rightarrow> hrtimers" where
  "upd_links f s = s\<lparr>ht_links := f (ht_links s)\<rparr>"

definition upd_timer :: "u64 \<Rightarrow> (hrtimer \<Rightarrow> hrtimer) \<Rightarrow> hrtimers \<Rightarrow> hrtimers" where
  "upd_timer t f s = s\<lparr>ht_timers := (ht_timers s)(t := f (ht_timers s t))\<rparr>"

definition hrtimer_init_system :: "u64 \<Rightarrow> u64 \<Rightarrow> hrtimers \<Rightarrow> hrtimers" where
  "hrtimer_init_system freq tsc s =
     (upd_links (INIT_LIST_HEAD (hrtimer_list s)) s)\<lparr>tsc_frequency := freq, initial_tsc := tsc\<rparr>"

definition ktime_get_ns :: "u64 \<Rightarrow> hrtimers \<Rightarrow> u64" where
  "ktime_get_ns tsc s = (tsc - initial_tsc s) * 1000 div (tsc_frequency s div 1000000)"

definition hrtimer_init :: "u64 \<Rightarrow> hrtimers \<Rightarrow> hrtimers" where
  "hrtimer_init timer s = upd_timer timer (\<lambda>t. t\<lparr>ht_function := 0\<rparr>) (upd_links (INIT_LIST_HEAD timer) s)"

definition hrtimer_start :: "u64 \<Rightarrow> u64 \<Rightarrow> hrtimers \<Rightarrow> hrtimers option" where
  "hrtimer_start timer expires s =
     (let nx = lh_next (ht_links s timer);
          s1 = (if nx \<noteq> 0 \<and> nx \<noteq> timer then
                  (if lh_prev (ht_links s timer) \<noteq> 0 then upd_links (list_del timer) s else s)
                else s);
          s2 = upd_timer timer (\<lambda>t. t\<lparr>ht_expires := expires\<rparr>) s1
      in case list_find (\<lambda>e. ht_expires (ht_timers s2 e) > expires) (ht_links s2) (hrtimer_list s2)
             (lh_next (ht_links s2 (hrtimer_list s2))) of
           None \<Rightarrow> None
         | Some cur \<Rightarrow> Some (upd_links (list_add_tail timer cur) s2))"

definition hrtimer_cancel :: "u64 \<Rightarrow> hrtimers \<Rightarrow> hrtimers" where
  "hrtimer_cancel timer s =
     (if lh_next (ht_links s timer) \<noteq> 0 \<and> lh_prev (ht_links s timer) \<noteq> 0 then upd_links (list_del timer) s else s)"

partial_function (option) hrtimer_run_loop ::
  "(u64 \<Rightarrow> u64 \<Rightarrow> hrtimers \<times> 'e \<Rightarrow> hrtimers \<times> 'e) \<Rightarrow> u64 \<Rightarrow> u64 \<Rightarrow> hrtimers \<times> 'e \<Rightarrow> (hrtimers \<times> 'e) option" where
  "hrtimer_run_loop call now cur s =
     (if cur \<noteq> hrtimer_list (fst s) \<and> ht_expires (ht_timers (fst s) cur) \<le> now then
        (let s1 = (upd_links (list_del cur) (fst s), snd s);
             f = ht_function (ht_timers (fst s1) cur);
             s2 = (if f \<noteq> 0 then call f cur s1 else s1)
         in hrtimer_run_loop call now (lh_next (ht_links (fst s2) (hrtimer_list (fst s2)))) s2)
      else Some s)"

declare hrtimer_run_loop.simps [code]

definition hrtimer_run_queues ::
  "(u64 \<Rightarrow> u64 \<Rightarrow> hrtimers \<times> 'e \<Rightarrow> hrtimers \<times> 'e) \<Rightarrow> u64 \<Rightarrow> hrtimers \<times> 'e \<Rightarrow> (hrtimers \<times> 'e) option" where
  "hrtimer_run_queues call tsc s =
     hrtimer_run_loop call (ktime_get_ns tsc (fst s)) (lh_next (ht_links (fst s) (hrtimer_list (fst s)))) s"

section \<open>The queue of timers\<close>

text \<open>
  The pending timers, in the order of their expiry. A timer that is not pending is linked to itself, or its
  pointers are null.
\<close>

definition timers_rep :: "hrtimers \<Rightarrow> u64 list \<Rightarrow> bool" where
  "timers_rep s ts \<longleftrightarrow> ring (ht_links s) (hrtimer_list s) ts \<and>
     sorted_wrt (\<lambda>t u. ht_expires (ht_timers s t) \<le> ht_expires (ht_timers s u)) ts"

definition idle :: "hrtimers \<Rightarrow> u64 \<Rightarrow> bool" where
  "idle s t \<longleftrightarrow> ht_links s t = \<lparr>lh_next = t, lh_prev = t\<rparr> \<or> ht_links s t = \<lparr>lh_next = 0, lh_prev = 0\<rparr>"

lemma hr_upd_simps [simp]:
  "ht_links (upd_links f s) = f (ht_links s)" "ht_timers (upd_links f s) = ht_timers s"
  "hrtimer_list (upd_links f s) = hrtimer_list s"
  "ht_links (upd_timer t g s) = ht_links s" "hrtimer_list (upd_timer t g s) = hrtimer_list s"
  "ht_timers (upd_timer t g s) = (ht_timers s)(t := g (ht_timers s t))"
  "initial_tsc (upd_links f s) = initial_tsc s" "tsc_frequency (upd_links f s) = tsc_frequency s"
  by (simp_all add: upd_links_def upd_timer_def)

text \<open>Where a timer is inserted: behind all that do not expire later.\<close>

definition due_before :: "hrtimers \<Rightarrow> u64 \<Rightarrow> u64 list \<Rightarrow> u64 list" where
  "due_before s e ts = takeWhile (\<lambda>t. ht_expires (ht_timers s t) \<le> e) ts"

definition due_after :: "hrtimers \<Rightarrow> u64 \<Rightarrow> u64 list \<Rightarrow> u64 list" where
  "due_after s e ts = dropWhile (\<lambda>t. ht_expires (ht_timers s t) \<le> e) ts"

lemma due_split: "due_before s e ts @ due_after s e ts = ts"
  by (simp add: due_before_def due_after_def)

lemma due_beforeD: "t \<in> set (due_before s e ts) \<Longrightarrow> ht_expires (ht_timers s t) \<le> e"
  by (auto simp: due_before_def dest: set_takeWhileD)

lemma due_afterD:
  assumes "sorted_wrt (\<lambda>t u. ht_expires (ht_timers s t) \<le> ht_expires (ht_timers s u)) ts" and "t \<in> set (due_after s e ts)"
  shows "ht_expires (ht_timers s t) > e"
proof -
  obtain a as where a: "due_after s e ts = a # as" using assms(2) by (cases "due_after s e ts") auto
  then have "\<not> ht_expires (ht_timers s a) \<le> e" unfolding due_after_def dropWhile_eq_Cons_conv by blast
  moreover have eq: "due_before s e ts @ a # as = ts" using due_split [of s e ts] a by simp
  have "sorted_wrt (\<lambda>t u. ht_expires (ht_timers s t) \<le> ht_expires (ht_timers s u)) (due_before s e ts @ a # as)"
    unfolding eq by (rule assms(1))
  then have "ht_expires (ht_timers s a) \<le> ht_expires (ht_timers s t)" using assms(2) a by (auto simp: sorted_wrt_append)
  ultimately show ?thesis by simp
qed

text \<open>Inserting a timer that is not in the ring.\<close>

lemma start_insert:
  fixes e :: u64
  assumes r: "timers_rep s ts" and t: "t \<noteq> 0" "t \<noteq> hrtimer_list s" "t \<notin> set ts"
  defines "s2 \<equiv> upd_timer t (\<lambda>x. x\<lparr>ht_expires := e\<rparr>) s"
  shows "\<exists>cur. list_find (\<lambda>x. ht_expires (ht_timers s2 x) > e) (ht_links s2) (hrtimer_list s2)
      (lh_next (ht_links s2 (hrtimer_list s2))) = Some cur \<and>
    timers_rep (upd_links (list_add_tail t cur) s2) (due_before s e ts @ t # due_after s e ts)"
proof -
  let ?h = "hrtimer_list s" and ?as = "due_before s e ts" and ?bs = "due_after s e ts"
  have ring: "ring (ht_links s) ?h ts" and srt: "sorted_wrt (\<lambda>t u. ht_expires (ht_timers s t) \<le> ht_expires (ht_timers s u)) ts"
    using r by (simp_all add: timers_rep_def)
  have ex: "ht_expires (ht_timers s2 u) = (if u = t then e else ht_expires (ht_timers s u))" for u
    by (simp add: s2_def)
  have "dropWhile (\<lambda>x. \<not> ht_expires (ht_timers s2 x) > e) ts = ?bs"
    unfolding due_after_def by (rule dropWhile_cong) (use t ex in auto)
  then have f: "list_find (\<lambda>x. ht_expires (ht_timers s2 x) > e) (ht_links s2) (hrtimer_list s2)
      (lh_next (ht_links s2 (hrtimer_list s2))) = Some (case ?bs of [] \<Rightarrow> ?h | b # _ \<Rightarrow> b)"
    using list_find_ring [OF ring, of "\<lambda>x. ht_expires (ht_timers s2 x) > e"] by (simp add: s2_def)
  have new: "t \<notin> set (?h # ?as @ ?bs)" using t due_split [of s e ts] by simp
  have "ring (list_add_tail t (case ?bs of [] \<Rightarrow> ?h | b # _ \<Rightarrow> b) (ht_links s)) ?h (?as @ t # ?bs)"
  proof (cases ?bs)
    case Nil
    then have "?as = ts" using due_split [of s e ts] by simp
    with ring_add_tail [OF ring t(1)] t Nil show ?thesis by simp
  next
    case (Cons b bs)
    have "ring (ht_links s) ?h (?as @ b # bs)" using ring due_split [of s e ts] Cons by simp
    from ring_add_before [OF this t(1)] new Cons show ?thesis by simp
  qed
  moreover have "sorted_wrt (\<lambda>t u. ht_expires (ht_timers s2 t) \<le> ht_expires (ht_timers s2 u)) (?as @ t # ?bs)"
  proof -
    have "sorted_wrt (\<lambda>t u. ht_expires (ht_timers s2 t) \<le> ht_expires (ht_timers s2 u)) (?as @ ?bs)"
      using srt unfolding due_split by (rule sorted_wrt_mono_rel [rotated]) (use t ex in auto)
    moreover have "ht_expires (ht_timers s2 u) \<le> e" if "u \<in> set ?as" for u
      using due_beforeD [OF that] ex by simp
    moreover have "e \<le> ht_expires (ht_timers s2 u)" if "u \<in> set ?bs" for u
      using due_afterD [OF srt that] ex by auto
    ultimately show ?thesis by (auto simp: sorted_wrt_append ex)
  qed
  ultimately show ?thesis using f by (intro exI conjI) (auto simp: timers_rep_def s2_def)
qed

lemma rep_del:
  assumes "timers_rep s (as @ t # bs)"
  shows "timers_rep (upd_links (list_del t) s) (as @ bs)" and "idle (upd_links (list_del t) s) t"
  using assms ring_del [of "ht_links s" "hrtimer_list s" as t bs]
  by (auto simp: timers_rep_def idle_def sorted_wrt_append)

text \<open>Taking a timer out of the list, whether it is pending or not.\<close>

lemma ring_member_links:
  assumes "ring l h xs" and "t \<in> set xs"
  shows "lh_next (l t) \<noteq> 0" "lh_next (l t) \<noteq> t" "lh_prev (l t) \<noteq> 0"
proof -
  obtain as bs where xs: "xs = as @ t # bs" using split_list [OF assms(2)] by blast
  have p: "path l h as t" "path l t bs h" and d: "distinct (h # as @ t # bs)" "h \<noteq> 0" "0 \<notin> set xs"
    using assms(1) xs by (auto simp: ring_def path_append)
  show "lh_next (l t) \<noteq> 0" "lh_next (l t) \<noteq> t" using path_first [OF p(2)] d xs by (auto split: list.splits)
  show "lh_prev (l t) \<noteq> 0" using path_last [OF p(1)] d xs by (cases as rule: rev_cases) auto
qed

lemma del_self:
  assumes "l t = \<lparr>lh_next = t, lh_prev = t\<rparr>"
  shows "u \<noteq> t \<Longrightarrow> list_del t l u = l u" and "list_del t l t = \<lparr>lh_next = 0, lh_prev = 0\<rparr>"
  using assms by (simp_all add: list_del_def list_del_between_def set_next_def set_prev_def)

lemma remove1_split: "distinct (as @ t # bs) \<Longrightarrow> remove1 t (as @ t # bs) = as @ bs"
  by (simp add: remove1_append)

lemma unlink_rep:
  assumes r: "timers_rep s ts" and t: "t \<noteq> hrtimer_list s" "t \<in> set ts \<or> idle s t"
  shows "timers_rep (hrtimer_cancel t s) (remove1 t ts) \<and> idle (hrtimer_cancel t s) t \<and> t \<notin> set (remove1 t ts)"
proof (cases "t \<in> set ts")
  case True
  then obtain as bs where ts: "ts = as @ t # bs" by (meson split_list)
  have ring: "ring (ht_links s) (hrtimer_list s) ts" using r by (simp add: timers_rep_def)
  then have d: "distinct (as @ t # bs)" using ts by (simp add: ring_def)
  have "hrtimer_cancel t s = upd_links (list_del t) s"
    using ring_member_links [OF ring True] by (simp add: hrtimer_cancel_def)
  with rep_del [of s as t bs] r ts d show ?thesis by (simp add: remove1_split)
next
  case False
  then have i: "idle s t" using t(2) by blast
  show ?thesis
  proof (cases "t = 0 \<or> lh_next (ht_links s t) = 0")
    case True
    then have "hrtimer_cancel t s = s" using i by (auto simp: hrtimer_cancel_def idle_def)
    with r i False show ?thesis by (simp add: remove1_idem)
  next
    case False
    then have self: "ht_links s t = \<lparr>lh_next = t, lh_prev = t\<rparr>" using i by (auto simp: idle_def)
    then have c: "hrtimer_cancel t s = upd_links (list_del t) s" using False by (simp add: hrtimer_cancel_def)
    have "list_del t (ht_links s) x = ht_links s x" if "x \<in> set (hrtimer_list s # ts)" for x
      by (rule del_self(1) [where l = "ht_links s", OF self]) (use that t(1) \<open>t \<notin> set ts\<close> in auto)
    then have "ring (list_del t (ht_links s)) (hrtimer_list s) ts"
      using r by (subst ring_cong [where l = "ht_links s"]) (simp_all add: timers_rep_def)
    with r c del_self(2) [where l = "ht_links s" and t = t, OF self] \<open>t \<notin> set ts\<close> show ?thesis
      by (simp add: timers_rep_def idle_def remove1_idem)
  qed
qed

lemma hrtimer_start_rep:
  assumes r: "timers_rep s ts" and t: "t \<noteq> 0" "t \<noteq> hrtimer_list s" "t \<in> set ts \<or> idle s t"
  defines "us \<equiv> remove1 t ts"
  shows "\<exists>s'. hrtimer_start t e s = Some s' \<and> timers_rep s' (due_before s e us @ t # due_after s e us) \<and>
    ht_timers s' = (ht_timers s)(t := (ht_timers s t)\<lparr>ht_expires := e\<rparr>)"
proof -
  have ring: "ring (ht_links s) (hrtimer_list s) ts" using r by (simp add: timers_rep_def)
  define s1 where "s1 = (if t \<in> set ts then upd_links (list_del t) s else s)"
  have "timers_rep s1 us \<and> t \<notin> set us"
  proof (cases "t \<in> set ts")
    case True
    then have "hrtimer_cancel t s = s1"
      using ring_member_links [OF ring True] by (simp add: hrtimer_cancel_def s1_def)
    with unlink_rep [OF r t(2,3)] show ?thesis by (simp add: us_def)
  qed (use r in \<open>simp add: s1_def us_def remove1_idem\<close>)
  then have s1: "timers_rep s1 us" "t \<notin> set us" "hrtimer_list s1 = hrtimer_list s" "ht_timers s1 = ht_timers s"
    by (auto simp: s1_def)
  have "(let nx = lh_next (ht_links s t) in if nx \<noteq> 0 \<and> nx \<noteq> t then
      (if lh_prev (ht_links s t) \<noteq> 0 then upd_links (list_del t) s else s) else s) = s1"
    using ring_member_links [OF ring] t(3) by (auto simp: s1_def idle_def Let_def)
  then have e: "hrtimer_start t e s = (let s2 = upd_timer t (\<lambda>t. t\<lparr>ht_expires := e\<rparr>) s1
      in case list_find (\<lambda>x. ht_expires (ht_timers s2 x) > e) (ht_links s2) (hrtimer_list s2)
             (lh_next (ht_links s2 (hrtimer_list s2))) of
           None \<Rightarrow> None | Some cur \<Rightarrow> Some (upd_links (list_add_tail t cur) s2))"
    unfolding hrtimer_start_def Let_def by (simp only:)
  have "due_before s1 e us = due_before s e us" "due_after s1 e us = due_after s e us"
    using s1(4) by (simp_all add: due_before_def due_after_def)
  moreover have "t \<noteq> hrtimer_list s1" using t(2) s1(3) by simp
  moreover obtain cur where c: "list_find (\<lambda>x. ht_expires (ht_timers (upd_timer t (\<lambda>t. t\<lparr>ht_expires := e\<rparr>) s1) x) > e)
      (ht_links (upd_timer t (\<lambda>t. t\<lparr>ht_expires := e\<rparr>) s1)) (hrtimer_list (upd_timer t (\<lambda>t. t\<lparr>ht_expires := e\<rparr>) s1))
      (lh_next (ht_links (upd_timer t (\<lambda>t. t\<lparr>ht_expires := e\<rparr>) s1) (hrtimer_list (upd_timer t (\<lambda>t. t\<lparr>ht_expires := e\<rparr>) s1)))) = Some cur"
    "timers_rep (upd_links (list_add_tail t cur) (upd_timer t (\<lambda>t. t\<lparr>ht_expires := e\<rparr>) s1)) (due_before s1 e us @ t # due_after s1 e us)"
    using start_insert [OF s1(1) t(1) \<open>t \<noteq> hrtimer_list s1\<close> s1(2), of e] by blast
  ultimately show ?thesis unfolding e Let_def c using s1(4) by simp
qed

section \<open>Properties\<close>

text \<open>
  The timer list stays ordered by expiry. Starting a timer, pending or not, leaves every other timer in its
  order, with the new expiry behind all pending timers that do not expire later, and the search for the place
  ends. Cancelling a timer takes it out of the list and leaves it unlinked; a timer that is not pending may be
  cancelled as well.
\<close>
theorem hrtimer_start_cancel:
  assumes "timers_rep s ts" and "t \<noteq> 0" and "t \<noteq> hrtimer_list s" and "t \<in> set ts \<or> idle s t"
  shows "(\<exists>s'. hrtimer_start t e s = Some s' \<and>
      timers_rep s' (due_before s e (remove1 t ts) @ t # due_after s e (remove1 t ts)) \<and>
      ht_timers s' = (ht_timers s)(t := (ht_timers s t)\<lparr>ht_expires := e\<rparr>)) \<and>
    timers_rep (hrtimer_cancel t s) (remove1 t ts) \<and> idle (hrtimer_cancel t s) t"
  using hrtimer_start_rep [OF assms, of e] unlink_rep [OF assms(1,3,4)] by blast

lemma run_loop_rep:
  assumes call: "\<And>f t h e. call f t (h, e) = (h, act f t e)"
  shows "timers_rep s ts \<Longrightarrow> \<exists>s'. hrtimer_run_loop call now (lh_next (ht_links s (hrtimer_list s))) (s, e) =
      Some (s', fold (\<lambda>t e. if ht_function (ht_timers s t) \<noteq> 0 then act (ht_function (ht_timers s t)) t e else e)
        (due_before s now ts) e) \<and> timers_rep s' (due_after s now ts) \<and> ht_timers s' = ht_timers s"
proof (induction ts arbitrary: s e)
  case Nil
  then have "lh_next (ht_links s (hrtimer_list s)) = hrtimer_list s"
    using ring_next [of "ht_links s" "hrtimer_list s" "[]"] by (simp add: timers_rep_def)
  with Nil show ?case by (simp add: hrtimer_run_loop.simps due_before_def due_after_def)
next
  case (Cons t ts)
  have ring: "ring (ht_links s) (hrtimer_list s) (t # ts)" using Cons.prems by (simp add: timers_rep_def)
  have cur: "lh_next (ht_links s (hrtimer_list s)) = t" "t \<noteq> hrtimer_list s"
    using ring_next [OF ring] ring by (auto simp: ring_def)
  show ?case
  proof (cases "ht_expires (ht_timers s t) \<le> now")
    case True
    let ?s1 = "upd_links (list_del t) s"
    have r1: "timers_rep ?s1 ts" using rep_del(1) [of s "[]" t ts] Cons.prems by simp
    let ?e1 = "if ht_function (ht_timers s t) \<noteq> 0 then act (ht_function (ht_timers s t)) t e else e"
    have step: "hrtimer_run_loop call now t (s, e) =
        hrtimer_run_loop call now (lh_next (ht_links ?s1 (hrtimer_list ?s1))) (?s1, ?e1)"
      using True cur(2) by (subst hrtimer_run_loop.simps) (simp add: call)
    have "due_before ?s1 now ts = due_before s now ts" "due_after ?s1 now ts = due_after s now ts"
      by (simp_all add: due_before_def due_after_def)
    moreover have "ht_timers ?s1 = ht_timers s" by simp
    moreover have "due_before s now (t # ts) = t # due_before s now ts" "due_after s now (t # ts) = due_after s now ts"
      using True by (simp_all add: due_before_def due_after_def)
    ultimately show ?thesis
      using Cons.IH [OF r1, of ?e1] unfolding cur(1) step by (simp only: fold_Cons comp_apply)
  next
    case False
    then show ?thesis using Cons.prems cur by (simp add: hrtimer_run_loop.simps due_before_def due_after_def)
  qed
qed

text \<open>
  C31. Every tick runs exactly the timers that are due, each once and in the order of their expiry, and leaves the
  others pending; the loop over the list ends. The functions of the timers are assumed not to start or cancel timers
  themselves.
\<close>
theorem hrtimers_fire_in_order:
  assumes "timers_rep s ts" and "\<And>f t h e. call f t (h, e) = (h, act f t e)"
  shows "\<exists>s'. hrtimer_run_queues call tsc (s, e) =
      Some (s', fold (\<lambda>t e. if ht_function (ht_timers s t) \<noteq> 0 then act (ht_function (ht_timers s t)) t e else e)
        (filter (\<lambda>t. ht_expires (ht_timers s t) \<le> ktime_get_ns tsc s) ts) e) \<and>
    timers_rep s' (filter (\<lambda>t. ht_expires (ht_timers s t) > ktime_get_ns tsc s) ts)"
proof -
  let ?now = "ktime_get_ns tsc s"
  have "sorted_wrt (\<lambda>t u. ht_expires (ht_timers s t) \<le> ht_expires (ht_timers s u)) ts"
    using assms(1) by (simp add: timers_rep_def)
  note late = due_afterD [OF this]
  have "filter (\<lambda>t. ht_expires (ht_timers s t) \<le> ?now) (due_before s ?now ts @ due_after s ?now ts) = due_before s ?now ts"
    "filter (\<lambda>t. ht_expires (ht_timers s t) > ?now) (due_before s ?now ts @ due_after s ?now ts) = due_after s ?now ts"
    using late [of _ ?now] due_beforeD [of _ s ?now ts]
    by (auto simp: filter_empty_conv filter_id_conv not_less not_le)
  moreover obtain s' where "hrtimer_run_loop call ?now (lh_next (ht_links s (hrtimer_list s))) (s, e) =
      Some (s', fold (\<lambda>t e. if ht_function (ht_timers s t) \<noteq> 0 then act (ht_function (ht_timers s t)) t e else e)
        (due_before s ?now ts) e)" "timers_rep s' (due_after s ?now ts)"
    using run_loop_rep [where call = call and act = act, OF assms(2,1)] by blast
  ultimately show ?thesis unfolding due_split hrtimer_run_queues_def by (intro exI [of _ s']) simp
qed

section \<open>Witnesses\<close>

definition demo_timers :: hrtimers where
  "demo_timers = hrtimer_init_system 1000000000 0 \<lparr>hrtimer_list = 0x1000, ht_links = (\<lambda>_. \<lparr>lh_next = 0, lh_prev = 0\<rparr>),
     ht_timers = (\<lambda>t. \<lparr>ht_expires = 0, ht_function = 0x7000, ht_data = 0\<rparr>), tsc_frequency = 0, initial_tsc = 0\<rparr>"

definition demo_started :: hrtimers where
  "demo_started = the (hrtimer_start 0x2000 50 demo_timers)"

lemma demo_timers_rep: "timers_rep demo_timers []" "idle demo_timers 0x2000"
  using ring_init [of "0x1000" "\<lambda>_. \<lparr>lh_next = 0, lh_prev = 0\<rparr>"]
  by (simp_all add: timers_rep_def demo_timers_def hrtimer_init_system_def idle_def)
    (simp add: INIT_LIST_HEAD_def set_next_def set_prev_def)

lemma demo_started_rep: "hrtimer_start 0x2000 50 demo_timers = Some demo_started" "timers_rep demo_started [0x2000]"
  "ht_timers demo_started = (ht_timers demo_timers)(0x2000 := (ht_timers demo_timers 0x2000)\<lparr>ht_expires := 50\<rparr>)"
  using hrtimer_start_rep [OF demo_timers_rep(1), of "0x2000" 50] demo_timers_rep(2)
  by (auto simp: demo_started_def due_before_def due_after_def demo_timers_def hrtimer_init_system_def)

theorem hrtimer_start_cancel_witness:
  "\<exists>s'. hrtimer_start 0x2000 50 demo_timers = Some s' \<and> timers_rep s' [0x2000]"
  using hrtimer_start_cancel [OF demo_timers_rep(1), of "0x2000" 50] demo_timers_rep(2)
  by (auto simp: due_before_def due_after_def demo_timers_def hrtimer_init_system_def)

theorem hrtimers_fire_in_order_witness:
  "\<exists>s'. hrtimer_run_queues (\<lambda>f t (h, e). (h, e @ [t])) 60 (demo_started, []) = Some (s', [0x2000]) \<and> timers_rep s' []"
proof -
  have "initial_tsc demo_started = 0" "tsc_frequency demo_started = 1000000000" by code_simp+
  then have "ktime_get_ns 60 demo_started = 60" by (simp add: ktime_get_ns_def)
  then show ?thesis
    using hrtimers_fire_in_order [OF demo_started_rep(2), of "\<lambda>f t (h, e). (h, e @ [t])" "\<lambda>f t e. e @ [t]" 60 "[]"]
    by (simp add: demo_started_rep(3)) (simp add: demo_timers_def hrtimer_init_system_def)
qed

end
