(* ===== verification/Links.thy ===== *)
theory Links
  imports Prelude
begin

text \<open>
  Singly linked lists of the C code: a chain of nodes through a next pointer, ended by the null
  pointer. The loops that walk such lists are one recursion, which returns on every chain. The
  lemmas say what a walk finds and what inserting, removing and appending a node does to the chain.
\<close>

section \<open>Chains\<close>

fun chain :: "(u64 \<Rightarrow> u64) \<Rightarrow> u64 \<Rightarrow> u64 list \<Rightarrow> bool" where
  "chain nxt p [] \<longleftrightarrow> p = 0"
| "chain nxt p (x # xs) \<longleftrightarrow> p = x \<and> x \<noteq> 0 \<and> chain nxt (nxt x) xs"

definition hd0 :: "u64 list \<Rightarrow> u64" where
  "hd0 xs = (case xs of [] \<Rightarrow> 0 | x # _ \<Rightarrow> x)"

definition last0 :: "u64 list \<Rightarrow> u64" where
  "last0 xs = (if xs = [] then 0 else last xs)"

lemma hd0_simps [simp]: "hd0 [] = 0" "hd0 (x # xs) = x"
  by (simp_all add: hd0_def)

lemma last0_simps [simp]: "last0 [] = 0" "last0 (xs @ [x]) = x" "last0 [x] = x"
  by (simp_all add: last0_def)

lemma chain_hd: "chain nxt p xs \<Longrightarrow> p = hd0 xs"
  by (cases xs) auto

lemma chain_0 [simp]: "chain nxt 0 xs \<longleftrightarrow> xs = []"
  by (cases xs) auto

lemma chain_unique: "chain nxt p xs \<Longrightarrow> chain nxt p ys \<Longrightarrow> xs = ys"
proof (induction xs arbitrary: p ys)
  case (Cons x xs)
  then show ?case by (cases ys) auto
qed simp

lemma chain_append: "chain nxt p (xs @ y # ys) \<Longrightarrow> chain nxt y (y # ys)"
  by (induction xs arbitrary: p) auto

lemma chain_distinct: "chain nxt p xs \<Longrightarrow> distinct xs"
proof (induction xs arbitrary: p)
  case (Cons x xs)
  have "x \<notin> set xs"
  proof
    assume "x \<in> set xs"
    then obtain as bs where xs: "xs = as @ x # bs" by (meson split_list)
    with Cons.prems have "chain nxt x ((x # as) @ x # bs)" by simp
    from chain_unique [OF this chain_append [OF this]] show False by simp
  qed
  with Cons show ?case by auto
qed simp

lemma chain_nonzero: "chain nxt p xs \<Longrightarrow> 0 \<notin> set xs"
  by (induction xs arbitrary: p) auto

lemma chain_cong: "(\<And>x. x \<in> set xs \<Longrightarrow> nxt' x = nxt x) \<Longrightarrow> chain nxt' p xs \<longleftrightarrow> chain nxt p xs"
  by (induction xs arbitrary: p) auto

lemma chain_upd [simp]: "a \<notin> set xs \<Longrightarrow> chain (nxt(a := b)) p xs \<longleftrightarrow> chain nxt p xs"
  by (rule chain_cong) auto

lemma chain_next: "chain nxt p (xs @ y # ys) \<Longrightarrow> nxt y = hd0 ys"
  using chain_append [of nxt p xs y ys] chain_hd by auto

text \<open>Redirecting the last node of an initial part.\<close>

lemma chain_relink:
  assumes "chain nxt p (as @ cs)" and "as \<noteq> []" and "chain nxt q bs" and "last as \<notin> set bs"
  shows "chain (nxt(last as := q)) p (as @ bs)"
  using assms
proof (induction as arbitrary: p)
  case (Cons a as)
  show ?case
  proof (cases "as = []")
    case False
    have "distinct (a # as @ cs)" using chain_distinct [OF Cons.prems(1)] by simp
    then have "a \<noteq> last as" using False last_in_set [of as] by auto
    with Cons False show ?thesis by simp
  qed (use Cons in \<open>simp flip: fun_upd_def\<close>)
qed simp

lemma chain_insert:
  assumes c: "chain nxt h (as @ bs)" and p: "p \<noteq> 0" "p \<notin> set (as @ bs)"
  defines "nxt1 \<equiv> nxt(p := hd0 bs)"
  shows "as = [] \<Longrightarrow> chain nxt1 p (p # bs)" and "as \<noteq> [] \<Longrightarrow> chain (nxt1(last as := p)) h (as @ p # bs)"
proof -
  have tail: "chain nxt (hd0 bs) bs" using c chain_append [of nxt h as] by (cases bs) auto
  then have pb: "chain nxt1 p (p # bs)" using p by (simp add: nxt1_def)
  then show "as = [] \<Longrightarrow> chain nxt1 p (p # bs)" .
  assume as: "as \<noteq> []"
  have "chain nxt1 h (as @ bs)" using c p by (simp add: nxt1_def)
  moreover have "last as \<in> set as" "set as \<inter> set bs = {}" using as chain_distinct [OF c] by simp_all
  then have "last as \<notin> set (p # bs)" using p by auto
  ultimately show "chain (nxt1(last as := p)) h (as @ p # bs)" using chain_relink as pb by blast
qed

lemma chain_remove:
  assumes c: "chain nxt h (as @ x # bs)"
  shows "as = [] \<Longrightarrow> chain nxt (nxt x) bs" and "as \<noteq> [] \<Longrightarrow> chain (nxt(last as := nxt x)) h (as @ bs)"
proof -
  have b: "chain nxt (nxt x) bs" using chain_append [OF c] by simp
  then show "as = [] \<Longrightarrow> chain nxt (nxt x) bs" .
  assume as: "as \<noteq> []"
  have "last as \<in> set as" "set as \<inter> set bs = {}" using as chain_distinct [OF c] by simp_all
  then have "last as \<notin> set bs" by blast
  with chain_relink [OF c as b] show "chain (nxt(last as := nxt x)) h (as @ bs)" .
qed

text \<open>Removing a node and clearing its next pointer.\<close>

lemma chain_unlink:
  assumes c: "chain nxt h (as @ x # bs)"
  shows "chain ((if as = [] then nxt else nxt(last as := nxt x))(x := 0)) (if as = [] then nxt x else h) (as @ bs)"
proof -
  have "x \<notin> set (as @ bs)" using chain_distinct [OF c] by simp
  with chain_remove [OF c] show ?thesis by simp
qed

section \<open>Walking a list\<close>

text \<open>
  \<open>walk stop nxt prev cur\<close> is \<^verbatim>\<open>while (cur && !stop(cur)) { prev = cur; cur = cur->next; }\<close>; its result is
  the final \<open>prev\<close> and \<open>cur\<close>. On a cyclic list it need not return.
\<close>

partial_function (option) walk ::
  "(u64 \<Rightarrow> bool) \<Rightarrow> (u64 \<Rightarrow> u64) \<Rightarrow> u64 \<Rightarrow> u64 \<Rightarrow> (u64 \<times> u64) option" where
  "walk stop nxt prev cur =
     (if cur \<noteq> 0 \<and> \<not> stop cur then walk stop nxt cur (nxt cur) else Some (prev, cur))"

declare walk.simps [code]

lemma walk_chain:
  "chain nxt cur xs \<Longrightarrow> walk stop nxt prev cur =
     Some (if takeWhile (\<lambda>x. \<not> stop x) xs = [] then prev else last (takeWhile (\<lambda>x. \<not> stop x) xs),
           hd0 (dropWhile (\<lambda>x. \<not> stop x) xs))"
proof (induction xs arbitrary: prev cur)
  case Nil
  then show ?case by (subst walk.simps) simp
next
  case (Cons x xs)
  then show ?case by (subst walk.simps) (auto simp: Cons.IH)
qed

lemma walk_find:
  assumes "chain nxt cur xs" and "walk stop nxt prev cur = Some (q, r)"
  shows "r = 0 \<Longrightarrow> \<forall>x \<in> set xs. \<not> stop x"
    and "r \<noteq> 0 \<Longrightarrow> \<exists>as bs. xs = as @ r # bs \<and> (\<forall>x \<in> set as. \<not> stop x) \<and> stop r \<and> q = (if as = [] then prev else last as)"
proof -
  let ?as = "takeWhile (\<lambda>x. \<not> stop x) xs" and ?bs = "dropWhile (\<lambda>x. \<not> stop x) xs"
  have w: "q = (if ?as = [] then prev else last ?as)" "r = hd0 ?bs"
    using walk_chain [OF assms(1), of stop prev] assms(2) by auto
  have xs: "xs = ?as @ ?bs" by simp
  have nz: "0 \<notin> set ?bs" using chain_nonzero [OF assms(1)] set_dropWhileD by fast
  show "\<forall>x \<in> set xs. \<not> stop x" if "r = 0"
    using that w(2) nz by (cases ?bs) (auto simp: dropWhile_eq_Nil_conv)
  assume "r \<noteq> 0"
  then obtain cs where bs: "?bs = r # cs" using w(2) by (cases ?bs) auto
  then have "stop r" using hd_dropWhile [of "\<lambda>x. \<not> stop x" xs] by auto
  moreover have "\<forall>x \<in> set ?as. \<not> stop x" using set_takeWhileD by fast
  ultimately show "\<exists>as bs. xs = as @ r # bs \<and> (\<forall>x \<in> set as. \<not> stop x) \<and> stop r \<and> q = (if as = [] then prev else last as)"
    using xs bs w(1) by metis
qed

lemma walk_member:
  assumes "chain nxt h (as @ x # bs)"
  shows "walk (\<lambda>q. q = x) nxt 0 h = Some (last0 as, x)"
proof -
  have "x \<notin> set as" using chain_distinct [OF assms] by simp
  then have "takeWhile (\<lambda>q. q \<noteq> x) (as @ x # bs) = as" "dropWhile (\<lambda>q. q \<noteq> x) (as @ x # bs) = x # bs"
    by (auto simp: takeWhile_append dropWhile_append)
  with walk_chain [OF assms, of "\<lambda>q. q = x" 0] show ?thesis by (simp add: last0_def)
qed

lemma walk_returns: "chain nxt cur xs \<Longrightarrow> walk stop nxt prev cur \<noteq> None"
  using walk_chain by fastforce

section \<open>Queues with a tail pointer\<close>

definition fifo :: "(u64 \<Rightarrow> u64) \<Rightarrow> u64 \<Rightarrow> u64 \<Rightarrow> u64 list \<Rightarrow> bool" where
  "fifo nxt h t xs \<longleftrightarrow> chain nxt h xs \<and> t = last0 xs"

lemma fifo_empty: "fifo nxt h t [] \<longleftrightarrow> h = 0 \<and> t = 0"
  by (auto simp: fifo_def)

lemma fifo_tail:
  assumes "fifo nxt h t xs"
  shows "t = 0 \<longleftrightarrow> xs = []" and "h = 0 \<longleftrightarrow> xs = []"
proof -
  have "0 \<notin> set xs" using assms chain_nonzero by (auto simp: fifo_def)
  then show "t = 0 \<longleftrightarrow> xs = []" "h = 0 \<longleftrightarrow> xs = []"
    using assms last_in_set [of xs] by (cases xs; force simp: fifo_def last0_def)+
qed

lemma fifo_cong: "(\<And>x. x \<in> set xs \<Longrightarrow> nxt' x = nxt x) \<Longrightarrow> fifo nxt' h t xs \<longleftrightarrow> fifo nxt h t xs"
  unfolding fifo_def using chain_cong [of xs nxt' nxt h] by simp

text \<open>Appending a node whose next pointer is null.\<close>

lemma fifo_push:
  assumes "fifo nxt h t xs" and "e \<noteq> 0" and "e \<notin> set xs" and "nxt e = 0"
  shows "xs = [] \<Longrightarrow> fifo nxt e e [e]" and "xs \<noteq> [] \<Longrightarrow> fifo (nxt(t := e)) h e (xs @ [e])"
proof -
  show "xs = [] \<Longrightarrow> fifo nxt e e [e]" using assms by (simp add: fifo_def)
  assume xs: "xs \<noteq> []"
  have c: "chain nxt h (xs @ [])" and t: "t = last xs" using assms(1) xs by (auto simp: fifo_def last0_def)
  have "nxt(e := 0) = nxt" using assms(4) by auto
  with chain_insert(2) [OF c assms(2)] assms(3) xs t show "fifo (nxt(t := e)) h e (xs @ [e])" by (simp add: fifo_def)
qed

lemma fifo_pop:
  assumes "fifo nxt h t (x # xs)"
  shows "h = x" and "fifo nxt (nxt x) (if nxt x = 0 then 0 else t) xs" and "nxt x = hd0 xs"
proof -
  have c: "chain nxt (nxt x) xs" using assms by (simp add: fifo_def)
  then show "nxt x = hd0 xs" by (rule chain_hd)
  show "h = x" using assms by (simp add: fifo_def)
  show "fifo nxt (nxt x) (if nxt x = 0 then 0 else t) xs"
    using c assms by (cases xs) (auto simp: fifo_def last0_def)
qed

lemma fifo_remove:
  assumes "fifo nxt h t (as @ x # bs)"
  shows "as = [] \<Longrightarrow> fifo nxt (nxt x) (if nxt x = 0 then 0 else t) bs"
    and "as \<noteq> [] \<Longrightarrow> fifo (nxt(last as := nxt x)) h (if t = x then last as else t) (as @ bs)"
proof -
  have c: "chain nxt h (as @ x # bs)" and t: "t = last (x # bs)" using assms by (auto simp: fifo_def last0_def)
  show "as = [] \<Longrightarrow> fifo nxt (nxt x) (if nxt x = 0 then 0 else t) bs" using fifo_pop(2) assms by auto
  assume as: "as \<noteq> []"
  have "x \<notin> set bs" using chain_distinct [OF c] by simp
  then have "(t = x) = (bs = [])" using t last_in_set [of bs] by auto
  with chain_remove(2) [OF c as] t as show "fifo (nxt(last as := nxt x)) h (if t = x then last as else t) (as @ bs)"
    by (auto simp: fifo_def last0_def)
qed

end
