(* ===== verification/Queue_Interfaces.thy ===== *)
theory Queue_Interfaces
  imports Prelude
begin

text \<open>
  Contracts of queues, as locales: a run queue of processes, from which the scheduler picks, and a
  bounded first-in first-out buffer, as pipes and the keyboard have. The theories of the components
  interpret them on their own operations.
\<close>

section \<open>Run queues\<close>

text \<open>
  A run queue holds pointers to processes; \<open>pick\<close> takes one of them out, and returns the null pointer
  only when there is none.
\<close>

locale run_queue =
  fixes enqueue :: "u64 \<Rightarrow> 's \<Rightarrow> 's option"
    and pick :: "'s \<Rightarrow> 's \<times> u64"
    and ok :: "'s \<Rightarrow> bool"
    and queued :: "'s \<Rightarrow> u64 set"
    and runnable :: "u64 \<Rightarrow> 's \<Rightarrow> bool"
  assumes enqueue_adds: "ok s \<Longrightarrow> runnable p s \<Longrightarrow> p \<notin> queued s \<Longrightarrow>
      \<exists>s'. enqueue p s = Some s' \<and> ok s' \<and> queued s' = insert p (queued s)"
    and pick_empty: "ok s \<Longrightarrow> queued s = {} \<Longrightarrow> pick s = (s, 0)"
    and pick_takes: "ok s \<Longrightarrow> queued s \<noteq> {} \<Longrightarrow> pick s = (s', p) \<Longrightarrow>
      p \<noteq> 0 \<and> p \<in> queued s \<and> ok s' \<and> queued s' = queued s - {p}"
    and queued_finite: "ok s \<Longrightarrow> finite (queued s)"
begin

text \<open>As many picks as there are processes serve every one of them.\<close>

lemma picked_in_turn:
  assumes "ok s" and "p \<in> queued s"
  shows "\<exists>n < card (queued s). snd (pick (((fst \<circ> pick) ^^ n) s)) = p"
  using assms
proof (induction "card (queued s)" arbitrary: s)
  case 0
  then show ?case using queued_finite by auto
next
  case (Suc k)
  obtain s1 q where q: "pick s = (s1, q)" by fastforce
  have ne: "queued s \<noteq> {}" using Suc.prems by auto
  note t = pick_takes [OF Suc.prems(1) ne q]
  show ?case
  proof (cases "p = q")
    case True
    then show ?thesis using q Suc.hyps(2) by (intro exI [of _ 0]) simp
  next
    case False
    have "k = card (queued s1)" using t Suc.hyps(2) queued_finite [OF Suc.prems(1)] by simp
    with Suc.hyps(1) [OF this] t False Suc.prems(2)
    obtain n where n: "n < k" "snd (pick (((fst \<circ> pick) ^^ n) s1)) = p" by auto
    moreover have "((fst \<circ> pick) ^^ Suc n) s = ((fst \<circ> pick) ^^ n) s1" using q by (simp add: funpow_swap1)
    ultimately show ?thesis using Suc.hyps(2) by (intro exI [of _ "Suc n"]) simp
  qed
qed

text \<open>A process that is enqueued is picked after at most those that were there before it.\<close>

lemma enqueued_picked:
  assumes "ok s" and "runnable p s" and "p \<notin> queued s" and "enqueue p s = Some s'"
  shows "\<exists>n \<le> card (queued s). snd (pick (((fst \<circ> pick) ^^ n) s')) = p"
proof -
  have "ok s'" "queued s' = insert p (queued s)" using enqueue_adds [OF assms(1-3)] assms(4) by auto
  with picked_in_turn [of s' p] assms(3) queued_finite [OF assms(1)] show ?thesis
    by (auto simp: less_Suc_eq_le)
qed

end

section \<open>Bounded buffers\<close>

text \<open>
  A bounded buffer holds a list of items, at most \<open>capacity\<close> of them. \<open>put\<close> appends an item and reports
  whether there was room; \<open>get\<close> takes the oldest. Two states may hold the same items and differ elsewhere.
\<close>

locale bounded_buffer =
  fixes put :: "'x \<Rightarrow> 's \<Rightarrow> 's \<times> bool"
    and get :: "'s \<Rightarrow> 's \<times> 'x option"
    and rep :: "'s \<Rightarrow> 'x list \<Rightarrow> bool"
    and same :: "'s \<Rightarrow> 's \<Rightarrow> bool"
    and capacity :: nat
  assumes put_spec: "rep s xs \<Longrightarrow> \<exists>s'. put x s = (s', length xs < capacity) \<and>
      rep s' (if length xs < capacity then xs @ [x] else xs)"
    and get_spec: "rep s xs \<Longrightarrow> \<exists>s'. get s = (s', case xs of [] \<Rightarrow> None | x # _ \<Rightarrow> Some x) \<and> rep s' (tl xs)"
    and rep_bound: "rep s xs \<Longrightarrow> length xs \<le> capacity"
    and same_rep: "same s s' \<Longrightarrow> rep s xs \<Longrightarrow> rep s' xs"
begin

text \<open>
  The history of a buffer: the items that were accepted and those that were handed out. In between the buffer may be
  part of a larger structure that changes elsewhere.
\<close>

inductive run :: "'s \<Rightarrow> 'x list \<Rightarrow> 'x list \<Rightarrow> 's \<Rightarrow> bool" for s0 where
  start: "run s0 [] [] s0"
| put_ok: "run s0 ins outs s \<Longrightarrow> put x s = (s', True) \<Longrightarrow> run s0 (ins @ [x]) outs s'"
| put_full: "run s0 ins outs s \<Longrightarrow> put x s = (s', False) \<Longrightarrow> run s0 ins outs s'"
| get_ok: "run s0 ins outs s \<Longrightarrow> get s = (s', Some x) \<Longrightarrow> run s0 ins (outs @ [x]) s'"
| get_empty: "run s0 ins outs s \<Longrightarrow> get s = (s', None) \<Longrightarrow> run s0 ins outs s'"
| other: "run s0 ins outs s \<Longrightarrow> same s s' \<Longrightarrow> run s0 ins outs s'"

text \<open>What comes out is what went in, in the same order, but for the items still inside.\<close>

lemma run_stream:
  assumes "run s0 ins outs s" and "rep s0 xs"
  shows "\<exists>ys. rep s ys \<and> xs @ ins = outs @ ys \<and> length ys \<le> capacity"
  using assms
proof (induction rule: run.induct)
  case start
  then show ?case using rep_bound by auto
next
  case (put_ok ins outs s x s')
  then obtain ys where ys: "rep s ys" "xs @ ins = outs @ ys" by blast
  with put_spec [OF ys(1), of x] put_ok.hyps(2) have "rep s' (ys @ [x])" by (auto split: if_splits)
  with ys(2) rep_bound [of s' "ys @ [x]"] show ?case by (intro exI [of _ "ys @ [x]"]) simp
next
  case (put_full ins outs s x s')
  then obtain ys where ys: "rep s ys" "xs @ ins = outs @ ys" by blast
  with put_spec [OF ys(1), of x] put_full.hyps(2) have "rep s' ys" by (auto split: if_splits)
  with ys(2) rep_bound show ?case by blast
next
  case (get_ok ins outs s s' x)
  then obtain ys where ys: "rep s ys" "xs @ ins = outs @ ys" by blast
  with get_spec [OF ys(1)] get_ok.hyps(2) have "rep s' (tl ys)" "ys = x # tl ys" by (auto split: list.splits)
  with ys(2) rep_bound [of s' "tl ys"] show ?case by (intro exI [of _ "tl ys"]) simp
next
  case (get_empty ins outs s s')
  then obtain ys where ys: "rep s ys" "xs @ ins = outs @ ys" by blast
  with get_spec [OF ys(1)] get_empty.hyps(2) have "rep s' ys" by (auto split: list.splits)
  with ys(2) rep_bound show ?case by blast
next
  case (other ins outs s s')
  then show ?case using same_rep by blast
qed

end

section \<open>Ring buffers\<close>

text \<open>The items of a ring of \<open>n\<close> cells, from position \<open>r\<close> on.\<close>

definition ring_rep :: "int \<Rightarrow> (int \<Rightarrow> 'x) \<Rightarrow> int \<Rightarrow> 'x list \<Rightarrow> bool" where
  "ring_rep n buf r xs \<longleftrightarrow>
     0 \<le> r \<and> r < n \<and> int (length xs) \<le> n \<and> (\<forall>i<length xs. buf ((r + int i) mod n) = xs ! i)"

lemma ring_push:
  assumes "ring_rep n buf r xs" and "int (length xs) < n"
  shows "ring_rep n (buf((r + int (length xs)) mod n := x)) r (xs @ [x])"
proof -
  have "(r + int i) mod n \<noteq> (r + int (length xs)) mod n" if "i < length xs" for i
  proof
    assume "(r + int i) mod n = (r + int (length xs)) mod n"
    then have "n dvd (r + int (length xs)) - (r + int i)" by (metis mod_eq_dvd_iff)
    then have "n dvd int (length xs) - int i" by simp
    moreover have "0 < int (length xs) - int i" "int (length xs) - int i < n" using that assms(2) by auto
    ultimately show False using zdvd_imp_le by fastforce
  qed
  then show ?thesis using assms by (auto simp: ring_rep_def nth_append less_Suc_eq)
qed

lemma ring_pop:
  assumes "ring_rep n buf r (x # xs)"
  shows "buf r = x" and "ring_rep n buf ((r + 1) mod n) xs"
proof -
  have r: "0 \<le> r" "r < n" "int (length xs) + 1 \<le> n" and b: "\<And>i. i < Suc (length xs) \<Longrightarrow> buf ((r + int i) mod n) = (x # xs) ! i"
    using assms by (simp_all add: ring_rep_def)
  show "buf r = x" using b [of 0] r by simp
  have "buf (((r + 1) mod n + int i) mod n) = xs ! i" if "i < length xs" for i
  proof -
    have "((r + 1) mod n + int i) mod n = (r + int (Suc i)) mod n" by (simp add: mod_add_left_eq add.assoc)
    then show ?thesis using b [of "Suc i"] that by simp
  qed
  then show "ring_rep n buf ((r + 1) mod n) xs" using r by (simp add: ring_rep_def)
qed

end
