(* ===== verification/Sched.thy ===== *)
theory Sched
  imports Links Queue_Interfaces
begin

text \<open>
  Processes and the two scheduling classes: \<^verbatim>\<open>struct process\<close> of \<^verbatim>\<open>kernel/include/process.h\<close>, the
  multi-level feedback queues of \<^verbatim>\<open>kernel/process/sched_mlfq.c\<close> and the fair queue of
  \<^verbatim>\<open>kernel/process/sched_fair.c\<close>. All five ready queues are linked through the same field,
  \<open>next_ready\<close>; they are shown to implement five lists. A C \<open>int\<close> is an \<open>int\<close> here: the time slice
  and priority stay far from its limits.
\<close>

section \<open>Processes\<close>

datatype process_state = READY | RUNNING | BLOCKED | TERMINATED | SLEEPING

datatype policy = SCHED_OTHER | SCHED_FIFO | SCHED_RR | SCHED_CFS

text \<open>The scheduling class pointer of a process: null, or one of the two classes.\<close>

datatype sched_class = No_class | Mlfq_class | Fair_class

record rlimit =
  rlim_cur :: u64
  rlim_max :: u64

record process =
  p_pid :: u64
  p_rsp :: u64
  p_kernel_stack :: u64
  p_cr3 :: u64
  p_state :: process_state
  p_name :: string
  p_policy :: policy
  p_sched_class :: sched_class
  p_priority :: int
  p_base_priority :: int
  p_time_slice :: int
  p_quantum :: int
  p_cpu_time :: u64
  p_vruntime :: u64
  p_next :: u64
  p_prev :: u64
  p_parent :: u64
  p_next_ready :: u64
  p_gid :: u64
  p_sid :: u64
  p_cwd :: u64
  p_cwd_mnt :: u64
  p_nsproxy :: u64
  p_cgroups :: u64
  p_seccomp_filter :: u64
  p_exit_code :: int
  p_fd_table :: "nat \<Rightarrow> u64"
  p_rlimits :: "nat \<Rightarrow> rlimit"
  p_signal_handler :: "nat \<Rightarrow> u64"
  p_pending_signals :: u32
  p_waiting_on :: u64

text \<open>A process whose memory has been cleared.\<close>

definition zero_process :: process where
  "zero_process = \<lparr>p_pid = 0, p_rsp = 0, p_kernel_stack = 0, p_cr3 = 0, p_state = READY, p_name = [],
     p_policy = SCHED_OTHER, p_sched_class = No_class, p_priority = 0, p_base_priority = 0, p_time_slice = 0,
     p_quantum = 0, p_cpu_time = 0, p_vruntime = 0, p_next = 0, p_prev = 0, p_parent = 0, p_next_ready = 0,
     p_gid = 0, p_sid = 0, p_cwd = 0, p_cwd_mnt = 0, p_nsproxy = 0, p_cgroups = 0, p_seccomp_filter = 0,
     p_exit_code = 0, p_fd_table = (\<lambda>_. 0), p_rlimits = (\<lambda>_. \<lparr>rlim_cur = 0, rlim_max = 0\<rparr>),
     p_signal_handler = (\<lambda>_. 0), p_pending_signals = 0, p_waiting_on = 0\<rparr>"

definition MLFQ_LEVELS :: nat where "MLFQ_LEVELS = 4"

record sched =
  procs :: "u64 \<Rightarrow> process"
  mlfq_queues :: "nat \<Rightarrow> u64"
  mlfq_tails :: "nat \<Rightarrow> u64"
  cfs_queue :: u64

definition upd_proc :: "u64 \<Rightarrow> (process \<Rightarrow> process) \<Rightarrow> 'a sched_scheme \<Rightarrow> 'a sched_scheme" where
  "upd_proc p f s = s\<lparr>procs := (procs s)(p := f (procs s p))\<rparr>"

abbreviation next_ready :: "'a sched_scheme \<Rightarrow> u64 \<Rightarrow> u64" where
  "next_ready s \<equiv> (\<lambda>p. p_next_ready (procs s p))"

section \<open>The multi-level feedback queues\<close>

definition mlfq_level :: "int \<Rightarrow> nat" where
  "mlfq_level priority =
     (let level = (if priority \<ge> int MLFQ_LEVELS then int MLFQ_LEVELS - 1 else priority)
      in nat (if level < 0 then 0 else level))"

definition enqueue_task_mlfq :: "u64 \<Rightarrow> 'a sched_scheme \<Rightarrow> 'a sched_scheme" where
  "enqueue_task_mlfq p s =
     (let s1 = upd_proc p (\<lambda>x. x\<lparr>p_state := READY, p_next_ready := 0\<rparr>) s;
          level = mlfq_level (p_priority (procs s1 p))
      in if mlfq_queues s1 level = 0
         then s1\<lparr>mlfq_queues := (mlfq_queues s1)(level := p), mlfq_tails := (mlfq_tails s1)(level := p)\<rparr>
         else (upd_proc (mlfq_tails s1 level) (\<lambda>x. x\<lparr>p_next_ready := p\<rparr>) s1)
                \<lparr>mlfq_tails := (mlfq_tails s1)(level := p)\<rparr>)"

definition dequeue_task_mlfq :: "u64 \<Rightarrow> 'a sched_scheme \<Rightarrow> 'a sched_scheme option" where
  "dequeue_task_mlfq p s =
     (let level = mlfq_level (p_priority (procs s p))
      in case walk (\<lambda>q. q = p) (next_ready s) 0 (mlfq_queues s level) of
           None \<Rightarrow> None
         | Some (prev, cur) \<Rightarrow>
             if cur = 0 then Some s
             else
               (let s1 = (if prev = 0 then s\<lparr>mlfq_queues := (mlfq_queues s)(level := next_ready s p)\<rparr>
                          else upd_proc prev (\<lambda>x. x\<lparr>p_next_ready := next_ready s p\<rparr>) s);
                    s2 = (if mlfq_tails s1 level = p then s1\<lparr>mlfq_tails := (mlfq_tails s1)(level := prev)\<rparr> else s1)
                in Some (upd_proc p (\<lambda>x. x\<lparr>p_next_ready := 0\<rparr>) s2)))"

definition pick_next_task_mlfq :: "'a sched_scheme \<Rightarrow> 'a sched_scheme \<times> u64" where
  "pick_next_task_mlfq s =
     (case find (\<lambda>i. mlfq_queues s i \<noteq> 0) [0..<MLFQ_LEVELS] of
        None \<Rightarrow> (s, 0)
      | Some i \<Rightarrow>
          (let nx = mlfq_queues s i;
               s1 = s\<lparr>mlfq_queues := (mlfq_queues s)(i := next_ready s nx)\<rparr>;
               s2 = (if mlfq_queues s1 i = 0 then s1\<lparr>mlfq_tails := (mlfq_tails s1)(i := 0)\<rparr> else s1)
           in (upd_proc nx (\<lambda>x. x\<lparr>p_next_ready := 0\<rparr>) s2, nx)))"

definition task_tick_mlfq :: "u64 \<Rightarrow> 'a sched_scheme \<Rightarrow> 'a sched_scheme" where
  "task_tick_mlfq p s =
     (if p_time_slice (procs s p) > 0 then upd_proc p (\<lambda>x. x\<lparr>p_time_slice := p_time_slice x - 1\<rparr>) s else s)"

section \<open>The fair queue\<close>

definition enqueue_task_fair :: "u64 \<Rightarrow> 'a sched_scheme \<Rightarrow> 'a sched_scheme option" where
  "enqueue_task_fair p s =
     (let s1 = upd_proc p (\<lambda>x. x\<lparr>p_state := READY\<rparr>) s
      in case walk (\<lambda>q. \<not> p_vruntime (procs s1 q) \<le> p_vruntime (procs s1 p)) (next_ready s1) 0 (cfs_queue s1) of
           None \<Rightarrow> None
         | Some (prev, cur) \<Rightarrow>
             (let s2 = upd_proc p (\<lambda>x. x\<lparr>p_next_ready := cur\<rparr>) s1
              in Some (if prev = 0 then s2\<lparr>cfs_queue := p\<rparr>
                       else upd_proc prev (\<lambda>x. x\<lparr>p_next_ready := p\<rparr>) s2)))"

definition dequeue_task_fair :: "u64 \<Rightarrow> 'a sched_scheme \<Rightarrow> 'a sched_scheme option" where
  "dequeue_task_fair p s =
     (case walk (\<lambda>q. q = p) (next_ready s) 0 (cfs_queue s) of
        None \<Rightarrow> None
      | Some (prev, cur) \<Rightarrow>
          if cur = 0 then Some s
          else
            (let s1 = (if prev = 0 then s\<lparr>cfs_queue := next_ready s p\<rparr>
                       else upd_proc prev (\<lambda>x. x\<lparr>p_next_ready := next_ready s p\<rparr>) s)
             in Some (upd_proc p (\<lambda>x. x\<lparr>p_next_ready := 0\<rparr>) s1)))"

definition pick_next_task_fair :: "'a sched_scheme \<Rightarrow> 'a sched_scheme \<times> u64" where
  "pick_next_task_fair s =
     (if cfs_queue s = 0 then (s, 0)
      else
        (let nx = cfs_queue s
         in (upd_proc nx (\<lambda>x. x\<lparr>p_next_ready := 0\<rparr>) (s\<lparr>cfs_queue := next_ready s nx\<rparr>), nx)))"

definition task_tick_fair :: "u64 \<Rightarrow> 'a sched_scheme \<Rightarrow> 'a sched_scheme" where
  "task_tick_fair p s =
     (let s1 = upd_proc p (\<lambda>x. x\<lparr>p_vruntime := p_vruntime x + 1\<rparr>) s
      in if p_time_slice (procs s1 p) > 0 then upd_proc p (\<lambda>x. x\<lparr>p_time_slice := p_time_slice x - 1\<rparr>) s1 else s1)"

section \<open>Both classes\<close>

definition enqueue_process :: "u64 \<Rightarrow> 'a sched_scheme \<Rightarrow> 'a sched_scheme option" where
  "enqueue_process p s =
     (if p_state (procs s p) \<noteq> READY then Some s
      else
        (case p_sched_class (procs s p) of
           No_class \<Rightarrow> Some s
         | Mlfq_class \<Rightarrow> Some (enqueue_task_mlfq p s)
         | Fair_class \<Rightarrow> enqueue_task_fair p s))"

definition pick_next_task :: "'a sched_scheme \<Rightarrow> 'a sched_scheme \<times> u64" where
  "pick_next_task s =
     (let (s1, nx) = pick_next_task_mlfq s in if nx = 0 then pick_next_task_fair s1 else (s1, nx))"

section \<open>The queues as lists\<close>

text \<open>
  \<open>qs i\<close> lists the processes of feedback level \<open>i < 4\<close>, and \<open>qs 4\<close> those of the fair queue, which is ordered
  by virtual run time. No process is in two places, and all are ready.
\<close>

definition sched_rep :: "'a sched_scheme \<Rightarrow> (nat \<Rightarrow> u64 list) \<Rightarrow> bool" where
  "sched_rep s qs \<longleftrightarrow>
     (\<forall>i<4. fifo (next_ready s) (mlfq_queues s i) (mlfq_tails s i) (qs i)) \<and>
     chain (next_ready s) (cfs_queue s) (qs 4) \<and>
     sorted_wrt (\<lambda>p q. p_vruntime (procs s p) \<le> p_vruntime (procs s q)) (qs 4) \<and>
     (\<forall>i<5. \<forall>j<5. i \<noteq> j \<longrightarrow> set (qs i) \<inter> set (qs j) = {}) \<and>
     (\<forall>i<5. \<forall>p\<in>set (qs i). p_state (procs s p) = READY)"

definition in_queues :: "(nat \<Rightarrow> u64 list) \<Rightarrow> u64 set" where
  "in_queues qs = (\<Union>i<5. set (qs i))"

text \<open>The operations on the lists.\<close>

definition list_enqueue :: "process \<Rightarrow> (u64 \<Rightarrow> u64) \<Rightarrow> u64 \<Rightarrow> (nat \<Rightarrow> u64 list) \<Rightarrow> nat \<Rightarrow> u64 list" where
  "list_enqueue x vr p qs =
     (case p_sched_class x of
        No_class \<Rightarrow> qs
      | Mlfq_class \<Rightarrow> qs(mlfq_level (p_priority x) := qs (mlfq_level (p_priority x)) @ [p])
      | Fair_class \<Rightarrow> qs(4 := takeWhile (\<lambda>q. vr q \<le> p_vruntime x) (qs 4) @ p # dropWhile (\<lambda>q. vr q \<le> p_vruntime x) (qs 4)))"

definition list_pick :: "(nat \<Rightarrow> u64 list) \<Rightarrow> (nat \<Rightarrow> u64 list) \<times> u64" where
  "list_pick qs =
     (case find (\<lambda>i. qs i \<noteq> []) [0..<5] of
        None \<Rightarrow> (qs, 0)
      | Some i \<Rightarrow> (qs(i := tl (qs i)), hd (qs i)))"

section \<open>The classes implement the lists\<close>

lemma upd_proc_simps [simp]:
  "procs (upd_proc p f s) = (procs s)(p := f (procs s p))"
  "mlfq_queues (upd_proc p f s) = mlfq_queues s" "mlfq_tails (upd_proc p f s) = mlfq_tails s"
  "cfs_queue (upd_proc p f s) = cfs_queue s" "sched.more (upd_proc p f s) = sched.more s"
  by (simp_all add: upd_proc_def)

text \<open>A process without its place in a queue.\<close>

definition unlinked :: "process \<Rightarrow> process" where
  "unlinked x = x\<lparr>p_next_ready := 0\<rparr>"

lemma mlfq_level_less: "mlfq_level k < 4"
  by (auto simp: mlfq_level_def MLFQ_LEVELS_def Let_def)

lemma sched_rep_fifo: "sched_rep s qs \<Longrightarrow> i < 4 \<Longrightarrow> fifo (next_ready s) (mlfq_queues s i) (mlfq_tails s i) (qs i)"
  by (simp add: sched_rep_def)

lemma sched_rep_chain: "sched_rep s qs \<Longrightarrow> chain (next_ready s) (cfs_queue s) (qs 4)"
  by (simp add: sched_rep_def)

lemma sched_rep_disjoint:
  "sched_rep s qs \<Longrightarrow> i < 5 \<Longrightarrow> j < 5 \<Longrightarrow> i \<noteq> j \<Longrightarrow> q \<in> set (qs i) \<Longrightarrow> q \<notin> set (qs j)"
  unfolding sched_rep_def by blast

lemma sched_rep_ready: "sched_rep s qs \<Longrightarrow> i < 5 \<Longrightarrow> q \<in> set (qs i) \<Longrightarrow> p_state (procs s q) = READY"
  by (simp add: sched_rep_def)

lemma in_queuesI: "i < 5 \<Longrightarrow> q \<in> set (qs i) \<Longrightarrow> q \<in> in_queues qs"
  by (auto simp: in_queues_def)

lemma sched_rep_nonzero: "sched_rep s qs \<Longrightarrow> 0 \<notin> in_queues qs"
proof
  assume rep: "sched_rep s qs" and "0 \<in> in_queues qs"
  then obtain i where i: "i < 5" "0 \<in> set (qs i)" by (auto simp: in_queues_def)
  show False
  proof (cases "i = 4")
    case True
    with i chain_nonzero [OF sched_rep_chain [OF rep]] show False by simp
  next
    case False
    then have "i < 4" using i by simp
    with i sched_rep_fifo [OF rep] chain_nonzero show False unfolding fifo_def by blast
  qed
qed

lemma sched_rep_distinct: "sched_rep s qs \<Longrightarrow> i < 5 \<Longrightarrow> distinct (qs i)"
proof -
  assume rep: "sched_rep s qs" and "i < 5"
  then consider "i < 4" | "i = 4" by linarith
  then show "distinct (qs i)"
    using sched_rep_fifo [OF rep] sched_rep_chain [OF rep] chain_distinct by cases (auto simp: fifo_def)
qed

text \<open>
  One queue changes: the others are kept when the next pointers, states and run times of their processes are.
\<close>

lemma sched_rep_change:
  assumes rep: "sched_rep s qs" and l: "l < 5"
    and keep: "\<And>i q. i < 5 \<Longrightarrow> i \<noteq> l \<Longrightarrow> q \<in> set (qs i) \<Longrightarrow> next_ready s' q = next_ready s q \<and>
      p_state (procs s' q) = READY \<and> p_vruntime (procs s' q) = p_vruntime (procs s q) \<and> q \<notin> set xs"
    and heads: "\<And>i. i < 4 \<Longrightarrow> i \<noteq> l \<Longrightarrow> mlfq_queues s' i = mlfq_queues s i \<and> mlfq_tails s' i = mlfq_tails s i"
    and cfs: "l \<noteq> 4 \<Longrightarrow> cfs_queue s' = cfs_queue s"
    and new: "l \<noteq> 4 \<Longrightarrow> fifo (next_ready s') (mlfq_queues s' l) (mlfq_tails s' l) xs"
    and newc: "l = 4 \<Longrightarrow> chain (next_ready s') (cfs_queue s') xs \<and>
      sorted_wrt (\<lambda>p q. p_vruntime (procs s' p) \<le> p_vruntime (procs s' q)) xs"
    and ready: "\<And>q. q \<in> set xs \<Longrightarrow> p_state (procs s' q) = READY"
  shows "sched_rep s' (qs(l := xs))"
  unfolding sched_rep_def
proof (intro conjI allI impI ballI)
  show "fifo (next_ready s') (mlfq_queues s' i) (mlfq_tails s' i) ((qs(l := xs)) i)" if "i < 4" for i
  proof (cases "i = l")
    case False
    have "fifo (next_ready s') (mlfq_queues s i) (mlfq_tails s i) (qs i)"
      using sched_rep_fifo [OF rep that] keep [of i] that False by (subst fifo_cong [where nxt = "next_ready s"]) auto
    with heads [OF that False] False show ?thesis by simp
  qed (use that new in simp)
  show "chain (next_ready s') (cfs_queue s') ((qs(l := xs)) 4)"
  proof (cases "l = 4")
    case False
    then show ?thesis using sched_rep_chain [OF rep] keep [of 4] cfs
      by (subst chain_cong [where nxt = "next_ready s"]) auto
  qed (use newc in simp)
  show "sorted_wrt (\<lambda>p q. p_vruntime (procs s' p) \<le> p_vruntime (procs s' q)) ((qs(l := xs)) 4)"
  proof (cases "l = 4")
    case False
    have "sorted_wrt (\<lambda>p q. p_vruntime (procs s p) \<le> p_vruntime (procs s q)) (qs 4)"
      using rep by (simp add: sched_rep_def)
    then have "sorted_wrt (\<lambda>p q. p_vruntime (procs s' p) \<le> p_vruntime (procs s' q)) (qs 4)"
      by (rule sorted_wrt_mono_rel [rotated]) (use keep [of 4] False in auto)
    with False show ?thesis by simp
  qed (use newc in simp)
  show "set ((qs(l := xs)) i) \<inter> set ((qs(l := xs)) j) = {}" if "i < 5" "j < 5" "i \<noteq> j" for i j
    using keep [of i] keep [of j] sched_rep_disjoint [OF rep that] that by auto
  show "p_state (procs s' p) = READY" if "i < 5" "p \<in> set ((qs(l := xs)) i)" for i p
    using that keep [of i p] ready [of p] by (cases "i = l") auto
qed

lemma next_ready_fun_upd: "(\<lambda>q. p_next_ready ((f(p := x)) q)) = (\<lambda>q. p_next_ready (f q))(p := p_next_ready x)"
  by auto

lemma fifo_last: "fifo nxt h t xs \<Longrightarrow> xs \<noteq> [] \<Longrightarrow> t = last xs \<and> t \<in> set xs"
  by (simp add: fifo_def last0_def)

lemma enqueue_mlfq_rep:
  assumes rep: "sched_rep s qs" and p: "p \<noteq> 0" "p \<notin> in_queues qs"
  defines "l \<equiv> mlfq_level (p_priority (procs s p))"
  shows "sched_rep (enqueue_task_mlfq p s) (qs(l := qs l @ [p]))"
proof -
  let ?s1 = "upd_proc p (\<lambda>x. x\<lparr>p_state := READY, p_next_ready := 0\<rparr>) s"
  have l: "l < 4" by (simp add: l_def mlfq_level_less)
  have pn: "p \<notin> set (qs i)" if "i < 5" for i using p(2) in_queuesI that by blast
  have f: "fifo (next_ready s) (mlfq_queues s l) (mlfq_tails s l) (qs l)" by (rule sched_rep_fifo [OF rep l])
  have nr1: "next_ready ?s1 = (next_ready s)(p := 0)" unfolding upd_proc_simps next_ready_fun_upd by simp
  have f1: "fifo ((next_ready s)(p := 0)) (mlfq_queues s l) (mlfq_tails s l) (qs l)"
    using f pn [of l] l by (subst fifo_cong [where nxt = "next_ready s"]) auto
  note push = fifo_push [OF f1 p(1)]
  show ?thesis
  proof (cases "qs l = []")
    case True
    have q: "mlfq_queues s l = 0" using fifo_tail(2) [OF f] True by simp
    have e: "enqueue_task_mlfq p s = ?s1\<lparr>mlfq_queues := (mlfq_queues s)(l := p), mlfq_tails := (mlfq_tails s)(l := p)\<rparr>"
      using q by (simp add: enqueue_task_mlfq_def l_def Let_def)
    show ?thesis unfolding e
      by (rule sched_rep_change [OF rep])
        (use l True pn push nr1 rep in \<open>auto simp: sched_rep_ready\<close>)
  next
    case False
    let ?t = "mlfq_tails s l"
    have q: "mlfq_queues s l \<noteq> 0" using fifo_tail(2) [OF f] False by simp
    have t: "?t \<in> set (qs l)" using fifo_last [OF f False] by blast
    let ?s' = "(upd_proc ?t (\<lambda>x. x\<lparr>p_next_ready := p\<rparr>) ?s1)\<lparr>mlfq_tails := (mlfq_tails s)(l := p)\<rparr>"
    have e: "enqueue_task_mlfq p s = ?s'" using q by (simp add: enqueue_task_mlfq_def l_def Let_def)
    have "next_ready ?s' = ((next_ready s)(p := 0))(?t := p)" by auto
    then have new: "fifo (next_ready ?s') (mlfq_queues s l) p (qs l @ [p])" using push(2) False pn [of l] l by simp
    have pt: "?t \<noteq> p" using t pn [of l] l by auto
    have other: "procs ?s' q = procs s q \<and> q \<notin> set (qs l @ [p])" if "q \<in> set (qs i)" "i < 5" "i \<noteq> l" for q i
      using sched_rep_disjoint [OF rep that(2) _ that(3,1)] t l pn [OF that(2)] that(1) by auto
    have ready: "p_state (procs ?s' q) = READY" if "q \<in> set (qs l @ [p])" for q
      using that sched_rep_ready [OF rep, of l] l t pt by auto
    show ?thesis unfolding e
    proof (rule sched_rep_change [OF rep])
      show "next_ready ?s' q = next_ready s q \<and> p_state (procs ?s' q) = READY \<and>
          p_vruntime (procs ?s' q) = p_vruntime (procs s q) \<and> q \<notin> set (qs l @ [p])"
        if "i < 5" "i \<noteq> l" "q \<in> set (qs i)" for i q
        using other [OF that(3,1,2)] sched_rep_ready [OF rep that(1,3)] by simp
    qed (use l new ready in simp_all)
  qed
qed

lemma enqueue_fair_rep:
  assumes rep: "sched_rep s qs" and p: "p \<noteq> 0" "p \<notin> in_queues qs"
  defines "as \<equiv> takeWhile (\<lambda>q. p_vruntime (procs s q) \<le> p_vruntime (procs s p)) (qs 4)"
    and "bs \<equiv> dropWhile (\<lambda>q. p_vruntime (procs s q) \<le> p_vruntime (procs s p)) (qs 4)"
  shows "\<exists>s'. enqueue_task_fair p s = Some s' \<and> sched_rep s' (qs(4 := as @ p # bs)) \<and>
    (\<forall>q. unlinked (procs s' q) = unlinked (if q = p then (procs s p)\<lparr>p_state := READY\<rparr> else procs s q)) \<and>
    sched.more s' = sched.more s"
proof -
  let ?s1 = "upd_proc p (\<lambda>x. x\<lparr>p_state := READY\<rparr>) s" and ?vr = "\<lambda>q. p_vruntime (procs s q)"
  have pn: "p \<notin> set (qs i)" if "i < 5" for i using p(2) in_queuesI that by blast
  have ab: "qs 4 = as @ bs" by (simp add: as_def bs_def)
  have c: "chain (next_ready s) (cfs_queue s) (as @ bs)" using sched_rep_chain [OF rep] ab by simp
  have nr1: "next_ready ?s1 = next_ready s" by auto
  have vr1: "p_vruntime (procs ?s1 q) = ?vr q" for q by auto
  have srt: "sorted_wrt (\<lambda>p q. ?vr p \<le> ?vr q) (as @ bs)" using rep ab by (simp add: sched_rep_def)
  have w: "walk (\<lambda>q. \<not> p_vruntime (procs ?s1 q) \<le> p_vruntime (procs ?s1 p)) (next_ready ?s1) 0 (cfs_queue ?s1) =
      Some (last0 as, hd0 bs)"
    unfolding vr1 nr1 using walk_chain [OF sched_rep_chain [OF rep], of "\<lambda>q. \<not> ?vr q \<le> ?vr p" 0]
    by (simp add: as_def bs_def last0_def)
  let ?s2 = "upd_proc p (\<lambda>x. x\<lparr>p_next_ready := hd0 bs\<rparr>) ?s1"
  let ?s' = "if as = [] then ?s2\<lparr>cfs_queue := p\<rparr> else upd_proc (last as) (\<lambda>x. x\<lparr>p_next_ready := p\<rparr>) ?s2"
  have "last as \<noteq> 0" if "as \<noteq> []" using chain_nonzero [OF c] last_in_set [OF that] by auto
  then have e: "enqueue_task_fair p s = Some ?s'"
    unfolding enqueue_task_fair_def Let_def w by (auto simp: last0_def)
  have lp: "last as \<noteq> p" if "as \<noteq> []" using pn [of 4] ab last_in_set [OF that] by auto
  have pr: "procs ?s' q = (if q = p then (procs s p)\<lparr>p_state := READY, p_next_ready := hd0 bs\<rparr>
      else (procs s q)\<lparr>p_next_ready := if as \<noteq> [] \<and> q = last as then p else next_ready s q\<rparr>)" for q
    using lp by auto
  have nr': "next_ready ?s' = (if as = [] then (next_ready s)(p := hd0 bs) else (next_ready s)(p := hd0 bs, last as := p))"
    unfolding pr using lp by auto
  have chain': "chain (next_ready ?s') (cfs_queue ?s') (as @ p # bs)"
    unfolding nr' using chain_insert [OF c p(1)] pn [of 4] ab by auto
  have "?vr q \<le> ?vr p" if "q \<in> set as" for q using that unfolding as_def by (auto dest: set_takeWhileD)
  moreover have "?vr p \<le> ?vr q" if q: "q \<in> set bs" for q
  proof -
    obtain b bs' where b: "bs = b # bs'" using q by (cases bs) auto
    have "\<not> ?vr b \<le> ?vr p" using b unfolding bs_def dropWhile_eq_Cons_conv by blast
    moreover have "?vr b \<le> ?vr q" using srt b q by (auto simp: sorted_wrt_append)
    ultimately show ?thesis by simp
  qed
  ultimately have "sorted_wrt (\<lambda>p q. ?vr p \<le> ?vr q) (as @ p # bs)"
    using srt by (auto simp: sorted_wrt_append)
  moreover have "p_vruntime (procs ?s' q) = ?vr q" for q unfolding pr by simp
  ultimately have sorted': "sorted_wrt (\<lambda>p q. p_vruntime (procs ?s' p) \<le> p_vruntime (procs ?s' q)) (as @ p # bs)"
    by (simp only:)
  have other: "procs ?s' q = procs s q \<and> q \<notin> set (as @ p # bs)" if "q \<in> set (qs i)" "i < 5" "i \<noteq> 4" for q i
  proof -
    have "q \<notin> set (as @ bs)" using sched_rep_disjoint [OF rep that(2) _ that(3,1)] ab by simp
    moreover from this have "as = [] \<or> q \<noteq> last as" using last_in_set [of as] by auto
    ultimately show ?thesis unfolding pr using pn [OF that(2)] that(1) by auto
  qed
  have "sched_rep ?s' (qs(4 := as @ p # bs))"
  proof (rule sched_rep_change [OF rep])
    show "next_ready ?s' q = next_ready s q \<and> p_state (procs ?s' q) = READY \<and>
        p_vruntime (procs ?s' q) = p_vruntime (procs s q) \<and> q \<notin> set (as @ p # bs)"
      if "i < 5" "i \<noteq> 4" "q \<in> set (qs i)" for i q
      using other [OF that(3,1,2)] sched_rep_ready [OF rep that(1,3)] by simp
    show "p_state (procs ?s' q) = READY" if "q \<in> set (as @ p # bs)" for q
      unfolding pr using that sched_rep_ready [OF rep, of 4 q] ab by auto
  qed (use chain' sorted' in simp_all)
  moreover have "unlinked (procs ?s' q) = unlinked (if q = p then (procs s p)\<lparr>p_state := READY\<rparr> else procs s q)" for q
    unfolding pr by (simp add: unlinked_def)
  ultimately show ?thesis using e by (intro exI [of _ ?s']) auto
qed

lemma find_append: "find P (xs @ ys) = (case find P xs of None \<Rightarrow> find P ys | Some x \<Rightarrow> Some x)"
  by (induction xs) auto

lemma pick_mlfq_rep:
  assumes rep: "sched_rep s qs"
  shows "case find (\<lambda>i. qs i \<noteq> []) [0..<4] of
      None \<Rightarrow> pick_next_task_mlfq s = (s, 0)
    | Some i \<Rightarrow> \<exists>s'. pick_next_task_mlfq s = (s', hd (qs i)) \<and> sched_rep s' (qs(i := tl (qs i))) \<and>
        procs s' = (procs s)(hd (qs i) := (procs s (hd (qs i)))\<lparr>p_next_ready := 0\<rparr>) \<and> sched.more s' = sched.more s"
proof -
  have eq: "find (\<lambda>i. mlfq_queues s i \<noteq> 0) [0..<MLFQ_LEVELS] = find (\<lambda>i. qs i \<noteq> []) [0..<4]"
    unfolding MLFQ_LEVELS_def by (rule find_cong) (use fifo_tail(2) [OF sched_rep_fifo [OF rep]] in auto)
  show ?thesis
  proof (cases "find (\<lambda>i. qs i \<noteq> []) [0..<4]")
    case None
    then show ?thesis using eq by (simp add: pick_next_task_mlfq_def)
  next
    case (Some i)
    then have i: "i < 4" "qs i \<noteq> []" by (auto simp: find_Some_iff)
    then obtain x xs where q: "qs i = x # xs" by (cases "qs i") auto
    have f: "fifo (next_ready s) (mlfq_queues s i) (mlfq_tails s i) (x # xs)" using sched_rep_fifo [OF rep i(1)] q by simp
    note pop = fifo_pop [OF f]
    have x: "x \<notin> set xs" using sched_rep_distinct [OF rep, of i] i q by simp
    define s' where "s' = upd_proc x (\<lambda>y. y\<lparr>p_next_ready := 0\<rparr>) (s\<lparr>mlfq_queues := (mlfq_queues s)(i := next_ready s x),
      mlfq_tails := (if next_ready s x = 0 then (mlfq_tails s)(i := 0) else mlfq_tails s)\<rparr>)"
    have e: "pick_next_task_mlfq s = (s', x)"
      using Some eq pop(1) by (simp add: pick_next_task_mlfq_def s'_def Let_def upd_proc_def)
    have "next_ready s' = (next_ready s)(x := 0)" by (auto simp: s'_def)
    then have new: "fifo (next_ready s') (mlfq_queues s' i) (mlfq_tails s' i) xs"
      using pop(2) x by (subst fifo_cong [where nxt = "next_ready s"]) (auto simp: s'_def)
    have "sched_rep s' (qs(i := xs))"
    proof (rule sched_rep_change [OF rep])
      show "next_ready s' q = next_ready s q \<and> p_state (procs s' q) = READY \<and>
          p_vruntime (procs s' q) = p_vruntime (procs s q) \<and> q \<notin> set xs"
        if "j < 5" "j \<noteq> i" "q \<in> set (qs j)" for j q
        using sched_rep_disjoint [OF rep that(1) _ that(2,3)] sched_rep_ready [OF rep that(1,3)] i q by (auto simp: s'_def)
      show "p_state (procs s' y) = READY" if "y \<in> set xs" for y
        using that sched_rep_ready [OF rep, of i y] i q by (auto simp: s'_def)
    qed (use i new in \<open>auto simp: s'_def\<close>)
    with e q Some show ?thesis by (auto simp: s'_def)
  qed
qed

lemma pick_fair_rep:
  assumes rep: "sched_rep s qs"
  shows "if qs 4 = [] then pick_next_task_fair s = (s, 0)
    else \<exists>s'. pick_next_task_fair s = (s', hd (qs 4)) \<and> sched_rep s' (qs(4 := tl (qs 4))) \<and>
        procs s' = (procs s)(hd (qs 4) := (procs s (hd (qs 4)))\<lparr>p_next_ready := 0\<rparr>) \<and> sched.more s' = sched.more s"
proof (cases "qs 4")
  case Nil
  then show ?thesis using sched_rep_chain [OF rep] by (simp add: pick_next_task_fair_def)
next
  case (Cons x xs)
  have c: "cfs_queue s = x" "x \<noteq> 0" "chain (next_ready s) (next_ready s x) xs"
    using sched_rep_chain [OF rep] Cons by auto
  have x: "x \<notin> set xs" using sched_rep_distinct [OF rep, of 4] Cons by simp
  define s' where "s' = upd_proc x (\<lambda>y. y\<lparr>p_next_ready := 0\<rparr>) (s\<lparr>cfs_queue := next_ready s x\<rparr>)"
  have e: "pick_next_task_fair s = (s', x)" using c by (simp add: pick_next_task_fair_def s'_def Let_def)
  have "next_ready s' = (next_ready s)(x := 0)" by (auto simp: s'_def)
  then have new: "chain (next_ready s') (cfs_queue s') xs" using c x by (simp add: s'_def)
  have "sorted_wrt (\<lambda>p q. p_vruntime (procs s p) \<le> p_vruntime (procs s q)) xs"
    using rep Cons by (simp add: sched_rep_def)
  moreover have "p_vruntime (procs s' q) = p_vruntime (procs s q)" for q by (simp add: s'_def)
  ultimately have srt: "sorted_wrt (\<lambda>p q. p_vruntime (procs s' p) \<le> p_vruntime (procs s' q)) xs" by simp
  have "sched_rep s' (qs(4 := xs))"
  proof (rule sched_rep_change [OF rep])
    show "next_ready s' q = next_ready s q \<and> p_state (procs s' q) = READY \<and>
        p_vruntime (procs s' q) = p_vruntime (procs s q) \<and> q \<notin> set xs"
      if "j < 5" "j \<noteq> 4" "q \<in> set (qs j)" for j q
      using sched_rep_disjoint [OF rep that(1) _ that(2,3)] sched_rep_ready [OF rep that(1,3)] Cons by (auto simp: s'_def)
    show "p_state (procs s' y) = READY" if "y \<in> set xs" for y
      using that sched_rep_ready [OF rep, of 4 y] Cons by (auto simp: s'_def)
  qed (use new srt in \<open>auto simp: s'_def\<close>)
  with e Cons show ?thesis by (auto simp: s'_def)
qed

lemma in_queues_split: "i < 5 \<Longrightarrow> in_queues qs = set (qs i) \<union> (\<Union>j\<in>{..<5} - {i}. set (qs j))"
  unfolding in_queues_def by auto

lemma in_queues_upd: "i < 5 \<Longrightarrow> (\<And>j. j < 5 \<Longrightarrow> j \<noteq> i \<Longrightarrow> x \<notin> set (qs j)) \<Longrightarrow> set (qs i) = insert x (set xs) \<Longrightarrow>
    x \<notin> set xs \<Longrightarrow> in_queues (qs(i := xs)) = in_queues qs - {x}"
  by (subst (1 2) in_queues_split [of i]) auto

lemma in_queues_add: "i < 5 \<Longrightarrow> set xs = insert x (set (qs i)) \<Longrightarrow> in_queues (qs(i := xs)) = insert x (in_queues qs)"
  unfolding in_queues_def by (auto split: if_splits)

lemma in_queues_enqueue:
  "in_queues (list_enqueue x vr p qs) = (if p_sched_class x = No_class then in_queues qs else insert p (in_queues qs))"
proof (cases "p_sched_class x")
  case Mlfq_class
  have "mlfq_level (p_priority x) < 5" using mlfq_level_less [of "p_priority x"] by simp
  then show ?thesis using Mlfq_class by (simp add: list_enqueue_def in_queues_add)
next
  case Fair_class
  have "set (takeWhile P ys @ p # dropWhile P ys) = insert p (set ys)" for P ys
    using set_append [of "takeWhile P ys" "dropWhile P ys"] by simp
  then show ?thesis using Fair_class by (simp add: list_enqueue_def in_queues_add)
qed (simp add: list_enqueue_def)

lemma ready_upd: "p_state x = READY \<Longrightarrow> x\<lparr>p_state := READY\<rparr> = x"
  by (cases x) simp

lemma enqueue_process_rep:
  assumes rep: "sched_rep s qs" and p: "p \<noteq> 0" "p \<notin> in_queues qs" and st: "p_state (procs s p) = READY"
  shows "\<exists>s'. enqueue_process p s = Some s' \<and>
    sched_rep s' (list_enqueue (procs s p) (\<lambda>q. p_vruntime (procs s q)) p qs) \<and>
    (\<forall>q. unlinked (procs s' q) = unlinked (procs s q)) \<and> sched.more s' = sched.more s"
proof (cases "p_sched_class (procs s p)")
  case No_class
  then show ?thesis using rep st by (simp add: enqueue_process_def list_enqueue_def)
next
  case Mlfq_class
  have "unlinked (procs (enqueue_task_mlfq p s) q) = unlinked (procs s q)" for q
    using st by (simp add: enqueue_task_mlfq_def Let_def unlinked_def)
  moreover have "sched.more (enqueue_task_mlfq p s) = sched.more s" by (simp add: enqueue_task_mlfq_def Let_def)
  ultimately show ?thesis using Mlfq_class st enqueue_mlfq_rep [OF rep p] by (simp add: enqueue_process_def list_enqueue_def)
next
  case Fair_class
  have "(if q = p then (procs s p)\<lparr>p_state := READY\<rparr> else procs s q) = procs s q" for q
    using ready_upd [OF st] by simp
  with enqueue_fair_rep [OF rep p] Fair_class st show ?thesis
    by (auto simp: enqueue_process_def list_enqueue_def simp del: if_split)
qed

lemma list_pick_cases:
  obtains "list_pick qs = (qs, 0)" "\<forall>i<5. qs i = []"
  | i where "i < 5" "qs i \<noteq> []" "\<forall>j<i. qs j = []" "list_pick qs = (qs(i := tl (qs i)), hd (qs i))"
proof (cases "find (\<lambda>i. qs i \<noteq> []) [0..<5]")
  case None
  then have "list_pick qs = (qs, 0)" by (simp add: list_pick_def)
  moreover have "\<forall>i<5. qs i = []" using None by (auto simp: find_None_iff)
  ultimately show ?thesis by (rule that(1))
next
  case (Some i)
  then have i: "i < 5" "qs i \<noteq> []" "\<forall>j<i. qs j = []" by (auto simp: find_Some_iff)
  have "list_pick qs = (qs(i := tl (qs i)), hd (qs i))" using Some by (simp add: list_pick_def)
  with i show ?thesis using that(2) by blast
qed

lemma pick_next_task_rep:
  assumes rep: "sched_rep s qs" and lp: "list_pick qs = (qs', p)"
  shows "\<exists>s'. pick_next_task s = (s', p) \<and> sched_rep s' qs' \<and>
    (\<forall>q. unlinked (procs s' q) = unlinked (procs s q)) \<and> sched.more s' = sched.more s"
proof -
  have five: "[0..<5] = [0..<4] @ [4 :: nat]" by (simp add: upt_rec)
  show ?thesis
  proof (cases "find (\<lambda>i. qs i \<noteq> []) [0..<4]")
    case None
    have m: "pick_next_task_mlfq s = (s, 0)" using pick_mlfq_rep [OF rep] None by simp
    have "list_pick qs = (if qs 4 = [] then (qs, 0) else (qs(4 := tl (qs 4)), hd (qs 4)))"
      using None by (simp add: list_pick_def five find_append)
    with m lp pick_fair_rep [OF rep] rep show ?thesis
      by (auto simp: pick_next_task_def unlinked_def split: if_splits)
  next
    case (Some i)
    have "list_pick qs = (qs(i := tl (qs i)), hd (qs i))" using Some by (simp add: list_pick_def five find_append)
    moreover have "i < 5" "qs i \<noteq> []" using Some by (auto simp: find_Some_iff)
    then have "hd (qs i) \<noteq> 0" using sched_rep_nonzero [OF rep] in_queuesI [of i "hd (qs i)" qs] by auto
    ultimately show ?thesis using pick_mlfq_rep [OF rep] Some lp
      by (auto simp: pick_next_task_def unlinked_def)
  qed
qed

lemma dequeue_mlfq_rep:
  fixes p :: u64
  assumes rep: "sched_rep s qs"
  defines "l \<equiv> mlfq_level (p_priority (procs s p))"
  assumes q: "qs l = as @ p # bs"
  shows "\<exists>s'. dequeue_task_mlfq p s = Some s' \<and> sched_rep s' (qs(l := as @ bs))"
proof -
  have l: "l < 4" by (simp add: l_def mlfq_level_less)
  have c: "chain (next_ready s) (mlfq_queues s l) (as @ p # bs)" and t: "mlfq_tails s l = last (p # bs)"
    using sched_rep_fifo [OF rep l] q by (simp_all add: fifo_def last0_def)
  have d: "distinct (as @ p # bs)" using chain_distinct [OF c] .
  have nz: "last as \<noteq> 0" "last as \<noteq> p" if "as \<noteq> []"
    using chain_nonzero [OF c] d last_in_set [OF that] by auto
  have tp: "mlfq_tails s l = p \<longleftrightarrow> bs = []" using t d last_in_set [of bs] by auto
  define s1 where "s1 = (if as = [] then s\<lparr>mlfq_queues := (mlfq_queues s)(l := next_ready s p)\<rparr>
    else upd_proc (last as) (\<lambda>x. x\<lparr>p_next_ready := next_ready s p\<rparr>) s)"
  define s' where "s' = upd_proc p (\<lambda>x. x\<lparr>p_next_ready := 0\<rparr>)
    (if bs = [] then s1\<lparr>mlfq_tails := (mlfq_tails s1)(l := last0 as)\<rparr> else s1)"
  have e: "dequeue_task_mlfq p s = Some s'"
    unfolding dequeue_task_mlfq_def Let_def l_def [symmetric] walk_member [OF c]
    using nz tp chain_nonzero [OF c] by (auto simp: s'_def s1_def last0_def)
  have pr: "procs s' r = (if r = p then (procs s p)\<lparr>p_next_ready := 0\<rparr> else if as \<noteq> [] \<and> r = last as
      then (procs s r)\<lparr>p_next_ready := next_ready s p\<rparr> else procs s r)" for r
    using nz by (auto simp: s'_def s1_def)
  have nr: "next_ready s' = (if as = [] then next_ready s else (next_ready s)(last as := next_ready s p))(p := 0)"
    unfolding pr using nz by auto
  have "mlfq_queues s' l = (if as = [] then next_ready s p else mlfq_queues s l)" "mlfq_tails s' l = last0 (as @ bs)"
    using t tp by (auto simp: s'_def s1_def last0_def)
  then have new: "fifo (next_ready s') (mlfq_queues s' l) (mlfq_tails s' l) (as @ bs)"
    unfolding nr fifo_def using chain_unlink [OF c] by simp
  have "sched_rep s' (qs(l := as @ bs))"
  proof (rule sched_rep_change [OF rep])
    show "next_ready s' r = next_ready s r \<and> p_state (procs s' r) = READY \<and>
        p_vruntime (procs s' r) = p_vruntime (procs s r) \<and> r \<notin> set (as @ bs)"
      if "i < 5" "i \<noteq> l" "r \<in> set (qs i)" for i r
    proof -
      have "r \<notin> set (as @ p # bs)" using sched_rep_disjoint [OF rep that(1) _ that(2,3)] l q by simp
      then show ?thesis unfolding pr using sched_rep_ready [OF rep that(1,3)] last_in_set [of as] by auto
    qed
    show "p_state (procs s' r) = READY" if "r \<in> set (as @ bs)" for r
      unfolding pr using that sched_rep_ready [OF rep, of l r] l q by auto
  qed (use l new in \<open>auto simp: s'_def s1_def\<close>)
  with e show ?thesis by blast
qed

lemma dequeue_fair_rep:
  assumes rep: "sched_rep s qs" and q: "qs 4 = as @ p # bs"
  shows "\<exists>s'. dequeue_task_fair p s = Some s' \<and> sched_rep s' (qs(4 := as @ bs))"
proof -
  have c: "chain (next_ready s) (cfs_queue s) (as @ p # bs)" using sched_rep_chain [OF rep] q by simp
  have d: "distinct (as @ p # bs)" using chain_distinct [OF c] .
  have nz: "last as \<noteq> 0" "last as \<noteq> p" if "as \<noteq> []"
    using chain_nonzero [OF c] d last_in_set [OF that] by auto
  define s' where "s' = upd_proc p (\<lambda>x. x\<lparr>p_next_ready := 0\<rparr>)
    (if as = [] then s\<lparr>cfs_queue := next_ready s p\<rparr> else upd_proc (last as) (\<lambda>x. x\<lparr>p_next_ready := next_ready s p\<rparr>) s)"
  have e: "dequeue_task_fair p s = Some s'"
    unfolding dequeue_task_fair_def Let_def walk_member [OF c]
    using nz chain_nonzero [OF c] by (auto simp: s'_def last0_def)
  have pr: "procs s' r = (if r = p then (procs s p)\<lparr>p_next_ready := 0\<rparr> else if as \<noteq> [] \<and> r = last as
      then (procs s r)\<lparr>p_next_ready := next_ready s p\<rparr> else procs s r)" for r
    using nz by (auto simp: s'_def)
  have nr: "next_ready s' = (if as = [] then next_ready s else (next_ready s)(last as := next_ready s p))(p := 0)"
    unfolding pr using nz by auto
  have vr: "p_vruntime (procs s' r) = p_vruntime (procs s r)" for r unfolding pr by simp
  have "cfs_queue s' = (if as = [] then next_ready s p else cfs_queue s)" by (simp add: s'_def)
  then have new: "chain (next_ready s') (cfs_queue s') (as @ bs)" unfolding nr using chain_unlink [OF c] by simp
  have srt: "sorted_wrt (\<lambda>p q. p_vruntime (procs s' p) \<le> p_vruntime (procs s' q)) (as @ bs)"
    unfolding vr using rep q by (auto simp: sched_rep_def sorted_wrt_append)
  have "sched_rep s' (qs(4 := as @ bs))"
  proof (rule sched_rep_change [OF rep])
    show "next_ready s' r = next_ready s r \<and> p_state (procs s' r) = READY \<and>
        p_vruntime (procs s' r) = p_vruntime (procs s r) \<and> r \<notin> set (as @ bs)"
      if "i < 5" "i \<noteq> 4" "r \<in> set (qs i)" for i r
    proof -
      have "r \<notin> set (as @ p # bs)" using sched_rep_disjoint [OF rep that(1) _ that(2,3)] q by simp
      then show ?thesis unfolding pr using sched_rep_ready [OF rep that(1,3)] last_in_set [of as] by auto
    qed
    show "p_state (procs s' r) = READY" if "r \<in> set (as @ bs)" for r
      unfolding pr using that sched_rep_ready [OF rep, of 4 r] q by auto
  qed (use new srt in \<open>auto simp: s'_def\<close>)
  with e show ?thesis by blast
qed

text \<open>The processes in the ready queues.\<close>

definition sched_ok :: "'a sched_scheme \<Rightarrow> bool" where
  "sched_ok s \<longleftrightarrow> (\<exists>qs. sched_rep s qs)"

definition ready_tasks :: "'a sched_scheme \<Rightarrow> u64 set" where
  "ready_tasks s = {p. \<exists>qs. sched_rep s qs \<and> p \<in> in_queues qs}"

lemma sched_rep_unique: "sched_rep s qs \<Longrightarrow> sched_rep s qs' \<Longrightarrow> i < 5 \<Longrightarrow> qs i = qs' i"
proof -
  assume r: "sched_rep s qs" "sched_rep s qs'" and "i < 5"
  then consider "i < 4" | "i = 4" by linarith
  then show "qs i = qs' i"
  proof cases
    case 1
    then show ?thesis using sched_rep_fifo [OF r(1)] sched_rep_fifo [OF r(2)] chain_unique unfolding fifo_def by blast
  next
    case 2
    then show ?thesis using sched_rep_chain [OF r(1)] sched_rep_chain [OF r(2)] chain_unique by blast
  qed
qed

lemma ready_tasks_rep: "sched_rep s qs \<Longrightarrow> ready_tasks s = in_queues qs"
proof -
  assume rep: "sched_rep s qs"
  have "in_queues qs' = in_queues qs" if "sched_rep s qs'" for qs'
    unfolding in_queues_def by (rule SUP_cong) (use sched_rep_unique [OF that rep] in simp_all)
  with rep show ?thesis unfolding ready_tasks_def by blast
qed

lemma in_queues_pick:
  assumes rep: "sched_rep s qs" and lp: "list_pick qs = (qs', p)"
  shows "in_queues qs = {} \<and> p = 0 \<and> qs' = qs \<or> p \<noteq> 0 \<and> p \<in> in_queues qs \<and> in_queues qs' = in_queues qs - {p}"
proof (rule list_pick_cases [of qs])
  assume "list_pick qs = (qs, 0)" "\<forall>i<5. qs i = []"
  then show ?thesis using lp by (auto simp: in_queues_def)
next
  fix i assume i: "i < 5" "qs i \<noteq> []" "list_pick qs = (qs(i := tl (qs i)), hd (qs i))"
  then have p: "p = hd (qs i)" "qs' = qs(i := tl (qs i))" "qs i = p # tl (qs i)" using lp by simp_all
  have "p \<in> in_queues qs" using in_queuesI [OF i(1), of p qs] p(1) i(2) by simp
  moreover have "in_queues qs' = in_queues qs - {p}" unfolding p(2)
  proof (rule in_queues_upd [OF i(1)])
    show "p \<notin> set (qs j)" if "j < 5" "j \<noteq> i" for j
      using sched_rep_disjoint [OF rep i(1) that(1)] that(2) p(1) i(2) by auto
    show "set (qs i) = insert p (set (tl (qs i)))" using p(3) by (metis list.simps(15))
    show "p \<notin> set (tl (qs i))" using sched_rep_distinct [OF rep i(1)] p(3) by (metis distinct.simps(2))
  qed
  moreover have "p \<noteq> 0" using calculation(1) sched_rep_nonzero [OF rep] by blast
  ultimately show ?thesis by simp
qed

interpretation ready: run_queue enqueue_process pick_next_task sched_ok ready_tasks
  "\<lambda>p s. p \<noteq> 0 \<and> p_state (procs s p) = READY \<and> p_sched_class (procs s p) \<noteq> No_class"
proof
  fix s s' :: "'a sched_scheme" and p :: u64
  assume "sched_ok s"
  then obtain qs where rep: "sched_rep s qs" by (auto simp: sched_ok_def)
  note rt = ready_tasks_rep [OF rep]
  show "finite (ready_tasks s)" by (simp add: rt in_queues_def)
  obtain qs' q where lp: "list_pick qs = (qs', q)" by fastforce
  obtain s1 where s1: "pick_next_task s = (s1, q)" "sched_rep s1 qs'" using pick_next_task_rep [OF rep lp] by blast
  note q = in_queues_pick [OF rep lp]
  show "pick_next_task s = (s, 0)" if "ready_tasks s = {}"
  proof -
    have e: "\<forall>i<5. qs i = []" using that rt by (auto simp: in_queues_def)
    then have "find (\<lambda>i. qs i \<noteq> []) [0..<4] = None" by (auto simp: find_None_iff)
    with e pick_mlfq_rep [OF rep] pick_fair_rep [OF rep] show ?thesis by (simp add: pick_next_task_def)
  qed
  show "p \<noteq> 0 \<and> p \<in> ready_tasks s \<and> sched_ok s' \<and> ready_tasks s' = ready_tasks s - {p}"
    if "ready_tasks s \<noteq> {}" "pick_next_task s = (s', p)"
    using that q s1 rt ready_tasks_rep [OF s1(2)] by (auto simp: sched_ok_def)
  assume r: "p \<noteq> 0 \<and> p_state (procs s p) = READY \<and> p_sched_class (procs s p) \<noteq> No_class" "p \<notin> ready_tasks s"
  obtain s2 where s2: "enqueue_process p s = Some s2"
    "sched_rep s2 (list_enqueue (procs s p) (\<lambda>q. p_vruntime (procs s q)) p qs)"
    using enqueue_process_rep [OF rep] r rt by blast
  then show "\<exists>s'. enqueue_process p s = Some s' \<and> sched_ok s' \<and> ready_tasks s' = insert p (ready_tasks s)"
    using ready_tasks_rep [OF s2(2)] rt r(1) by (auto simp: sched_ok_def in_queues_enqueue)
qed

section \<open>Properties\<close>

text \<open>
  C29. The two scheduling classes implement four first-in first-out lists and one list ordered by virtual run
  time, although all of them share one link field. \<open>enqueue_process\<close> returns and puts a ready process at the end
  of its feedback level, or in the fair list behind every process that has not run longer; choosing the next
  process takes the head of the first list that is not empty, the fair list last; removing a process takes
  it out of its list; and each of them leaves the other lists as they are.
\<close>
theorem ready_queues_refine:
  assumes "sched_rep s qs"
  shows "(p \<noteq> 0 \<longrightarrow> p \<notin> in_queues qs \<longrightarrow> p_state (procs s p) = READY \<longrightarrow>
      (\<exists>s'. enqueue_process p s = Some s' \<and>
        sched_rep s' (list_enqueue (procs s p) (\<lambda>q. p_vruntime (procs s q)) p qs))) \<and>
    (\<exists>s'. pick_next_task s = (s', snd (list_pick qs)) \<and> sched_rep s' (fst (list_pick qs))) \<and>
    (\<forall>l as bs. l = mlfq_level (p_priority (procs s p)) \<longrightarrow> qs l = as @ p # bs \<longrightarrow>
      (\<exists>s'. dequeue_task_mlfq p s = Some s' \<and> sched_rep s' (qs(l := as @ bs)))) \<and>
    (\<forall>as bs. qs 4 = as @ p # bs \<longrightarrow> (\<exists>s'. dequeue_task_fair p s = Some s' \<and> sched_rep s' (qs(4 := as @ bs))))"
proof (intro conjI impI allI)
  show "\<exists>s'. enqueue_process p s = Some s' \<and> sched_rep s' (list_enqueue (procs s p) (\<lambda>q. p_vruntime (procs s q)) p qs)"
    if "p \<noteq> 0" "p \<notin> in_queues qs" "p_state (procs s p) = READY"
    using enqueue_process_rep [OF assms that] by metis
  show "\<exists>s'. pick_next_task s = (s', snd (list_pick qs)) \<and> sched_rep s' (fst (list_pick qs))"
    using pick_next_task_rep [OF assms surjective_pairing] by metis
qed (use dequeue_mlfq_rep [OF assms] dequeue_fair_rep [OF assms] in simp_all)

text \<open>
  C30. No ready process is forgotten: a process that \<open>enqueue_process\<close> puts into the ready queues is returned by
  one of the following picks, after at most as many others as were queued before it.
\<close>
theorem enqueued_process_is_picked:
  assumes "sched_ok s" and "p \<noteq> 0" and "p_state (procs s p) = READY" and "p_sched_class (procs s p) \<noteq> No_class"
    and "p \<notin> ready_tasks s"
  shows "\<exists>s'. enqueue_process p s = Some s' \<and>
    (\<exists>n \<le> card (ready_tasks s). snd (pick_next_task (((fst \<circ> pick_next_task) ^^ n) s')) = p)"
proof -
  have r: "p \<noteq> 0 \<and> p_state (procs s p) = READY \<and> p_sched_class (procs s p) \<noteq> No_class" using assms by simp
  obtain s' where "enqueue_process p s = Some s'" using ready.enqueue_adds [OF assms(1) r assms(5)] by metis
  with ready.enqueued_picked [OF assms(1) r assms(5) this] show ?thesis by simp
qed

section \<open>Witnesses\<close>

definition demo_sched :: sched where
  "demo_sched = \<lparr>procs = (\<lambda>_. zero_process)(0x100 := zero_process\<lparr>p_sched_class := Mlfq_class, p_priority := 2\<rparr>,
       0x200 := zero_process\<lparr>p_sched_class := Fair_class, p_vruntime := 5\<rparr>),
     mlfq_queues = (\<lambda>_. 0)(2 := 0x100), mlfq_tails = (\<lambda>_. 0)(2 := 0x100), cfs_queue = 0\<rparr>"

lemma demo_sched_rep: "sched_rep demo_sched ((\<lambda>_. [])(2 := [0x100]))"
  by (auto simp: sched_rep_def demo_sched_def fifo_def zero_process_def)

lemma demo_in_queues: "in_queues ((\<lambda>_. [])(2 := [0x100])) = {0x100}"
  by (auto simp: in_queues_def)

theorem ready_queues_refine_witness:
  "\<exists>s'. enqueue_process 0x200 demo_sched = Some s' \<and> sched_rep s' ((\<lambda>_. [])(2 := [0x100], 4 := [0x200]))"
proof -
  have "list_enqueue (procs demo_sched 0x200) vr 0x200 ((\<lambda>_. [])(2 := [0x100])) = (\<lambda>_. [])(2 := [0x100], 4 := [0x200])" for vr
    by (simp add: list_enqueue_def demo_sched_def)
  then show ?thesis using ready_queues_refine [OF demo_sched_rep, of "0x200"] unfolding demo_in_queues
    by (simp add: demo_sched_def zero_process_def)
qed

theorem enqueued_process_is_picked_witness:
  "\<exists>s'. enqueue_process 0x200 demo_sched = Some s' \<and>
    (\<exists>n \<le> 1. snd (pick_next_task (((fst \<circ> pick_next_task) ^^ n) s')) = 0x200)"
proof -
  have "sched_ok demo_sched" "ready_tasks demo_sched = {0x100}"
    using demo_sched_rep ready_tasks_rep [OF demo_sched_rep] demo_in_queues by (auto simp: sched_ok_def)
  with enqueued_process_is_picked [of demo_sched "0x200"] show ?thesis by (simp add: demo_sched_def zero_process_def)
qed

end
