(* ===== verification/Pmm.thy ===== *)
theory Pmm
  imports Interfaces
begin

text \<open>
  The physical page frame allocator, \<^verbatim>\<open>kernel/memory/pmm.c\<close>. One bit per 4096-byte
  frame, set when the frame is in use. The bitmap is raw memory behind a pointer: it is
  modelled as a function from byte offsets to bytes, so that an index beyond
  \<open>bitmap_size\<close> reads and writes some other byte, as it does in C.
\<close>

section \<open>State and operations\<close>

record pmm =
  bitmap :: "u64 \<Rightarrow> u8"
  total_pages :: u64
  bitmap_size :: u64
  highest_addr :: u64
  free_memory :: u64
  last_free_index :: u64

definition PAGE_SIZE :: u64 where
  "PAGE_SIZE = 4096"

definition pmm_set_bit :: "pmm \<Rightarrow> u64 \<Rightarrow> pmm" where
  "pmm_set_bit s b =
     s\<lparr>bitmap := (bitmap s)(b div 8 := bitmap s (b div 8) OR push_bit (unat (b mod 8)) 1)\<rparr>"

definition pmm_clear_bit :: "pmm \<Rightarrow> u64 \<Rightarrow> pmm" where
  "pmm_clear_bit s b =
     s\<lparr>bitmap := (bitmap s)(b div 8 := bitmap s (b div 8) AND NOT (push_bit (unat (b mod 8)) 1))\<rparr>"

definition pmm_test_bit :: "pmm \<Rightarrow> u64 \<Rightarrow> bool" where
  "pmm_test_bit s b \<longleftrightarrow> bitmap s (b div 8) AND push_bit (unat (b mod 8)) 1 \<noteq> 0"

definition pmm_get_total_memory :: "pmm \<Rightarrow> u64" where
  "pmm_get_total_memory s = highest_addr s"

definition pmm_get_free_memory :: "pmm \<Rightarrow> u64" where
  "pmm_get_free_memory s = free_memory s"

definition pmm_find_first_free :: "pmm \<Rightarrow> pmm \<times> u64" where
  "pmm_find_first_free s =
     (case for_find (\<lambda>i. \<not> pmm_test_bit s i) (last_free_index s) (total_pages s) of
        Some i \<Rightarrow> (s\<lparr>last_free_index := i\<rparr>, i)
      | None \<Rightarrow>
          (case for_find (\<lambda>i. \<not> pmm_test_bit s i) 0 (last_free_index s) of
             Some i \<Rightarrow> (s\<lparr>last_free_index := i\<rparr>, i)
           | None \<Rightarrow> (s, - 1)))"


text \<open>
  \<open>pmm_alloc_page\<close> retries once frame 0 has been marked; the bit it has just set is what
  makes the retry end. The console warning above 3 GB has no effect on the result.
\<close>

lemma pmm_test_bit_alt: "pmm_test_bit s b \<longleftrightarrow> bit (bitmap s (b div 8)) (unat (b mod 8))"
  by (simp add: pmm_test_bit_def and_exp_eq_0)

lemma unat_mod_8_less: "unat (b mod 8 :: u64) < 8"
  by (simp add: unat_mod)

lemma pmm_test_set_bit [simp]: "pmm_test_bit (pmm_set_bit s a) b \<longleftrightarrow> a = b \<or> pmm_test_bit s b"
proof -
  have "b div 8 = a div 8 \<Longrightarrow> unat (b mod 8) = unat (a mod 8) \<Longrightarrow> a = b"
    by (metis unat_eqI word_div_mod_eqI)
  then show ?thesis
    by (auto simp: pmm_test_bit_alt pmm_set_bit_def bit_or_exp unat_mod_8_less)
qed

lemma pmm_test_clear_bit [simp]:
  "pmm_test_bit (pmm_clear_bit s a) b \<longleftrightarrow> a \<noteq> b \<and> pmm_test_bit s b"
proof -
  have "b div 8 = a div 8 \<Longrightarrow> unat (b mod 8) = unat (a mod 8) \<Longrightarrow> a = b"
    by (metis unat_eqI word_div_mod_eqI)
  then show ?thesis
    by (auto simp: pmm_test_bit_alt pmm_clear_bit_def bit_and_not_exp)
qed

lemma pmm_bit_fields [simp, pmm_simps]:
  "total_pages (pmm_set_bit s b) = total_pages s" "total_pages (pmm_clear_bit s b) = total_pages s"
  "last_free_index (pmm_set_bit s b) = last_free_index s"
  "last_free_index (pmm_clear_bit s b) = last_free_index s"
  "free_memory (pmm_set_bit s b) = free_memory s" "free_memory (pmm_clear_bit s b) = free_memory s"
  "highest_addr (pmm_set_bit s b) = highest_addr s" "highest_addr (pmm_clear_bit s b) = highest_addr s"
  "bitmap_size (pmm_set_bit s b) = bitmap_size s" "bitmap_size (pmm_clear_bit s b) = bitmap_size s"
  by (simp_all add: pmm_set_bit_def pmm_clear_bit_def)

lemma pmm_test_bit_fields [simp, pmm_simps]:
  "pmm_test_bit (s\<lparr>last_free_index := i\<rparr>) b = pmm_test_bit s b"
  "pmm_test_bit (s\<lparr>free_memory := f\<rparr>) b = pmm_test_bit s b"
  by (simp_all add: pmm_test_bit_def)

lemma pmm_find_first_free_zero:
  "pmm_find_first_free s = (s', 0) \<Longrightarrow> bitmap s' = bitmap s \<and> \<not> pmm_test_bit s 0"
  by (auto simp: pmm_find_first_free_def for_find_Some split: option.splits)

function pmm_alloc_page :: "pmm \<Rightarrow> pmm \<times> u64" where
  "pmm_alloc_page s =
     (let (s1, b) = pmm_find_first_free s in
      if b = - 1 then (s1, 0)
      else if b = 0 then pmm_alloc_page (pmm_set_bit s1 0)
      else
        (let s2 = pmm_set_bit s1 b in
         (s2\<lparr>free_memory := free_memory s2 - PAGE_SIZE\<rparr>, b * PAGE_SIZE)))"
  by pat_completeness auto
termination
  by (relation "measure (\<lambda>s. if pmm_test_bit s 0 then 0 else 1)")
    (auto dest!: pmm_find_first_free_zero [OF sym])

declare pmm_alloc_page.simps [simp del]

text \<open>
  \<open>pmm_alloc_pages\<close>: the inner loop looks for a used frame in the window at \<open>i\<close>; the next
  window starts behind it. The bound \<open>total_pages - count\<close> wraps when \<open>count\<close> exceeds
  \<open>total_pages\<close>, so that the outer loop need not end: its result is an option, \<open>None\<close> when
  it does not return.
\<close>

definition pmm_set_range :: "pmm \<Rightarrow> u64 \<Rightarrow> u64 \<Rightarrow> pmm" where
  "pmm_set_range s i count = for_upto (\<lambda>j s. pmm_set_bit s (i + j)) 0 count s"

partial_function (option) pmm_alloc_loop :: "pmm \<Rightarrow> u64 \<Rightarrow> u64 \<Rightarrow> (pmm \<times> u64) option" where
  "pmm_alloc_loop s count i =
     (if i \<le> total_pages s - count then
        (case for_find (\<lambda>j. pmm_test_bit s (i + j)) 0 count of
           Some j \<Rightarrow> pmm_alloc_loop s count (i + j + 1)
         | None \<Rightarrow>
             (let s1 = pmm_set_range s i count in
              Some (s1\<lparr>free_memory := free_memory s1 - count * PAGE_SIZE\<rparr>, i * PAGE_SIZE)))
      else Some (s, 0))"

declare pmm_alloc_loop.simps [code]

definition pmm_alloc_pages :: "pmm \<Rightarrow> u64 \<Rightarrow> (pmm \<times> u64) option" where
  "pmm_alloc_pages s count = (if count = 0 then Some (s, 0) else pmm_alloc_loop s count 0)"

definition pmm_free_page :: "pmm \<Rightarrow> u64 \<Rightarrow> pmm" where
  "pmm_free_page s a =
     (let b = a div PAGE_SIZE in
      if b < total_pages s then
        (let s1 = pmm_clear_bit s b;
             s2 = s1\<lparr>free_memory := free_memory s1 + PAGE_SIZE\<rparr> in
         if b < last_free_index s2 then s2\<lparr>last_free_index := b\<rparr> else s2)
      else s)"

definition pmm_clear_range :: "pmm \<Rightarrow> u64 \<Rightarrow> u64 \<Rightarrow> pmm" where
  "pmm_clear_range s start count =
     for_upto (\<lambda>i s. if start + i < total_pages s then pmm_clear_bit s (start + i) else s) 0 count s"

definition pmm_free_pages :: "pmm \<Rightarrow> u64 \<Rightarrow> u64 \<Rightarrow> pmm" where
  "pmm_free_pages s a count =
     (let start = a div PAGE_SIZE;
          s1 = pmm_clear_range s start count;
          s2 = s1\<lparr>free_memory := free_memory s1 + count * PAGE_SIZE\<rparr> in
      if start < last_free_index s2 then s2\<lparr>last_free_index := start\<rparr> else s2)"

section \<open>Free frames and the accounting invariant\<close>

definition free_frames :: "pmm \<Rightarrow> u64 set" where
  "free_frames s = {i. i < total_pages s \<and> \<not> pmm_test_bit s i}"

definition pmm_ok :: "pmm \<Rightarrow> bool" where
  "pmm_ok s \<longleftrightarrow>
     unat (total_pages s) \<le> 2 ^ 20 \<and> pmm_test_bit s 0 \<and> last_free_index s \<le> total_pages s \<and>
     unat (free_memory s) = 4096 * card (free_frames s)"

lemma free_frames_card_le: "card (free_frames s) \<le> unat (total_pages s)"
proof -
  have "card (free_frames s) \<le> card {i. i < total_pages s}"
    by (rule card_mono) (auto simp: free_frames_def)
  then show ?thesis by (simp add: card_word_lessThan)
qed

lemma pmm_find_first_free_Some:
  assumes "pmm_find_first_free s = (s', b)" and "b \<noteq> - 1"
  shows "\<not> pmm_test_bit s b \<and> s' = s\<lparr>last_free_index := b\<rparr> \<and> (b < total_pages s \<or> b < last_free_index s)"
  using assms by (auto simp: pmm_find_first_free_def for_find_Some split: option.splits)

lemma pmm_find_first_free_None:
  assumes "pmm_find_first_free s = (s', - 1)" and "pmm_ok s"
  shows "s' = s \<and> free_frames s = {}"
proof -
  have "total_pages s \<le> 2 ^ 20"
    using assms(2) by (simp add: pmm_ok_def word_le_nat_alt)
  then have lt: "\<not> (- 1 :: u64) < total_pages s"
    by auto
  have le: "last_free_index s \<le> total_pages s"
    using assms(2) by (simp add: pmm_ok_def)
  have no: "for_find (\<lambda>i. \<not> pmm_test_bit s i) a (total_pages s) \<noteq> Some (- 1)" "for_find (\<lambda>i. \<not> pmm_test_bit s i) a (last_free_index s) \<noteq> Some (- 1)" for a
    using lt le by (auto simp: for_find_Some)
  from assms(1) have "for_find (\<lambda>i. \<not> pmm_test_bit s i) (last_free_index s) (total_pages s) = None"
    "for_find (\<lambda>i. \<not> pmm_test_bit s i) 0 (last_free_index s) = None" "s' = s"
    using no by (auto simp: pmm_find_first_free_def split: option.splits)
  then show ?thesis
    by (auto simp: for_find_None free_frames_def) (meson not_le)
qed


lemma pmm_alloc_page_unfold:
  assumes "pmm_ok s"
  shows "pmm_alloc_page s =
    (let (s1, b) = pmm_find_first_free s in
     if b = - 1 then (s1, 0)
     else ((pmm_set_bit s1 b)\<lparr>free_memory := free_memory s1 - PAGE_SIZE\<rparr>, b * PAGE_SIZE))"
proof -
  obtain s1 b where f: "pmm_find_first_free s = (s1, b)" by fastforce
  have "b \<noteq> 0"
    using assms f pmm_find_first_free_zero by (auto simp: pmm_ok_def)
  then show ?thesis
    by (subst pmm_alloc_page.simps) (simp add: f Let_def)
qed

lemma frame_mult_div:
  assumes "unat b < 2 ^ 20"
  shows "b * PAGE_SIZE div PAGE_SIZE = (b :: u64)" and "b * PAGE_SIZE mod PAGE_SIZE = 0"
    and "b \<noteq> 0 \<Longrightarrow> b * PAGE_SIZE \<noteq> 0"
proof -
  have u: "unat (b * PAGE_SIZE) = unat b * 4096"
    using assms by (simp add: PAGE_SIZE_def word_nat)
  show "b * PAGE_SIZE div PAGE_SIZE = b"
    by (rule unat_eqI) (simp add: unat_div u, simp add: PAGE_SIZE_def)
  show "b * PAGE_SIZE mod PAGE_SIZE = 0"
    by (rule unat_eqI) (simp add: unat_mod u, simp add: PAGE_SIZE_def)
  show "b \<noteq> 0 \<Longrightarrow> b * PAGE_SIZE \<noteq> 0"
    using u by (auto simp: unat_eq_zero)
qed

lemma free_frames_simps [simp]:
  "free_frames (pmm_set_bit s b) = free_frames s - {b}"
  "free_frames (s\<lparr>last_free_index := i\<rparr>) = free_frames s"
  "free_frames (s\<lparr>free_memory := f\<rparr>) = free_frames s"
  by (auto simp: free_frames_def)

lemma free_frames_clear_bit [simp]:
  "b < total_pages s \<Longrightarrow> free_frames (pmm_clear_bit s b) = insert b (free_frames s)"
  by (auto simp: free_frames_def)

lemma free_memory_alloc:
  assumes "pmm_ok s" and "A \<subseteq> free_frames s" and "unat n = card A"
  shows "unat (free_memory s - n * PAGE_SIZE) = 4096 * card (free_frames s - A)"
proof -
  have c: "card A \<le> card (free_frames s)" using assms(2) by (simp add: card_mono)
  have "card (free_frames s) \<le> 2 ^ 20"
    using assms(1) free_frames_card_le [of s] by (simp add: pmm_ok_def)
  with c assms(3) have n: "unat (n * PAGE_SIZE) = card A * 4096"
    by (simp add: PAGE_SIZE_def word_nat)
  have "n * PAGE_SIZE \<le> free_memory s"
    using assms(1) c n by (simp add: word_le_nat_alt pmm_ok_def)
  then have "unat (free_memory s - n * PAGE_SIZE) = 4096 * card (free_frames s) - card A * 4096"
    using assms(1) n by (simp add: unat_diff_le pmm_ok_def)
  then show ?thesis using assms(2) by (simp add: card_Diff_subset diff_mult_distrib2)
qed

lemma pmm_alloc_page_Some:
  assumes ok: "pmm_ok s" and a: "pmm_alloc_page s = (s', p)" and p: "p \<noteq> 0"
  shows "p div PAGE_SIZE \<in> free_frames s" and "p mod PAGE_SIZE = 0"
    and "free_frames s' = free_frames s - {p div PAGE_SIZE}" and "pmm_ok s'"
    and "total_pages s' = total_pages s"
proof -
  obtain s1 b where f: "pmm_find_first_free s = (s1, b)" by fastforce
  from a p f have b: "b \<noteq> - 1" and p': "p = b * PAGE_SIZE"
    and s': "s' = (pmm_set_bit s1 b)\<lparr>free_memory := free_memory s1 - PAGE_SIZE\<rparr>"
    by (auto simp: pmm_alloc_page_unfold [OF ok] split: if_splits)
  from pmm_find_first_free_Some [OF f b] ok have s1: "s1 = s\<lparr>last_free_index := b\<rparr>"
    and bt: "b < total_pages s" and free: "b \<in> free_frames s"
    by (auto simp: pmm_ok_def free_frames_def)
  have u: "unat b < 2 ^ 20" using bt ok by (auto simp: pmm_ok_def word_nat)
  note d = frame_mult_div [OF u]
  show "p div PAGE_SIZE \<in> free_frames s" "p mod PAGE_SIZE = 0" using d free p' by simp_all
  show ff: "free_frames s' = free_frames s - {p div PAGE_SIZE}" using d by (simp add: s' s1 p')
  show tp: "total_pages s' = total_pages s" by (simp add: s' s1)
  have "unat (free_memory s - 1 * PAGE_SIZE) = 4096 * card (free_frames s - {b})"
    by (rule free_memory_alloc) (use ok free in auto)
  then show "pmm_ok s'"
    using ok ff tp bt d by (auto simp: pmm_ok_def s' s1 p')
qed

lemma pmm_alloc_page_None:
  assumes ok: "pmm_ok s" and a: "pmm_alloc_page s = (s', 0)"
  shows "s' = s \<and> free_frames s = {}"
proof -
  obtain s1 b where f: "pmm_find_first_free s = (s1, b)" by fastforce
  have "b = - 1"
  proof (rule ccontr)
    assume b: "b \<noteq> - 1"
    from pmm_find_first_free_Some [OF f this] ok
    have "unat b < 2 ^ 20" and "b \<noteq> 0" by (auto simp: pmm_ok_def word_nat)
    with a f b show False
      by (auto simp: pmm_alloc_page_unfold [OF ok] frame_mult_div split: if_splits)
  qed
  with f a pmm_find_first_free_None [OF _ ok] show ?thesis
    by (auto simp: pmm_alloc_page_unfold [OF ok])
qed


section \<open>Runs of frames\<close>

definition frame_range :: "u64 \<Rightarrow> u64 \<Rightarrow> u64 set" where
  "frame_range i count = (\<lambda>k. i + k) ` {k. k < count}"

definition window_free :: "pmm \<Rightarrow> u64 \<Rightarrow> u64 \<Rightarrow> bool" where
  "window_free s count i \<longleftrightarrow> (\<forall>j. j < count \<longrightarrow> \<not> pmm_test_bit s (i + j))"

lemma card_frame_range [simp]: "card (frame_range i count) = unat count"
  by (simp add: frame_range_def card_image card_word_lessThan)

lemma pmm_set_range_fields [simp]:
  "total_pages (pmm_set_range s i count) = total_pages s"
  "last_free_index (pmm_set_range s i count) = last_free_index s"
  "free_memory (pmm_set_range s i count) = free_memory s"
  by (simp_all add: pmm_set_range_def for_upto_frame)

lemma frame_range_0 [simp]: "frame_range i 0 = {}"
  by (simp add: frame_range_def)

lemma frame_range_plus_1: "j < n \<Longrightarrow> frame_range i (j + 1) = insert (i + j) (frame_range i j)"
  by (auto simp: frame_range_def word_less_plus_1 [of j n])

lemma pmm_test_set_range:
  "pmm_test_bit (pmm_set_range s i count) b \<longleftrightarrow> pmm_test_bit s b \<or> b \<in> frame_range i count"
proof -
  have "\<forall>b. pmm_test_bit (pmm_set_range s i count) b \<longleftrightarrow> pmm_test_bit s b \<or> b \<in> frame_range i count"
    unfolding pmm_set_range_def
  proof (rule for_upto_induct)
    fix j t
    assume "j < count" and "\<forall>b. pmm_test_bit t b \<longleftrightarrow> pmm_test_bit s b \<or> b \<in> frame_range i j"
    then show "\<forall>b. pmm_test_bit (pmm_set_bit t (i + j)) b \<longleftrightarrow>
        pmm_test_bit s b \<or> b \<in> frame_range i (j + 1)"
      by (simp add: frame_range_plus_1) blast
  qed simp_all
  then show ?thesis by blast
qed

lemma free_frames_set_range [simp]:
  "free_frames (pmm_set_range s i count) = free_frames s - frame_range i count"
  by (auto simp: free_frames_def pmm_test_set_range)

lemma pmm_clear_range_fields [simp]:
  "total_pages (pmm_clear_range s i count) = total_pages s"
  "last_free_index (pmm_clear_range s i count) = last_free_index s"
  "free_memory (pmm_clear_range s i count) = free_memory s"
  by (simp_all add: pmm_clear_range_def for_upto_frame)

lemma pmm_test_clear_range:
  "pmm_test_bit (pmm_clear_range s i count) b \<longleftrightarrow>
     pmm_test_bit s b \<and> \<not> (b \<in> frame_range i count \<and> b < total_pages s)"
proof -
  have "total_pages (pmm_clear_range s i count) = total_pages s \<and>
      (\<forall>b. pmm_test_bit (pmm_clear_range s i count) b \<longleftrightarrow>
         pmm_test_bit s b \<and> \<not> (b \<in> frame_range i count \<and> b < total_pages s))"
    unfolding pmm_clear_range_def
  proof (rule for_upto_induct [where P = "\<lambda>j t. total_pages t = total_pages s \<and>
      (\<forall>b. pmm_test_bit t b \<longleftrightarrow>
         pmm_test_bit s b \<and> \<not> (b \<in> frame_range i j \<and> b < total_pages s))"])
    fix j t
    assume "j < count" and t: "total_pages t = total_pages s \<and> (\<forall>b. pmm_test_bit t b \<longleftrightarrow>
        pmm_test_bit s b \<and> \<not> (b \<in> frame_range i j \<and> b < total_pages s))"
    then have fr: "frame_range i (j + 1) = insert (i + j) (frame_range i j)"
      by (simp add: frame_range_plus_1)
    show "total_pages (if i + j < total_pages t then pmm_clear_bit t (i + j) else t) = total_pages s \<and>
        (\<forall>b. pmm_test_bit (if i + j < total_pages t then pmm_clear_bit t (i + j) else t) b \<longleftrightarrow>
          pmm_test_bit s b \<and> \<not> (b \<in> frame_range i (j + 1) \<and> b < total_pages s))"
      using t unfolding fr by auto
  qed simp_all
  then show ?thesis by blast
qed

lemma free_frames_clear_range [simp]:
  "free_frames (pmm_clear_range s i count) =
     free_frames s \<union> {b \<in> frame_range i count. b < total_pages s}"
  by (auto simp: free_frames_def pmm_test_clear_range)


lemma window_free_frames:
  assumes "pmm_ok s" and "0 < count" and "count \<le> total_pages s" and "i \<le> total_pages s - count"
  shows "window_free s count i \<longleftrightarrow> frame_range i count \<subseteq> free_frames s"
    and "k < count \<Longrightarrow> unat (i + k) = unat i + unat k \<and> i + k < total_pages s"
proof -
  have T: "unat (total_pages s) \<le> 2 ^ 20" using assms(1) by (simp add: pmm_ok_def)
  have iT: "unat i + unat count \<le> unat (total_pages s)"
    using assms(3,4) by (simp add: word_le_nat_alt unat_diff_le)
  have r: "unat (i + k) = unat i + unat k \<and> i + k < total_pages s" if "k < count" for k
  proof -
    have "unat k < unat count" using that by (simp add: word_less_nat_alt)
    with T iT show ?thesis by (auto simp: unat_add_no_wrap word_less_nat_alt)
  qed
  show "k < count \<Longrightarrow> unat (i + k) = unat i + unat k \<and> i + k < total_pages s" by (rule r)
  show "window_free s count i \<longleftrightarrow> frame_range i count \<subseteq> free_frames s"
    using r by (auto simp: window_free_def frame_range_def free_frames_def)
qed

text \<open>A window that contains a used frame is not free, wherever in the window the frame is.\<close>

lemma window_not_free_skip:
  assumes "pmm_ok s" and "i \<le> total_pages s - count" and "0 < count" and "count \<le> total_pages s"
    and "j < count" and "pmm_test_bit s (i + j)" and "i \<le> k" and "k < i + j + 1"
  shows "\<not> window_free s count k"
proof -
  have T: "unat (total_pages s) \<le> 2 ^ 20" using assms(1) by (simp add: pmm_ok_def)
  have u: "unat (i + j) = unat i + unat j" and lt: "i + j < total_pages s"
    using window_free_frames(2) [OF assms(1,3,4,2,5)] by auto
  have k: "k \<le> i + j" using assms(8) lt by (auto simp: word_less_plus_1)
  define l where "l = i + j - k"
  have "unat l = unat i + unat j - unat k" using k u by (simp add: l_def unat_diff_le)
  then have "l < count"
    using assms(5,7) by (simp add: word_less_nat_alt word_le_nat_alt)
  moreover have "k + l = i + j" by (simp add: l_def)
  ultimately show ?thesis using assms(6) by (auto simp: window_free_def)
qed

definition pmm_take :: "pmm \<Rightarrow> u64 \<Rightarrow> u64 \<Rightarrow> pmm" where
  "pmm_take s i count =
     (pmm_set_range s i count)\<lparr>free_memory := free_memory s - count * PAGE_SIZE\<rparr>"

text \<open>The loop returns, with the first fitting window at or after its start, if there is one.\<close>

lemma pmm_alloc_loop_spec:
  assumes ok: "pmm_ok s" and c: "0 < count" "count \<le> total_pages s" and i: "unat i \<le> 2 ^ 21"
  shows "(\<exists>k. i \<le> k \<and> k \<le> total_pages s - count \<and> window_free s count k \<and>
           (\<forall>k'. i \<le> k' \<and> k' < k \<longrightarrow> \<not> window_free s count k') \<and>
           pmm_alloc_loop s count i = Some (pmm_take s k count, k * PAGE_SIZE))
       \<or> ((\<forall>k. i \<le> k \<and> k \<le> total_pages s - count \<longrightarrow> \<not> window_free s count k) \<and>
           pmm_alloc_loop s count i = Some (s, 0))"
  using i
proof (induction "unat (total_pages s) + 1 - unat i" arbitrary: i rule: less_induct)
  case less
  have T: "unat (total_pages s) \<le> 2 ^ 20" using ok by (simp add: pmm_ok_def)
  show ?case
  proof (cases "i \<le> total_pages s - count")
    case False
    then have "pmm_alloc_loop s count i = Some (s, 0)" by (subst pmm_alloc_loop.simps) simp
    with False show ?thesis by auto
  next
    case in_range: True
    show ?thesis
    proof (cases "for_find (\<lambda>j. pmm_test_bit s (i + j)) 0 count")
      case None
      then have "pmm_alloc_loop s count i = Some (pmm_take s i count, i * PAGE_SIZE)"
        using in_range by (subst pmm_alloc_loop.simps) (simp add: pmm_take_def Let_def)
      moreover have "window_free s count i" using None by (auto simp: for_find_None window_free_def)
      ultimately show ?thesis using in_range by auto
    next
      case (Some j)
      then have j: "j < count" "pmm_test_bit s (i + j)" by (auto simp: for_find_Some)
      let ?i = "i + j + 1"
      have lt: "i + j < total_pages s" and ij: "unat (i + j) = unat i + unat j"
        using window_free_frames(2) [OF ok c in_range j(1)] by auto
      have ui: "unat ?i = unat i + unat j + 1" using lt ij by (simp add: unat_Suc_less)
      have "pmm_alloc_loop s count i = pmm_alloc_loop s count ?i"
        using in_range Some by (subst pmm_alloc_loop.simps) simp
      moreover have skip: "\<not> window_free s count k" if "i \<le> k" "k < ?i" for k
        by (rule window_not_free_skip [OF ok in_range c j that])
      have "unat i + unat j < 2 ^ 20"
        using lt T ij by (simp add: word_less_nat_alt)
      then have small: "unat ?i \<le> 2 ^ 21" "unat (total_pages s) + 1 - unat ?i < unat (total_pages s) + 1 - unat i"
        using ui lt ij by (auto simp: word_less_nat_alt)
      have le: "i \<le> k" if "?i \<le> k" for k using that ui by (simp add: word_le_nat_alt)
      have "k < ?i \<or> ?i \<le> k" for k by auto
      ultimately show ?thesis using less.hyps [OF small(2,1)] skip le by metis
    qed
  qed
qed


lemma pmm_take_ok:
  assumes ok: "pmm_ok s" and fr: "frame_range i count \<subseteq> free_frames s"
  shows "pmm_ok (pmm_take s i count)" and "free_frames (pmm_take s i count) = free_frames s - frame_range i count"
    and "total_pages (pmm_take s i count) = total_pages s"
proof -
  show ff: "free_frames (pmm_take s i count) = free_frames s - frame_range i count"
    by (simp add: pmm_take_def)
  show tp: "total_pages (pmm_take s i count) = total_pages s"
    by (simp add: pmm_take_def)
  have "unat (free_memory s - count * PAGE_SIZE) = 4096 * card (free_frames s - frame_range i count)"
    by (rule free_memory_alloc [OF ok fr]) simp
  then show "pmm_ok (pmm_take s i count)"
    using ok by (simp add: pmm_ok_def pmm_take_def pmm_test_set_range)
qed

lemma free_memory_release:
  assumes "pmm_ok s" and "A \<inter> free_frames s = {}" and "A \<subseteq> {i. i < total_pages s}" and "unat n = card A"
  shows "unat (free_memory s + n * PAGE_SIZE) = 4096 * card (free_frames s \<union> A)"
proof -
  have "card (free_frames s \<union> A) \<le> card {i. i < total_pages s}"
    using assms(3) by (intro card_mono) (auto simp: free_frames_def)
  then have c: "card (free_frames s) + card A \<le> 2 ^ 20"
    using assms(1,2) by (simp add: card_word_lessThan card_Un_disjoint Int_commute pmm_ok_def)
  have n: "unat (n * PAGE_SIZE) = card A * 4096"
    using c assms(4) by (simp add: PAGE_SIZE_def unat_mult_no_wrap)
  have "unat (free_memory s + n * PAGE_SIZE) = 4096 * card (free_frames s) + card A * 4096"
    using assms(1) c n by (simp add: unat_add_no_wrap pmm_ok_def)
  then show ?thesis using assms(2) by (simp add: card_Un_disjoint Int_commute)
qed

lemma pmm_free_page_used:
  assumes ok: "pmm_ok s" and b: "a div PAGE_SIZE < total_pages s" "a div PAGE_SIZE \<notin> free_frames s"
    and nz: "a div PAGE_SIZE \<noteq> 0"
  shows "pmm_ok (pmm_free_page s a)"
    and "free_frames (pmm_free_page s a) = insert (a div PAGE_SIZE) (free_frames s)"
    and "total_pages (pmm_free_page s a) = total_pages s"
proof -
  show ff: "free_frames (pmm_free_page s a) = insert (a div PAGE_SIZE) (free_frames s)"
    using b by (simp add: pmm_free_page_def Let_def)
  show tp: "total_pages (pmm_free_page s a) = total_pages s"
    using b by (simp add: pmm_free_page_def Let_def)
  have "unat (free_memory s + 1 * PAGE_SIZE) = 4096 * card (free_frames s \<union> {a div PAGE_SIZE})"
    by (rule free_memory_release) (use ok b in auto)
  then show "pmm_ok (pmm_free_page s a)"
    using ok ff tp b(1) nz by (auto simp: pmm_ok_def pmm_free_page_def Let_def)
qed

lemma pmm_free_pages_used:
  assumes ok: "pmm_ok s" and r: "\<forall>b\<in>frame_range (a div PAGE_SIZE) count. b < total_pages s \<and> b \<noteq> 0"
    and used: "frame_range (a div PAGE_SIZE) count \<inter> free_frames s = {}"
  shows "pmm_ok (pmm_free_pages s a count)"
    and "free_frames (pmm_free_pages s a count) = free_frames s \<union> frame_range (a div PAGE_SIZE) count"
    and "total_pages (pmm_free_pages s a count) = total_pages s"
proof -
  let ?r = "frame_range (a div PAGE_SIZE) count"
  have sub: "{b \<in> ?r. b < total_pages s} = ?r" using r by auto
  show ff: "free_frames (pmm_free_pages s a count) = free_frames s \<union> ?r"
    using sub by (simp add: pmm_free_pages_def Let_def)
  show tp: "total_pages (pmm_free_pages s a count) = total_pages s"
    by (simp add: pmm_free_pages_def Let_def)
  have "unat (free_memory s + count * PAGE_SIZE) = 4096 * card (free_frames s \<union> ?r)"
    by (rule free_memory_release) (use ok r used in auto)
  then show "pmm_ok (pmm_free_pages s a count)"
    using ok ff tp r by (auto simp: pmm_ok_def pmm_free_pages_def Let_def pmm_test_clear_range)
qed


section \<open>The allocator as its clients see it\<close>

text \<open>
  A client asks for one page with \<open>pmm_alloc_page\<close>, for a run of pages with
  \<open>pmm_alloc_pages\<close>, and returns what it got with the matching call. A block is the address
  and the number of pages.
\<close>

datatype page_request = Page | Pages u64

definition pmm_request :: "page_request \<Rightarrow> pmm \<Rightarrow> (pmm \<times> (u64 \<times> u64) option) option" where
  "pmm_request r s =
     (case r of
        Page \<Rightarrow> (let (s', p) = pmm_alloc_page s in Some (s', if p = 0 then None else Some (p, 1)))
      | Pages n \<Rightarrow>
          map_option (\<lambda>(s', p). (s', if p = 0 then None else Some (p, n))) (pmm_alloc_pages s n))"

definition pmm_give_back :: "pmm \<Rightarrow> u64 \<times> u64 \<Rightarrow> pmm" where
  "pmm_give_back s b =
     (if snd b = 1 then pmm_free_page s (fst b) else pmm_free_pages s (fst b) (snd b))"

definition pmm_admissible :: "page_request \<Rightarrow> pmm \<Rightarrow> bool" where
  "pmm_admissible r s = (case r of Page \<Rightarrow> True | Pages n \<Rightarrow> 0 < n \<and> n \<le> total_pages s)"

definition block_frames :: "u64 \<times> u64 \<Rightarrow> u64 set" where
  "block_frames b = frame_range (fst b div PAGE_SIZE) (snd b)"

definition managed_frames :: "pmm \<Rightarrow> u64 set" where
  "managed_frames s = {i. 0 < i \<and> i < total_pages s}"

lemma frame_range_1 [simp]: "frame_range i 1 = {i}"
proof -
  have "{k :: u64. k < 1} = {0}" by (auto simp: word_less_nat_alt word_unat_eq_iff)
  then show ?thesis by (simp add: frame_range_def)
qed

lemma free_frames_managed: "pmm_ok s \<Longrightarrow> free_frames s \<subseteq> managed_frames s"
  by (auto simp: pmm_ok_def free_frames_def managed_frames_def word_gt_0)

lemma pmm_alloc_pages_cases:
  assumes ok: "pmm_ok s" and c: "0 < count" "count \<le> total_pages s"
  obtains (found) k where "k \<le> total_pages s - count" "frame_range k count \<subseteq> free_frames s"
      "\<And>k'. k' < k \<Longrightarrow> \<not> frame_range k' count \<subseteq> free_frames s"
      "pmm_alloc_pages s count = Some (pmm_take s k count, k * PAGE_SIZE)"
      "k * PAGE_SIZE div PAGE_SIZE = k" "k * PAGE_SIZE mod PAGE_SIZE = 0" "k * PAGE_SIZE \<noteq> 0"
    | (none) "\<And>k. k \<le> total_pages s - count \<Longrightarrow> \<not> frame_range k count \<subseteq> free_frames s"
      "pmm_alloc_pages s count = Some (s, 0)"
proof -
  have A: "pmm_alloc_pages s count = pmm_alloc_loop s count 0"
    using c by (auto simp: pmm_alloc_pages_def)
  from pmm_alloc_loop_spec [OF ok c, of 0] consider
      k where "k \<le> total_pages s - count" "window_free s count k"
        "\<And>k'. k' < k \<Longrightarrow> \<not> window_free s count k'"
        "pmm_alloc_pages s count = Some (pmm_take s k count, k * PAGE_SIZE)"
    | "\<And>k. k \<le> total_pages s - count \<Longrightarrow> \<not> window_free s count k"
      "pmm_alloc_pages s count = Some (s, 0)"
    unfolding A by (auto simp: word_zero_le)
  then show thesis
  proof cases
    case 1
    have le: "k' \<le> total_pages s - count" if "k' < k" for k' using that 1(1) by simp
    have sub: "frame_range k count \<subseteq> free_frames s"
      using 1(1,2) window_free_frames(1) [OF ok c] by blast
    have "k + 0 \<in> frame_range k count" unfolding frame_range_def using c(1) by blast
    with sub have "k < total_pages s" "k \<noteq> 0" using ok by (auto simp: free_frames_def pmm_ok_def)
    then have "unat k < 2 ^ 20" using ok by (simp add: pmm_ok_def word_less_nat_alt)
    note kd = frame_mult_div [OF this]
    have "k * PAGE_SIZE \<noteq> 0" using kd(1) \<open>k \<noteq> 0\<close> by (metis div_0)
    with 1 sub kd le found window_free_frames(1) [OF ok c] show ?thesis by metis
  next
    case 2
    with none window_free_frames(1) [OF ok c] show ?thesis by metis
  qed
qed

lemma pmm_request_returns:
  assumes "pmm_ok s" and "pmm_admissible r s"
  shows "pmm_request r s \<noteq> None"
proof (cases r)
  case (Pages n)
  with assms(2) have "0 < n" "n \<le> total_pages s" by (auto simp: pmm_admissible_def)
  then show ?thesis using Pages
    by (cases rule: pmm_alloc_pages_cases [OF assms(1)]) (auto simp: pmm_request_def)
qed (simp add: pmm_request_def split: prod.split)

lemma pmm_request_Some:
  assumes ok: "pmm_ok s" and adm: "pmm_admissible r s" and req: "pmm_request r s = Some (s', Some b)"
  shows "pmm_ok s' \<and> total_pages s' = total_pages s \<and> block_frames b \<noteq> {} \<and>
    block_frames b \<subseteq> free_frames s \<and> free_frames s' = free_frames s - block_frames b"
proof (cases r)
  case Page
  with req obtain p where "pmm_alloc_page s = (s', p)" "p \<noteq> 0" "b = (p, 1)"
    by (auto simp: pmm_request_def split: prod.splits if_splits)
  then show ?thesis
    using pmm_alloc_page_Some [OF ok] by (simp add: block_frames_def)
next
  case (Pages n)
  with adm have n: "0 < n" "n \<le> total_pages s" by (auto simp: pmm_admissible_def)
  then have ne: "frame_range k n \<noteq> {}" for k unfolding frame_range_def by blast
  show ?thesis
  proof (cases rule: pmm_alloc_pages_cases [OF ok n, case_names found none])
    case (found k)
    with req Pages have "s' = pmm_take s k n" "b = (k * PAGE_SIZE, n)"
      by (simp_all add: pmm_request_def)
    with found pmm_take_ok [OF ok found(2)] ne show ?thesis by (simp add: block_frames_def)
  qed (use req Pages in \<open>simp add: pmm_request_def\<close>)
qed

lemma pmm_request_None:
  assumes ok: "pmm_ok s" and adm: "pmm_admissible r s" and req: "pmm_request r s = Some (s', None)"
  shows "s' = s"
proof (cases r)
  case Page
  with req have "pmm_alloc_page s = (s', 0)"
    by (auto simp: pmm_request_def split: prod.splits if_splits)
  then show ?thesis using pmm_alloc_page_None [OF ok] by simp
next
  case (Pages n)
  with adm have n: "0 < n" "n \<le> total_pages s" by (auto simp: pmm_admissible_def)
  then show ?thesis
    by (cases rule: pmm_alloc_pages_cases [OF ok]) (use req Pages in \<open>auto simp: pmm_request_def\<close>)
qed

lemma pmm_give_back_ok:
  assumes ok: "pmm_ok s" and b: "block_frames b \<subseteq> managed_frames s - free_frames s"
  shows "pmm_ok (pmm_give_back s b) \<and> total_pages (pmm_give_back s b) = total_pages s \<and>
    free_frames (pmm_give_back s b) = free_frames s \<union> block_frames b"
proof (cases "snd b = 1")
  case True
  then have "fst b div PAGE_SIZE < total_pages s" "fst b div PAGE_SIZE \<notin> free_frames s"
    "fst b div PAGE_SIZE \<noteq> 0"
    using b by (auto simp: block_frames_def managed_frames_def)
  with True show ?thesis
    by (simp add: pmm_give_back_def block_frames_def pmm_free_page_used [OF ok])
next
  case False
  have "\<forall>i\<in>frame_range (fst b div PAGE_SIZE) (snd b). i < total_pages s \<and> i \<noteq> 0"
    "frame_range (fst b div PAGE_SIZE) (snd b) \<inter> free_frames s = {}"
    using b by (auto simp: block_frames_def managed_frames_def)
  with False show ?thesis
    by (simp add: pmm_give_back_def block_frames_def pmm_free_pages_used [OF ok])
qed

interpretation frames: region_allocator
  pmm_request pmm_give_back pmm_admissible pmm_ok free_frames managed_frames block_frames
proof
  fix s s' r and b :: "u64 \<times> u64"
  assume ok: "pmm_ok s"
  then show "free_frames s \<subseteq> managed_frames s" by (rule free_frames_managed)
  show "pmm_ok (pmm_give_back s b) \<and> managed_frames (pmm_give_back s b) = managed_frames s \<and>
      free_frames (pmm_give_back s b) = free_frames s \<union> block_frames b"
    if "block_frames b \<subseteq> managed_frames s - free_frames s"
    using pmm_give_back_ok [OF ok that] by (simp add: managed_frames_def)
  assume adm: "pmm_admissible r s"
  show "pmm_request r s \<noteq> None" by (rule pmm_request_returns [OF ok adm])
  show "pmm_ok s' \<and> managed_frames s' = managed_frames s \<and> block_frames b \<noteq> {} \<and>
      block_frames b \<subseteq> free_frames s \<and> free_frames s' = free_frames s - block_frames b"
    if "pmm_request r s = Some (s', Some b)"
    using pmm_request_Some [OF ok adm that] by (simp add: managed_frames_def)
  show "pmm_ok s' \<and> managed_frames s' = managed_frames s \<and> free_frames s' = free_frames s"
    if "pmm_request r s = Some (s', None)"
    using pmm_request_None [OF ok adm that] ok by simp
qed

section \<open>Initialisation from the boot loader's memory map\<close>

text \<open>
  The memory map is read from memory, \<open>m\<close>; \<open>None\<close> is a run that does not return: a list of
  tags or entries that does not end, a division by a zero \<open>entry_size\<close>, or the deliberate
  \<^verbatim>\<open>while(1)\<close> of \<open>pmm_init\<close>. The address of the linker symbol \<open>_kernel_end\<close> is a parameter.
  The entries are read twice by the code, once for the highest address and once to clear
  bits; \<open>mb1_entries\<close> and \<open>mb2_tags\<close> are the reading common to both passes.
\<close>

record mmap_entry =
  me_addr :: u64
  me_len :: u64
  me_type :: u32

definition MB1_MAGIC :: u64 where
  "MB1_MAGIC = 0x2BADB002"

definition MB2_MAGIC :: u64 where
  "MB2_MAGIC = 0x36D76289"

definition mb1_flags :: "bytes \<Rightarrow> u64 \<Rightarrow> u32" where
  "mb1_flags m mb = load32 m mb"

definition mb1_mmap_length :: "bytes \<Rightarrow> u64 \<Rightarrow> u32" where
  "mb1_mmap_length m mb = load32 m (mb + 44)"

definition mb1_mmap_addr :: "bytes \<Rightarrow> u64 \<Rightarrow> u32" where
  "mb1_mmap_addr m mb = load32 m (mb + 48)"

partial_function (option) mb1_entries :: "bytes \<Rightarrow> u64 \<Rightarrow> u64 \<Rightarrow> mmap_entry list option" where
  "mb1_entries m e end_addr =
     (if e < end_addr then
        Option.bind (mb1_entries m (e + ucast (load32 m e) + 4) end_addr)
          (\<lambda>es. Some (\<lparr>me_addr = load64 m (e + 4), me_len = load64 m (e + 12),
                        me_type = load32 m (e + 20)\<rparr> # es))
      else Some [])"

declare mb1_entries.simps [code]

definition mb1_map :: "bytes \<Rightarrow> u64 \<Rightarrow> mmap_entry list option" where
  "mb1_map m mb =
     (if mb1_flags m mb AND 0x40 \<noteq> 0 then
        mb1_entries m (ucast (mb1_mmap_addr m mb)) (ucast (mb1_mmap_addr m mb + mb1_mmap_length m mb))
      else Some [])"

definition mb2_tag_entries :: "bytes \<Rightarrow> u64 \<Rightarrow> mmap_entry list option" where
  "mb2_tag_entries m tag =
     (let sz = load32 m (tag + 4); entry_size = (ucast (load32 m (tag + 8)) :: u64) in
      if entry_size = 0 then None
      else
        (let num_entries = (ucast sz - 16) div entry_size in
         Some (rev (for_upto
           (\<lambda>i es. let e = tag + 16 + i * entry_size in
              \<lparr>me_addr = load64 m e, me_len = load64 m (e + 8), me_type = load32 m (e + 16)\<rparr> # es)
           0 num_entries []))))"

definition mb2_tag_step :: "u32 \<Rightarrow> u32" where
  "mb2_tag_step sz = (if sz mod 8 \<noteq> 0 then sz + (8 - sz mod 8) else sz)"

partial_function (option) mb2_tags :: "bytes \<Rightarrow> u64 \<Rightarrow> u64 \<Rightarrow> mmap_entry list option" where
  "mb2_tags m tag end_addr =
     (if tag < end_addr then
        (if load32 m tag = 0 then Some []
         else
           Option.bind (if load32 m tag = 6 then mb2_tag_entries m tag else Some [])
             (\<lambda>es. Option.bind (mb2_tags m (tag + ucast (mb2_tag_step (load32 m (tag + 4)))) end_addr)
                (\<lambda>es'. Some (es @ es'))))
      else Some [])"

declare mb2_tags.simps [code]

definition mb2_map :: "bytes \<Rightarrow> u64 \<Rightarrow> mmap_entry list option" where
  "mb2_map m mb = mb2_tags m (mb + 8) (mb + ucast (load32 m mb))"

definition boot_map :: "bytes \<Rightarrow> u64 \<Rightarrow> u64 \<Rightarrow> mmap_entry list option" where
  "boot_map m mb magic =
     (if magic = MB1_MAGIC then mb1_map m mb
      else if magic = MB2_MAGIC then mb2_map m mb
      else Some [])"

definition map_highest :: "mmap_entry list \<Rightarrow> u64" where
  "map_highest es =
     fold (\<lambda>e hi. if me_type e = 1 \<and> hi < me_addr e + me_len e then me_addr e + me_len e else hi) es 0"

definition clamp_highest :: "u64 \<Rightarrow> u64" where
  "clamp_highest hi =
     (let hi1 = (if hi = 0 then 128 * 1024 * 1024 else hi) in
      if 0x100000000 < hi1 then 0x100000000 else hi1)"

definition PAGE_ALIGN :: "u64 \<Rightarrow> u64" where
  "PAGE_ALIGN x = (x + PAGE_SIZE - 1) AND NOT (PAGE_SIZE - 1)"

definition mb_end :: "bytes \<Rightarrow> u64 \<Rightarrow> u64 \<Rightarrow> u64 \<Rightarrow> u64 \<Rightarrow> u64" where
  "mb_end m mb magic hi bm =
     (if magic = MB2_MAGIC then mb + ucast (load32 m mb)
      else if magic = MB1_MAGIC then
        (if 0x1000 < mb \<and> mb < hi \<and> bm \<le> mb then
           (let e = mb + 88 in
            if mb1_flags m mb AND 0x40 \<noteq> 0 then
              (let mmap_end = (ucast (mb1_mmap_addr m mb + mb1_mmap_length m mb) :: u64) in
               if e < mmap_end then mmap_end else e)
            else e)
         else 0)
      else 0)"

definition bitmap_place :: "bytes \<Rightarrow> u64 \<Rightarrow> u64 \<Rightarrow> u64 \<Rightarrow> u64 \<Rightarrow> u64" where
  "bitmap_place m kernel_end mb magic hi =
     (let bm = PAGE_ALIGN kernel_end; e = mb_end m mb magic hi bm in
      if bm < e then PAGE_ALIGN e else bm)"

definition pmm_clear_entry :: "bool \<Rightarrow> mmap_entry \<Rightarrow> pmm \<Rightarrow> pmm" where
  "pmm_clear_entry bounded e s =
     (if me_type e = 1 then
        for_upto
          (\<lambda>i s. if bounded \<and> \<not> me_addr e div PAGE_SIZE + i < total_pages s then s
                 else pmm_clear_bit s (me_addr e div PAGE_SIZE + i))
          0 (me_len e div PAGE_SIZE) s
      else s)"

definition pmm_count_free :: "pmm \<Rightarrow> pmm" where
  "pmm_count_free s =
     for_upto (\<lambda>i s. if \<not> pmm_test_bit s i then s\<lparr>free_memory := free_memory s + PAGE_SIZE\<rparr> else s)
       0 (total_pages s) (s\<lparr>free_memory := 0\<rparr>)"

text \<open>
  The state before the fallback: the bitmap is filled with ones, the frames of the available
  entries are cleared (only the Multiboot 2 loop checks the bound), the frames up to the end
  of the bitmap are set, and the free frames are counted.
\<close>

definition pmm_init_map :: "bytes \<Rightarrow> u64 \<Rightarrow> u64 \<Rightarrow> mmap_entry list \<Rightarrow> u64 \<Rightarrow> u64 \<Rightarrow> pmm" where
  "pmm_init_map m hi magic es bm lfi =
     (let total = hi div PAGE_SIZE; bsize = total div 8;
          s0 = \<lparr>bitmap = (\<lambda>i. m (bm + i)), total_pages = total, bitmap_size = bsize,
                highest_addr = hi, free_memory = 0, last_free_index = lfi\<rparr>;
          s1 = for_upto (\<lambda>i s. s\<lparr>bitmap := (bitmap s)(i := 0xFF)\<rparr>) 0 bsize s0;
          s2 = fold (pmm_clear_entry (magic = MB2_MAGIC)) es s1;
          s3 = for_upto (\<lambda>i s. pmm_set_bit s i) 0 ((bm + bsize + PAGE_SIZE - 1) div PAGE_SIZE) s2
      in pmm_count_free s3)"

definition pmm_fallback :: "pmm \<Rightarrow> pmm" where
  "pmm_fallback s =
     (if free_memory s = 0 \<and> 0x100000 < highest_addr s then
        pmm_count_free
          (for_upto (\<lambda>i s. pmm_clear_bit s i) (0x100000 div PAGE_SIZE) (highest_addr s div PAGE_SIZE) s)
      else s)"

definition pmm_reserve :: "u64 \<Rightarrow> pmm \<Rightarrow> pmm" where
  "pmm_reserve bm s =
     (let frames = PAGE_ALIGN (bm + bitmap_size s) div PAGE_SIZE in
      pmm_set_bit
        (for_upto (\<lambda>i s. if i < total_pages s then pmm_set_bit s i else s) 0 frames s) 0)"

definition pmm_init :: "bytes \<Rightarrow> u64 \<Rightarrow> u64 \<Rightarrow> u64 \<Rightarrow> u64 \<Rightarrow> pmm option" where
  "pmm_init m kernel_end lfi mb magic =
     (case boot_map m mb magic of
        None \<Rightarrow> None
      | Some es \<Rightarrow>
          (let hi = clamp_highest (map_highest es);
               bm = bitmap_place m kernel_end mb magic hi in
           if 0x40000000 < bm + hi div PAGE_SIZE div 8 then None
           else Some (pmm_reserve bm (pmm_fallback (pmm_init_map m hi magic es bm lfi)))))"


lemma pmm_count_free_eq:
  assumes "unat (total_pages s) \<le> 2 ^ 20"
  shows "pmm_count_free s = s\<lparr>free_memory := of_nat (4096 * card (free_frames s))\<rparr>"
proof -
  let ?F = "\<lambda>j. {i. i < j \<and> \<not> pmm_test_bit s i}"
  have "pmm_count_free s = s\<lparr>free_memory := of_nat (4096 * card (?F (total_pages s)))\<rparr>"
    unfolding pmm_count_free_def
  proof (rule for_upto_induct
      [where P = "\<lambda>j t. t = s\<lparr>free_memory := of_nat (4096 * card (?F j))\<rparr>"])
    fix j t
    assume j: "j < total_pages s" and t: "t = s\<lparr>free_memory := of_nat (4096 * card (?F j))\<rparr>"
    have F: "?F (j + 1) = (if pmm_test_bit s j then ?F j else insert j (?F j))"
      using j by (auto simp: word_less_plus_1)
    have "of_nat (4096 * card (insert j (?F j))) = of_nat (4096 * card (?F j)) + PAGE_SIZE"
      by (simp add: PAGE_SIZE_def algebra_simps)
    then show "(if \<not> pmm_test_bit t j then t\<lparr>free_memory := free_memory t + PAGE_SIZE\<rparr> else t)
        = s\<lparr>free_memory := of_nat (4096 * card (?F (j + 1)))\<rparr>"
      unfolding F by (simp add: t pmm_test_bit_def algebra_simps)
  qed simp_all
  then show ?thesis by (simp add: free_frames_def)
qed

lemma unat_count_free:
  assumes "unat (total_pages s) \<le> 2 ^ 20"
  shows "unat (of_nat (4096 * card (free_frames s)) :: u64) = 4096 * card (free_frames s)"
  by (rule unat_of_nat_small) (use assms free_frames_card_le [of s] in simp)

lemma PAGE_ALIGN_div: "PAGE_ALIGN x div PAGE_SIZE = (x + PAGE_SIZE - 1) div PAGE_SIZE"
proof -
  have "(y AND NOT (4095 :: u64)) div 4096 = y div 4096" for y
  proof -
    have m: "(4095 :: u64) = mask 12" by (simp add: mask_eq_exp_minus_1)
    have "drop_bit 12 (y AND NOT (mask 12)) = drop_bit 12 y"
      by (rule bit_word_eqI) (auto simp: bit_simps dest: bit_imp_le_length)
    then show ?thesis by (simp add: m drop_bit_eq_div)
  qed
  then show ?thesis by (simp add: PAGE_ALIGN_def PAGE_SIZE_def)
qed

lemma for_upto_set_bit:
  "pmm_test_bit (for_upto (\<lambda>i s. pmm_set_bit s i) 0 n s) b \<longleftrightarrow> pmm_test_bit s b \<or> b < n"
  using pmm_test_set_range [of s 0 n b] by (simp add: pmm_set_range_def frame_range_def)

lemma for_upto_bits_fields [simp]:
  "total_pages (for_upto (\<lambda>i s. pmm_set_bit s i) a n s) = total_pages s"
  "last_free_index (for_upto (\<lambda>i s. pmm_set_bit s i) a n s) = last_free_index s"
  "bitmap_size (for_upto (\<lambda>i s. pmm_set_bit s i) a n s) = bitmap_size s"
  "highest_addr (for_upto (\<lambda>i s. pmm_set_bit s i) a n s) = highest_addr s"
  "total_pages (for_upto (\<lambda>i s. pmm_clear_bit s i) a n s) = total_pages s"
  "last_free_index (for_upto (\<lambda>i s. pmm_clear_bit s i) a n s) = last_free_index s"
  "bitmap_size (for_upto (\<lambda>i s. pmm_clear_bit s i) a n s) = bitmap_size s"
  by (simp_all add: for_upto_frame)

lemma pmm_clear_entry_fields [simp]:
  "total_pages (pmm_clear_entry b e s) = total_pages s"
  "last_free_index (pmm_clear_entry b e s) = last_free_index s"
  "bitmap_size (pmm_clear_entry b e s) = bitmap_size s"
  "highest_addr (pmm_clear_entry b e s) = highest_addr s"
  by (simp_all add: pmm_clear_entry_def for_upto_frame)

lemma fold_clear_entry_fields [simp]:
  "total_pages (fold (pmm_clear_entry b) es s) = total_pages s"
  "last_free_index (fold (pmm_clear_entry b) es s) = last_free_index s"
  "bitmap_size (fold (pmm_clear_entry b) es s) = bitmap_size s"
  "highest_addr (fold (pmm_clear_entry b) es s) = highest_addr s"
  by (induction es arbitrary: s) simp_all

lemma pmm_count_free_fields [simp]:
  "total_pages (pmm_count_free s) = total_pages s"
  "last_free_index (pmm_count_free s) = last_free_index s"
  "bitmap_size (pmm_count_free s) = bitmap_size s"
  "highest_addr (pmm_count_free s) = highest_addr s"
  "bitmap (pmm_count_free s) = bitmap s"
  by (simp_all add: pmm_count_free_def for_upto_frame)

lemma pmm_test_bit_bitmap: "bitmap s = bitmap t \<Longrightarrow> pmm_test_bit s b = pmm_test_bit t b"
  by (simp add: pmm_test_bit_def)

lemma pmm_init_map_facts:
  assumes "hi \<le> 0x100000000"
  shows "total_pages (pmm_init_map m hi magic es bm lfi) = hi div PAGE_SIZE"
    and "last_free_index (pmm_init_map m hi magic es bm lfi) = lfi"
    and "bitmap_size (pmm_init_map m hi magic es bm lfi) = hi div PAGE_SIZE div 8"
    and "unat (hi div PAGE_SIZE) \<le> 2 ^ 20"
    and "b < (bm + hi div PAGE_SIZE div 8 + PAGE_SIZE - 1) div PAGE_SIZE \<Longrightarrow>
         pmm_test_bit (pmm_init_map m hi magic es bm lfi) b"
    and "unat (free_memory (pmm_init_map m hi magic es bm lfi)) =
         4096 * card (free_frames (pmm_init_map m hi magic es bm lfi))"
proof -
  have "unat hi \<le> 2 ^ 32" using assms by (simp add: word_le_nat_alt)
  then have "unat hi div 4096 \<le> 2 ^ 32 div 4096" by (rule div_le_mono)
  then show u: "unat (hi div PAGE_SIZE) \<le> 2 ^ 20" by (simp add: PAGE_SIZE_def unat_div)
  show tp: "total_pages (pmm_init_map m hi magic es bm lfi) = hi div PAGE_SIZE"
    "last_free_index (pmm_init_map m hi magic es bm lfi) = lfi"
    "bitmap_size (pmm_init_map m hi magic es bm lfi) = hi div PAGE_SIZE div 8"
    by (simp_all add: pmm_init_map_def Let_def for_upto_frame)
  show "pmm_test_bit (pmm_init_map m hi magic es bm lfi) b"
    if "b < (bm + hi div PAGE_SIZE div 8 + PAGE_SIZE - 1) div PAGE_SIZE"
    using that
    by (simp add: pmm_init_map_def Let_def pmm_test_bit_bitmap [OF pmm_count_free_fields(5)] for_upto_set_bit)
  have tot: "unat (total_pages s) \<le> 2 ^ 20 \<Longrightarrow>
      unat (free_memory (pmm_count_free s)) = 4096 * card (free_frames (pmm_count_free s))" for s
    by (simp add: pmm_count_free_eq unat_count_free del: of_nat_mult)
  show "unat (free_memory (pmm_init_map m hi magic es bm lfi)) =
      4096 * card (free_frames (pmm_init_map m hi magic es bm lfi))"
    unfolding pmm_init_map_def Let_def
    by (rule tot) (use u in \<open>simp add: for_upto_frame\<close>)
qed

lemma clamp_highest_le: "clamp_highest h \<le> 0x100000000"
  by (auto simp: clamp_highest_def)

lemma pmm_reserve_test:
  "pmm_test_bit (pmm_reserve bm s) b \<longleftrightarrow> pmm_test_bit s b \<or> b = 0 \<or>
     b < (bm + bitmap_size s + PAGE_SIZE - 1) div PAGE_SIZE \<and> b < total_pages s"
proof -
  let ?n = "(bm + bitmap_size s + PAGE_SIZE - 1) div PAGE_SIZE"
  let ?f = "\<lambda>i s. if i < total_pages s then pmm_set_bit s i else s"
  have "total_pages (for_upto ?f 0 ?n s) = total_pages s \<and>
      (\<forall>b. pmm_test_bit (for_upto ?f 0 ?n s) b \<longleftrightarrow> pmm_test_bit s b \<or> b < ?n \<and> b < total_pages s)"
  proof (rule for_upto_induct [where P = "\<lambda>j t. total_pages t = total_pages s \<and>
      (\<forall>b. pmm_test_bit t b \<longleftrightarrow> pmm_test_bit s b \<or> b < j \<and> b < total_pages s)"])
    fix j t
    assume j: "j < ?n" and t: "total_pages t = total_pages s \<and>
      (\<forall>b. pmm_test_bit t b \<longleftrightarrow> pmm_test_bit s b \<or> b < j \<and> b < total_pages s)"
    have "b < j + 1 \<longleftrightarrow> b = j \<or> b < j" for b using word_less_plus_1 [OF j, of b] by auto
    with t show "total_pages (if j < total_pages t then pmm_set_bit t j else t) = total_pages s \<and>
        (\<forall>b. pmm_test_bit (if j < total_pages t then pmm_set_bit t j else t) b \<longleftrightarrow>
          pmm_test_bit s b \<or> b < j + 1 \<and> b < total_pages s)"
      by auto
  qed simp_all
  then show ?thesis by (auto simp: pmm_reserve_def Let_def PAGE_ALIGN_div)
qed

lemma pmm_reserve_fields [simp]:
  "total_pages (pmm_reserve bm s) = total_pages s"
  "last_free_index (pmm_reserve bm s) = last_free_index s"
  "free_memory (pmm_reserve bm s) = free_memory s"
  "bitmap_size (pmm_reserve bm s) = bitmap_size s"
  by (simp_all add: pmm_reserve_def Let_def for_upto_frame)

lemma pmm_fallback_fields [simp]:
  "total_pages (pmm_fallback s) = total_pages s"
  "last_free_index (pmm_fallback s) = last_free_index s"
  "bitmap_size (pmm_fallback s) = bitmap_size s"
  by (simp_all add: pmm_fallback_def)

text \<open>An address below the end of the bitmap lies in a frame below the reserved bound.\<close>

lemma reserved_frame:
  assumes "a < e" and "e \<le> (0x40000000 :: u64)"
  shows "a div PAGE_SIZE < (e + PAGE_SIZE - 1) div PAGE_SIZE"
proof -
  have e: "unat e \<le> 0x40000000" using assms(2) by (simp add: word_le_nat_alt)
  have "e + PAGE_SIZE - 1 = e + 4095" "unat PAGE_SIZE = 4096" by (simp_all add: PAGE_SIZE_def)
  moreover have "unat (e + 4095) = unat e + 4095" using e by (simp add: unat_add_no_wrap)
  moreover have "unat a div 4096 < (unat e + 4095) div 4096"
    using assms(1) by (simp add: word_less_nat_alt)
  ultimately show ?thesis by (simp only: word_less_nat_alt unat_div)
qed

lemma pmm_init_cases:
  assumes "pmm_init m ke lfi mb magic = Some s" and "boot_map m mb magic = Some es"
  defines "hi \<equiv> clamp_highest (map_highest es)"
  defines "bm \<equiv> bitmap_place m ke mb magic hi"
  shows "s = pmm_reserve bm (pmm_fallback (pmm_init_map m hi magic es bm lfi))"
    and "bm + bitmap_size s \<le> 0x40000000" and "total_pages s = hi div PAGE_SIZE"
    and "bitmap_size s = hi div PAGE_SIZE div 8"
proof -
  note facts = pmm_init_map_facts [OF clamp_highest_le]
  show s: "s = pmm_reserve bm (pmm_fallback (pmm_init_map m hi magic es bm lfi))"
    using assms by (auto simp: pmm_init_def Let_def split: if_splits)
  show "total_pages s = hi div PAGE_SIZE" "bitmap_size s = hi div PAGE_SIZE div 8"
    by (simp_all add: s hi_def facts)
  then show "bm + bitmap_size s \<le> 0x40000000"
    using assms by (auto simp: pmm_init_def Let_def split: if_splits)
qed

text \<open>The frames that the map reports as available.\<close>

definition map_available :: "mmap_entry list \<Rightarrow> u64 \<Rightarrow> bool" where
  "map_available es f \<longleftrightarrow>
     (\<exists>e\<in>set es. me_type e = 1 \<and> f \<in> frame_range (me_addr e div PAGE_SIZE) (me_len e div PAGE_SIZE))"

lemma pmm_clear_entry_test:
  assumes "f < total_pages s"
  shows "pmm_test_bit (pmm_clear_entry bounded e s) f \<longleftrightarrow> pmm_test_bit s f \<and> \<not> map_available [e] f"
proof (cases "me_type e = 1")
  case True
  let ?a = "me_addr e div PAGE_SIZE" and ?n = "me_len e div PAGE_SIZE"
  let ?g = "\<lambda>i s. if bounded \<and> \<not> ?a + i < total_pages s then s else pmm_clear_bit s (?a + i)"
  have "total_pages (for_upto ?g 0 ?n s) = total_pages s \<and>
      (pmm_test_bit (for_upto ?g 0 ?n s) f \<longleftrightarrow> pmm_test_bit s f \<and> f \<notin> frame_range ?a ?n)"
  proof (rule for_upto_induct [where P = "\<lambda>j t. total_pages t = total_pages s \<and>
      (pmm_test_bit t f \<longleftrightarrow> pmm_test_bit s f \<and> f \<notin> frame_range ?a j)"])
    fix j t
    assume "j < ?n" and t: "total_pages t = total_pages s \<and>
        (pmm_test_bit t f \<longleftrightarrow> pmm_test_bit s f \<and> f \<notin> frame_range ?a j)"
    then have fr: "frame_range ?a (j + 1) = insert (?a + j) (frame_range ?a j)"
      by (simp add: frame_range_plus_1)
    show "total_pages (?g j t) = total_pages s \<and>
        (pmm_test_bit (?g j t) f \<longleftrightarrow> pmm_test_bit s f \<and> f \<notin> frame_range ?a (j + 1))"
      using t assms unfolding fr by auto
  qed simp_all
  with True show ?thesis by (simp add: pmm_clear_entry_def map_available_def)
qed (simp add: pmm_clear_entry_def map_available_def)

lemma fold_clear_entry_test:
  "f < total_pages s \<Longrightarrow> pmm_test_bit (fold (pmm_clear_entry bounded) es s) f \<longleftrightarrow>
     pmm_test_bit s f \<and> \<not> map_available es f"
proof (induction es arbitrary: s)
  case Nil
  then show ?case by (simp add: map_available_def)
next
  case (Cons e es)
  from Cons.IH [of "pmm_clear_entry bounded e s"] Cons.prems show ?case
    by (auto simp: pmm_clear_entry_test map_available_def)
qed

lemma pmm_fill_test:
  assumes "f div 8 < n"
  shows "pmm_test_bit (for_upto (\<lambda>i s. s\<lparr>bitmap := (bitmap s)(i := 0xFF)\<rparr>) 0 n s) f"
proof -
  have "\<forall>i < n. bitmap (for_upto (\<lambda>i s. s\<lparr>bitmap := (bitmap s)(i := 0xFF)\<rparr>) 0 n s) i = 0xFF"
  proof (rule for_upto_induct [where P = "\<lambda>j t. \<forall>i < j. bitmap t i = 0xFF"])
    fix j t assume j: "j < n" and "\<forall>i < j. bitmap t i = 0xFF"
    then show "\<forall>i < j + 1. bitmap (t\<lparr>bitmap := (bitmap t)(j := 0xFF)\<rparr>) i = 0xFF"
      using word_less_plus_1 [OF j] by auto
  qed (simp_all add: word_not_simps)
  moreover have "bit (0xFF :: u8) (unat (f mod 8))"
  proof -
    have "\<forall>k\<in>set [0..<8]. bit (0xFF :: u8) k" by code_simp
    then show ?thesis using unat_mod_8_less [of f] by simp
  qed
  ultimately show ?thesis using assms by (simp add: pmm_test_bit_alt)
qed

text \<open>
  The bitmap has whole bytes: \<open>bitmap_size\<close> rounds down, so that the last frames are covered
  by it only if their number is a multiple of eight.
\<close>

lemma pmm_init_map_free:
  assumes "hi \<le> 0x100000000" and "unat (hi div PAGE_SIZE) mod 8 = 0"
  shows "free_frames (pmm_init_map m hi magic es bm lfi) =
    {f. f < hi div PAGE_SIZE \<and> (bm + hi div PAGE_SIZE div 8 + PAGE_SIZE - 1) div PAGE_SIZE \<le> f \<and>
        map_available es f}"
proof -
  have div8: "x < t \<Longrightarrow> t mod 8 = 0 \<Longrightarrow> x div 8 < t div 8" for x t :: nat
    by (rule less_mult_imp_div_less) (simp add: dvd_div_mult_self mod_0_imp_dvd)
  have "f div 8 < hi div PAGE_SIZE div 8" if "f < hi div PAGE_SIZE" for f
    using div8 [OF that [unfolded word_less_nat_alt] assms(2)]
    by (simp add: word_less_nat_alt unat_div)
  then have "pmm_test_bit (pmm_init_map m hi magic es bm lfi) f \<longleftrightarrow>
      \<not> map_available es f \<or> f < (bm + hi div PAGE_SIZE div 8 + PAGE_SIZE - 1) div PAGE_SIZE"
    if "f < hi div PAGE_SIZE" for f
    using that unfolding pmm_init_map_def Let_def pmm_test_bit_bitmap [OF pmm_count_free_fields(5)]
      for_upto_set_bit
    by (simp add: fold_clear_entry_test pmm_fill_test for_upto_frame)
  then show ?thesis
    by (auto simp: free_frames_def pmm_init_map_facts(1) [OF assms(1)])
qed

section \<open>Properties\<close>

text \<open>
  C1. Page frame isolation. Start from any state in which the accounting is right, and let
  clients take single pages and runs of pages and give back what they hold, in any order. A
  block that the allocator then hands out shares no frame with a block that is still held, all
  its frames were free at the start (so frame 0 and the reserved kernel frames are never
  handed out), and the free-memory counter still counts exactly the free frames.
\<close>

theorem pmm_no_double_allocation:
  assumes "pmm_ok s0"
    and "(alloc_step pmm_request pmm_give_back pmm_admissible)\<^sup>*\<^sup>* (s0, {}) (s, H)"
    and "pmm_admissible r s" and "pmm_request r s = Some (s', Some b)"
  shows "b \<notin> H \<and> (\<forall>c\<in>H. block_frames b \<inter> block_frames c = {}) \<and> block_frames b \<subseteq> free_frames s0 \<and>
    unat (pmm_get_free_memory s') = 4096 * card (free_frames s')"
proof -
  have "pmm_ok s" using frames.client_run [OF assms(2,1)] by (simp add: frames.client_inv_def)
  then have "pmm_ok s'" using pmm_request_Some assms(3,4) by blast
  then show ?thesis
    using frames.run_take_fresh [OF assms(2,1,3,4)] by (simp add: pmm_ok_def pmm_get_free_memory_def)
qed

text \<open>
  C6. \<open>pmm_alloc_pages\<close> returns for every request of at most all pages, and is first fit: if
  some run of that many consecutive frames is free it takes the lowest one and marks exactly
  its frames; otherwise it reports 0 and changes nothing.
\<close>

theorem pmm_alloc_pages_first_fit:
  assumes "pmm_ok s" and "0 < count" and "count \<le> total_pages s"
  shows "(\<exists>s' p. pmm_alloc_pages s count = Some (s', p)) \<and>
    (\<forall>s' p. pmm_alloc_pages s count = Some (s', p) \<longrightarrow>
      (if p = 0 then s' = s \<and> (\<forall>k \<le> total_pages s - count. \<not> frame_range k count \<subseteq> free_frames s)
       else p mod PAGE_SIZE = 0 \<and> frame_range (p div PAGE_SIZE) count \<subseteq> free_frames s \<and>
         (\<forall>k < p div PAGE_SIZE. \<not> frame_range k count \<subseteq> free_frames s) \<and>
         free_frames s' = free_frames s - frame_range (p div PAGE_SIZE) count \<and> pmm_ok s'))"
proof (cases rule: pmm_alloc_pages_cases [OF assms, case_names found none])
  case (found k)
  with pmm_take_ok [OF assms(1) found(2)] show ?thesis by simp
qed simp

text \<open>
  \<open>pmm_alloc_page\<close> fails only when no frame is free. Otherwise the page it returns is
  page-aligned and was free, exactly its frame becomes used, and the counter drops by one page.
\<close>

theorem pmm_alloc_page_correct:
  assumes "pmm_ok s" and "pmm_alloc_page s = (s', p)"
  shows "if p = 0 then free_frames s = {} \<and> s' = s
    else p mod PAGE_SIZE = 0 \<and> p div PAGE_SIZE \<in> free_frames s \<and>
      free_frames s' = free_frames s - {p div PAGE_SIZE} \<and> pmm_ok s' \<and>
      unat (pmm_get_free_memory s') + 4096 = unat (pmm_get_free_memory s)"
proof (cases "p = 0")
  case False
  note a = pmm_alloc_page_Some [OF assms False]
  have "card (free_frames s) = card (free_frames s') + 1"
    using a(1) by (simp add: a(3) card_gt_0_iff) (metis card_gt_0_iff empty_iff finite_words One_nat_def Suc_pred)
  then show ?thesis using False a assms(1) by (simp add: pmm_get_free_memory_def pmm_ok_def)
qed (use pmm_alloc_page_None assms in auto)

text \<open>
  After \<open>pmm_init\<close> no frame with an address below the end of the frame bitmap is free: the
  first megabyte, the kernel image, the boot information placed behind it and the bitmap itself
  are reserved, also on the fallback path.
\<close>

theorem pmm_init_reserves_kernel:
  assumes "pmm_init m kernel_end lfi mb magic = Some s" and "boot_map m mb magic = Some es"
    and "a < bitmap_place m kernel_end mb magic (clamp_highest (map_highest es)) + bitmap_size s"
  shows "a div PAGE_SIZE \<notin> free_frames s"
proof -
  note c = pmm_init_cases [OF assms(1,2)]
  have "a div PAGE_SIZE < (bitmap_place m kernel_end mb magic (clamp_highest (map_highest es)) +
      bitmap_size s + PAGE_SIZE - 1) div PAGE_SIZE"
    by (rule reserved_frame [OF assms(3) c(2)])
  then show ?thesis
    using c(3,4) by (subst c(1)) (auto simp: free_frames_def pmm_reserve_test pmm_init_map_facts [OF clamp_highest_le])
qed


lemma for_upto_clear_bit:
  assumes "a < n"
  shows "\<not> pmm_test_bit (for_upto (\<lambda>i s. pmm_clear_bit s i) a n s) a"
proof -
  have "a < n \<longrightarrow> \<not> pmm_test_bit (for_upto (\<lambda>i s. pmm_clear_bit s i) a n s) a"
  proof (rule for_upto_induct [where P = "\<lambda>j t. a < j \<longrightarrow> \<not> pmm_test_bit t a"])
    fix j t assume "j < n" and "a < j \<longrightarrow> \<not> pmm_test_bit t a"
    then show "a < j + 1 \<longrightarrow> \<not> pmm_test_bit (pmm_clear_bit t j) a"
      using word_less_plus_1 [of j n a] by auto
  qed (use assms in auto)
  with assms show ?thesis by simp
qed

text \<open>
  The fallback of \<open>pmm_init\<close> overstates the free memory. When the boot loader reports no
  available frame, the code frees everything from 1 MB up, counts, and only then reserves the
  kernel and the bitmap again: if these reach above 1 MB, the counter is larger than the memory
  that is free, and stays so.
\<close>

theorem pmm_init_fallback_overcounts:
  assumes "pmm_init m kernel_end 0 mb magic = Some s" and "boot_map m mb magic = Some es"
    and "hi = clamp_highest (map_highest es)" and "0x101000 \<le> hi"
    and "unat (hi div PAGE_SIZE) mod 8 = 0" and "\<not> (\<exists>f. map_available es f)"
    and "0x100000 < bitmap_place m kernel_end mb magic hi + bitmap_size s"
  shows "4096 * card (free_frames s) < unat (pmm_get_free_memory s)"
proof -
  define bm where "bm = bitmap_place m kernel_end mb magic hi"
  let ?i = "pmm_init_map m hi magic es bm 0"
  let ?u = "for_upto (\<lambda>i s. pmm_clear_bit s i) (0x100000 div PAGE_SIZE) (highest_addr ?i div PAGE_SIZE) ?i"
  note c = pmm_init_cases [OF assms(1,2), folded assms(3), folded bm_def]
  have hi: "hi \<le> 0x100000000" using assms(3) clamp_highest_le by simp
  note fa = pmm_init_map_facts [OF hi]
  have ha: "highest_addr ?i = hi" by (simp add: pmm_init_map_def Let_def for_upto_frame)
  have "free_frames ?i = {}" using pmm_init_map_free [OF hi assms(5)] assms(6) by auto
  then have "unat (free_memory ?i) = 0" using fa(6) by simp
  then have "free_memory ?i = 0" by (simp add: unat_eq_zero)
  moreover have big: "0x100000 < hi" using assms(4) by (simp add: word_less_nat_alt word_le_nat_alt)
  ultimately have s: "s = pmm_reserve bm (pmm_count_free ?u)" using c(1) ha by (simp add: pmm_fallback_def)
  have uT: "unat (total_pages ?u) \<le> 2 ^ 20" using fa(1,4) by simp
  have fm: "unat (free_memory s) = 4096 * card (free_frames ?u)"
    using uT by (simp add: s pmm_count_free_eq unat_count_free del: of_nat_mult)
  have lt: "0x100000 div PAGE_SIZE < hi div PAGE_SIZE"
    using assms(4) div_le_mono [of "0x101000" "unat hi" 4096]
    by (simp add: word_less_nat_alt word_le_nat_alt PAGE_SIZE_def unat_div)
  then have mem: "0x100000 div PAGE_SIZE \<in> free_frames ?u"
    using for_upto_clear_bit fa(1) by (simp add: free_frames_def ha)
  have "0x100000 div PAGE_SIZE < (bm + bitmap_size s + PAGE_SIZE - 1) div PAGE_SIZE"
    by (rule reserved_frame) (use assms(7) c(2) bm_def in auto)
  then have "0x100000 div PAGE_SIZE \<notin> free_frames s"
    using lt by (simp add: s free_frames_def pmm_reserve_test fa)
  moreover have "free_frames s \<subseteq> free_frames ?u"
    by (auto simp: s free_frames_def pmm_reserve_test pmm_test_bit_bitmap [OF pmm_count_free_fields(5)])
  ultimately have "free_frames s \<subset> free_frames ?u" using mem by blast
  then have "card (free_frames s) < card (free_frames ?u)" by (simp add: psubset_card_mono)
  then show ?thesis by (simp add: pmm_get_free_memory_def fm)
qed

section \<open>Witnesses\<close>

lemma card_free_frames:
  "card (free_frames s) = length (filter (\<lambda>i. \<not> pmm_test_bit s i) (map of_nat [0..<unat (total_pages s)]))"
proof -
  have "free_frames s = set (filter (\<lambda>i. \<not> pmm_test_bit s i) (map of_nat [0..<unat (total_pages s)]))"
    by (simp add: free_frames_def flip: words_below)
  then show ?thesis by (simp add: distinct_card distinct_words_below del: set_filter set_map)
qed

definition demo_pmm :: pmm where
  "demo_pmm = \<lparr>bitmap = (\<lambda>i. if i = 0 then 0x0F else 0), total_pages = 8, bitmap_size = 1,
     highest_addr = 0x8000, free_memory = 0x4000, last_free_index = 0\<rparr>"

lemma demo_pmm_ok: "pmm_ok demo_pmm"
proof -
  have "card (free_frames demo_pmm) = 4" unfolding card_free_frames by code_simp
  then show ?thesis by (simp add: pmm_ok_def demo_pmm_def pmm_test_bit_alt)
qed

lemma demo_request_1: "pmm_request Page demo_pmm =
    Some (fst (the (pmm_request Page demo_pmm)), Some (0x4000, 1))"
  by (rule result_eqI) code_simp+

lemma demo_request_2: "pmm_request (Pages 2) (fst (the (pmm_request Page demo_pmm))) =
    Some (fst (the (pmm_request (Pages 2) (fst (the (pmm_request Page demo_pmm))))), Some (0x5000, 2))"
  by (rule result_eqI) code_simp+

theorem pmm_no_double_allocation_witness:
  "(let s1 = fst (the (pmm_request Page demo_pmm));
        s2 = fst (the (pmm_request (Pages 2) s1)) in
    pmm_request (Pages 2) s1 = Some (s2, Some (0x5000, 2)) \<and>
    block_frames (0x5000, 2) \<inter> block_frames (0x4000, 1) = {} \<and>
    unat (pmm_get_free_memory s2) = 4096 * card (free_frames s2))"
proof -
  let ?s1 = "fst (the (pmm_request Page demo_pmm))"
  have "alloc_step pmm_request pmm_give_back pmm_admissible (demo_pmm, {}) (?s1, insert (0x4000, 1) {})"
    by (rule alloc_step.take [where r = Page]) (simp add: pmm_admissible_def, rule demo_request_1)
  then have "(alloc_step pmm_request pmm_give_back pmm_admissible)\<^sup>*\<^sup>* (demo_pmm, {}) (?s1, {(0x4000, 1)})"
    by (rule r_into_rtranclp)
  moreover have "pmm_admissible (Pages 2) ?s1" by code_simp
  ultimately show ?thesis
    using pmm_no_double_allocation [OF demo_pmm_ok _ _ demo_request_2] demo_request_2
    by (simp add: Let_def)
qed

lemma demo_pages: "pmm_alloc_pages demo_pmm 3 = Some (fst (the (pmm_alloc_pages demo_pmm 3)), 0x4000)"
  by (rule result_eqI) code_simp+

theorem pmm_alloc_pages_first_fit_witness:
  "pmm_alloc_pages demo_pmm 3 = Some (fst (the (pmm_alloc_pages demo_pmm 3)), 0x4000) \<and>
   frame_range 4 3 \<subseteq> free_frames demo_pmm"
proof -
  have "3 \<le> total_pages demo_pmm" "(0x4000 :: u64) div PAGE_SIZE = 4"
    by (simp_all add: demo_pmm_def PAGE_SIZE_def)
  with pmm_alloc_pages_first_fit [OF demo_pmm_ok, of 3] demo_pages show ?thesis by auto
qed

theorem pmm_alloc_page_correct_witness:
  "snd (pmm_alloc_page demo_pmm) = 0x4000 \<and> 4 \<in> free_frames demo_pmm \<and>
   4 \<notin> free_frames (fst (pmm_alloc_page demo_pmm))"
proof -
  have p: "snd (pmm_alloc_page demo_pmm) = 0x4000" by code_simp
  have "(0x4000 :: u64) div PAGE_SIZE = 4" by (simp add: PAGE_SIZE_def)
  with pmm_alloc_page_correct [OF demo_pmm_ok pair_eqI [OF p]] p show ?thesis by simp
qed

text \<open>
  A Multiboot 1 information block at 0x2000 with one map entry at 0x3000: 64 KiB of available
  memory from address 0, and a kernel that ends at 0x1000. Sixteen frames, of which the bitmap
  takes the second.
\<close>

definition demo_boot :: bytes where
  "demo_boot a =
     (if a = 0x2000 then 0x40 else if a = 0x202C then 24 else if a = 0x2031 then 0x30
      else if a = 0x3000 then 20 else if a = 0x300E then 1 else if a = 0x3014 then 1 else 0)"

lemma demo_boot_map: "boot_map demo_boot 0x2000 MB1_MAGIC =
    Some [\<lparr>me_addr = 0, me_len = 0x10000, me_type = 1\<rparr>]"
  by code_simp


lemma demo_init_values:
  "clamp_highest (map_highest [\<lparr>me_addr = 0, me_len = 0x10000, me_type = 1\<rparr>]) = 0x10000"
  "bitmap_place demo_boot 0x1000 0x2000 MB1_MAGIC 0x10000 = 0x4000"
  by code_simp+

lemma demo_init_returns:
  obtains s where "pmm_init demo_boot 0x1000 0 0x2000 MB1_MAGIC = Some s"
    "bitmap_size s = 2" "total_pages s = 16"
proof -
  have "\<exists>s. pmm_init demo_boot 0x1000 0 0x2000 MB1_MAGIC = Some s"
    by (simp add: pmm_init_def demo_boot_map Let_def demo_init_values PAGE_SIZE_def)
  then obtain s where s: "pmm_init demo_boot 0x1000 0 0x2000 MB1_MAGIC = Some s" ..
  have "total_pages s = 0x10000 div PAGE_SIZE" "bitmap_size s = 0x10000 div PAGE_SIZE div 8"
    using pmm_init_cases(3,4) [OF s demo_boot_map] by (simp_all only: demo_init_values)
  then show thesis using that s by (simp add: PAGE_SIZE_def)
qed

theorem pmm_init_reserves_kernel_witness:
  "\<exists>s. pmm_init demo_boot 0x1000 0 0x2000 MB1_MAGIC = Some s \<and> 2 \<notin> free_frames s"
proof -
  obtain s where s: "pmm_init demo_boot 0x1000 0 0x2000 MB1_MAGIC = Some s"
    "bitmap_size s = 2" "total_pages s = 16" by (rule demo_init_returns)
  have "(0x2000 :: u64) div PAGE_SIZE \<notin> free_frames s"
    by (rule pmm_init_reserves_kernel [OF s(1) demo_boot_map]) (simp add: demo_init_values s)
  then show ?thesis using s by (auto simp: PAGE_SIZE_def)
qed


theorem pmm_init_fallback_overcounts_witness:
  "\<exists>s. pmm_init (\<lambda>_. 0) 0x200000 0 0 MB1_MAGIC = Some s \<and>
       4096 * card (free_frames s) < unat (pmm_get_free_memory s)"
proof -
  have es: "boot_map (\<lambda>_. 0) 0 MB1_MAGIC = Some []" by code_simp
  have h: "clamp_highest (map_highest []) = 0x8000000" by code_simp
  have bp: "bitmap_place (\<lambda>_. 0) 0x200000 0 MB1_MAGIC 0x8000000 = 0x200000" by code_simp
  have "\<exists>s. pmm_init (\<lambda>_. 0) 0x200000 0 0 MB1_MAGIC = Some s"
    by (simp add: pmm_init_def es Let_def h bp PAGE_SIZE_def)
  then obtain s where s: "pmm_init (\<lambda>_. 0) 0x200000 0 0 MB1_MAGIC = Some s" ..
  have "bitmap_size s = 0x8000000 div PAGE_SIZE div 8"
    using pmm_init_cases(4) [OF s es] by (simp only: h)
  then have "bitmap_size s = 0x1000" by (simp add: PAGE_SIZE_def)
  then have "4096 * card (free_frames s) < unat (pmm_get_free_memory s)"
    by (intro pmm_init_fallback_overcounts [OF s es, where hi = "0x8000000"])
      (simp_all add: h bp PAGE_SIZE_def map_available_def)
  with s show ?thesis by blast
qed

end
