(* ===== verification/Strings.thy ===== *)
theory Strings
  imports Prelude
begin

text \<open>
  The string library, \<^verbatim>\<open>kernel/lib/string.c\<close>, on raw memory. Addresses are 64-bit words, so that
  a region is the set of addresses whose distance from its start is below its length; nothing is
  assumed about regions that wrap. The loops of \<open>memset\<close> and \<open>memcpy\<close> that end with
  \<^verbatim>\<open>while (num--)\<close> are recursions on the counter; loops over strings may run forever and are
  partial.
\<close>

section \<open>The code\<close>

definition byte_of :: "nat \<Rightarrow> u64 \<Rightarrow> u8" where
  "byte_of i w = ucast (drop_bit (8 * i) w)"

definition store64 :: "bytes \<Rightarrow> u64 \<Rightarrow> u64 \<Rightarrow> bytes" where
  "store64 m p w = (\<lambda>a. if a - p < 8 then byte_of (unat (a - p)) w else m a)"

definition val64_of :: "u8 \<Rightarrow> u64" where
  "val64_of v =
     (let v1 = (ucast v :: u64); v2 = v1 OR push_bit 8 v1; v3 = v2 OR push_bit 16 v2
      in v3 OR push_bit 32 v3)"

function memset_align :: "u8 \<Rightarrow> bytes \<Rightarrow> u64 \<Rightarrow> u64 \<Rightarrow> bytes \<times> u64 \<times> u64" where
  "memset_align v m p8 num =
     (if p8 AND 7 \<noteq> 0 \<and> 0 < num then memset_align v (m(p8 := v)) (p8 + 1) (num - 1) else (m, p8, num))"
  by pat_completeness auto
termination
  by (relation "measure (\<lambda>(v, m, p, n). unat n)") (auto simp: measure_unat word_gt_0)

function memset_words :: "u64 \<Rightarrow> bytes \<Rightarrow> u64 \<Rightarrow> u64 \<Rightarrow> bytes \<times> u64 \<times> u64" where
  "memset_words w m p64 num =
     (if 8 \<le> num then memset_words w (store64 m p64 w) (p64 + 8) (num - 8) else (m, p64, num))"
  by pat_completeness auto
termination
  by (relation "measure (\<lambda>(w, m, p, n). unat n)") (auto simp: unat_diff_le word_le_nat_alt)

function memset_bytes :: "u8 \<Rightarrow> bytes \<Rightarrow> u64 \<Rightarrow> u64 \<Rightarrow> bytes" where
  "memset_bytes v m p8 num =
     (if num \<noteq> 0 then memset_bytes v (m(p8 := v)) (p8 + 1) (num - 1) else m)"
  by pat_completeness auto
termination
  by (relation "measure (\<lambda>(v, m, p, n). unat n)") (auto simp: measure_unat)

declare memset_align.simps [simp del] memset_words.simps [simp del] memset_bytes.simps [simp del]

definition memset :: "bytes \<Rightarrow> u64 \<Rightarrow> u8 \<Rightarrow> u64 \<Rightarrow> bytes" where
  "memset m ptr v num =
     (let (m1, p1, n1) = memset_align v m ptr num;
          (m2, p2, n2) = memset_words (val64_of v) m1 p1 n1
      in memset_bytes v m2 p2 n2)"

function memcpy_bytes :: "bytes \<Rightarrow> u64 \<Rightarrow> u64 \<Rightarrow> u64 \<Rightarrow> bytes" where
  "memcpy_bytes m d8 s8 num =
     (if num \<noteq> 0 then memcpy_bytes (m(d8 := m s8)) (d8 + 1) (s8 + 1) (num - 1) else m)"
  by pat_completeness auto
termination
  by (relation "measure (\<lambda>(m, d, s, n). unat n)") (auto simp: measure_unat)

function memcpy_align :: "bytes \<Rightarrow> u64 \<Rightarrow> u64 \<Rightarrow> u64 \<Rightarrow> bytes \<times> u64 \<times> u64 \<times> u64" where
  "memcpy_align m d8 s8 num =
     (if d8 AND 7 \<noteq> 0 \<and> 0 < num then memcpy_align (m(d8 := m s8)) (d8 + 1) (s8 + 1) (num - 1)
      else (m, d8, s8, num))"
  by pat_completeness auto
termination
  by (relation "measure (\<lambda>(m, d, s, n). unat n)") (auto simp: measure_unat word_gt_0)

function memcpy_words :: "bytes \<Rightarrow> u64 \<Rightarrow> u64 \<Rightarrow> u64 \<Rightarrow> bytes \<times> u64 \<times> u64 \<times> u64" where
  "memcpy_words m d64 s64 num =
     (if 8 \<le> num then memcpy_words (store64 m d64 (load64 m s64)) (d64 + 8) (s64 + 8) (num - 8)
      else (m, d64, s64, num))"
  by pat_completeness auto
termination
  by (relation "measure (\<lambda>(m, d, s, n). unat n)") (auto simp: unat_diff_le word_le_nat_alt)

declare memcpy_bytes.simps [simp del] memcpy_align.simps [simp del] memcpy_words.simps [simp del]

definition memcpy :: "bytes \<Rightarrow> u64 \<Rightarrow> u64 \<Rightarrow> u64 \<Rightarrow> bytes" where
  "memcpy m dest src num =
     (if num < 8 then memcpy_bytes m dest src num
      else
        (let (m1, d1, s1, n1) = memcpy_align m dest src num;
             (m2, d2, s2, n2) = memcpy_words m1 d1 s1 n1
         in memcpy_bytes m2 d2 s2 n2))"

function memcmp :: "bytes \<Rightarrow> u64 \<Rightarrow> u64 \<Rightarrow> u64 \<Rightarrow> int" where
  "memcmp m p1 p2 num =
     (if num \<noteq> 0 then
        (if m p1 \<noteq> m p2 then uint (m p1) - uint (m p2) else memcmp m (p1 + 1) (p2 + 1) (num - 1))
      else 0)"
  by pat_completeness auto
termination
  by (relation "measure (\<lambda>(m, d, s, n). unat n)") (auto simp: measure_unat)

declare memcmp.simps [simp del]

partial_function (option) strlen_loop :: "bytes \<Rightarrow> u64 \<Rightarrow> u64 \<Rightarrow> u64 option" where
  "strlen_loop m str len = (if m (str + len) \<noteq> 0 then strlen_loop m str (len + 1) else Some len)"

definition strlen :: "bytes \<Rightarrow> u64 \<Rightarrow> u64 option" where
  "strlen m str = strlen_loop m str 0"

partial_function (option) strcmp :: "bytes \<Rightarrow> u64 \<Rightarrow> u64 \<Rightarrow> int option" where
  "strcmp m s1 s2 =
     (if m s1 \<noteq> 0 \<and> m s1 = m s2 then strcmp m (s1 + 1) (s2 + 1)
      else Some (uint (m s1) - uint (m s2)))"

function strncmp :: "bytes \<Rightarrow> u64 \<Rightarrow> u64 \<Rightarrow> u64 \<Rightarrow> int" where
  "strncmp m s1 s2 n =
     (if n \<noteq> 0 \<and> m s1 \<noteq> 0 \<and> m s1 = m s2 then strncmp m (s1 + 1) (s2 + 1) (n - 1)
      else if n = 0 then 0
      else uint (m s1) - uint (m s2))"
  by pat_completeness auto
termination
  by (relation "measure (\<lambda>(m, d, s, n). unat n)") (auto simp: measure_unat)

declare strncmp.simps [simp del]

partial_function (option) strcpy :: "bytes \<Rightarrow> u64 \<Rightarrow> u64 \<Rightarrow> bytes option" where
  "strcpy m d src =
     (let m' = m(d := m src) in if m src \<noteq> 0 then strcpy m' (d + 1) (src + 1) else Some m')"

function strncpy_copy :: "bytes \<Rightarrow> u64 \<Rightarrow> u64 \<Rightarrow> u64 \<Rightarrow> bytes \<times> u64 \<times> u64" where
  "strncpy_copy m d src n =
     (if 0 < n \<and> m src \<noteq> 0 then strncpy_copy (m(d := m src)) (d + 1) (src + 1) (n - 1) else (m, d, n))"
  by pat_completeness auto
termination
  by (relation "measure (\<lambda>(m, d, s, n). unat n)") (auto simp: measure_unat word_gt_0)

declare strncpy_copy.simps [simp del]

definition strncpy :: "bytes \<Rightarrow> u64 \<Rightarrow> u64 \<Rightarrow> u64 \<Rightarrow> bytes" where
  "strncpy m dest src n =
     (let (m1, d1, n1) = strncpy_copy m dest src n in memset_bytes 0 m1 d1 n1)"

definition tolower :: "u8 \<Rightarrow> u8" where
  "tolower c = (if 65 \<le> c \<and> c \<le> 90 then c + 32 else c)"

partial_function (option) strcasecmp :: "bytes \<Rightarrow> u64 \<Rightarrow> u64 \<Rightarrow> int option" where
  "strcasecmp m s1 s2 =
     (if m s1 \<noteq> 0 \<and> tolower (m s1) = tolower (m s2) then strcasecmp m (s1 + 1) (s2 + 1)
      else Some (uint (tolower (m s1)) - uint (tolower (m s2))))"

declare strlen_loop.simps [code] strcmp.simps [code] strcpy.simps [code] strcasecmp.simps [code]

section \<open>Filling and copying regions\<close>

definition region_set :: "bytes \<Rightarrow> u64 \<Rightarrow> u8 \<Rightarrow> u64 \<Rightarrow> bytes" where
  "region_set m p v n = (\<lambda>a. if a - p < n then v else m a)"

definition region_copy :: "bytes \<Rightarrow> u64 \<Rightarrow> u64 \<Rightarrow> u64 \<Rightarrow> bytes" where
  "region_copy m d s n = (\<lambda>a. if a - d < n then m (s + (a - d)) else m a)"

text \<open>Splitting a region of length \<open>n\<close> after \<open>k\<close> bytes.\<close>

lemma region_split:
  fixes x k n :: u64
  assumes "k \<le> n"
  shows "x < n \<longleftrightarrow> x < k \<or> k \<le> x \<and> x - k < n - k" and "x < k \<Longrightarrow> \<not> x - k < n - k"
proof -
  have n: "unat (n - k) = unat n - unat k" "unat k \<le> unat n" "unat n < 2 ^ 64"
    using assms unsigned_less [of n] by (auto simp: unat_sub word_le_nat_alt)
  then show "x < n \<longleftrightarrow> x < k \<or> k \<le> x \<and> x - k < n - k"
    by (auto simp: word_less_nat_alt word_le_nat_alt unat_sub_if')
  show "x < k \<Longrightarrow> \<not> x - k < n - k"
    using n by (auto simp: word_less_nat_alt unat_sub_if')
qed

lemma region_set_split:
  assumes "k \<le> n"
  shows "region_set (region_set m p v k) (p + k) v (n - k) = region_set m p v n"
proof
  fix a
  have e: "a - (p + k) = (a - p) - k" by simp
  show "region_set (region_set m p v k) (p + k) v (n - k) a = region_set m p v n a"
    unfolding region_set_def e using region_split [OF assms, of "a - p"] by auto
qed

text \<open>The source must not start inside the destination, unless the two are the same.\<close>

lemma region_copy_split:
  assumes "k \<le> n" and "n \<le> d - s \<or> d = s"
  shows "region_copy (region_copy m d s k) (d + k) (s + k) (n - k) = region_copy m d s n"
proof
  fix a
  define x where "x = a - d"
  have e: "a - (d + k) = x - k" and sx: "s + k + (x - k) = s + x" by (simp_all add: x_def)
  have "\<not> s + x - d < k" if "k \<le> x" "x < n"
  proof (cases "d = s")
    case False
    define w where "w = d - s"
    have "n \<le> w" using False assms(2) by (simp add: w_def)
    moreover have "unat w < 2 ^ 64" using unsigned_less [of w] by simp
    ultimately have "\<not> x - w < k" using that by (simp add: word_less_nat_alt word_le_nat_alt unat_sub_if')
    moreover have "s + x - d = x - w" by (simp add: w_def)
    ultimately show ?thesis by (simp only: not_False_eq_True)
  qed (use that in simp)
  then show "region_copy (region_copy m d s k) (d + k) (s + k) (n - k) a = region_copy m d s n a"
    unfolding region_copy_def e sx x_def [symmetric] using region_split [OF assms(1), of x] by auto
qed

lemma region_set_0 [simp]: "region_set m p v 0 = m"
  and region_copy_0 [simp]: "region_copy m d s 0 = m"
  by (auto simp: region_set_def region_copy_def)

lemma word_less_1: "x < 1 \<longleftrightarrow> x = 0" for x :: "'a::len word"
  by (simp add: word_less_nat_alt unat_eq_zero)

lemma region_set_1: "region_set m p v 1 = m(p := v)"
  and region_copy_1: "region_copy m d s 1 = m(d := m s)"
  by (auto simp: region_set_def region_copy_def word_less_1)

lemma unat_less_8: "x < 8 \<longleftrightarrow> unat x < 8" for x :: u64
  by (simp add: word_less_nat_alt)

lemma below_8: "(i :: nat) < 8 \<longleftrightarrow> i = 0 \<or> i = 1 \<or> i = 2 \<or> i = 3 \<or> i = 4 \<or> i = 5 \<or> i = 6 \<or> i = 7"
  by auto

lemma no_high_bit: "8 \<le> k \<Longrightarrow> \<not> bit (x :: u8) k"
  using bit_imp_le_length by fastforce

lemma byte_of_val64: "i < 8 \<Longrightarrow> byte_of i (val64_of v) = v"
proof -
  have "byte_of 0 (val64_of v) = v" "byte_of 1 (val64_of v) = v" "byte_of 2 (val64_of v) = v"
    "byte_of 3 (val64_of v) = v" "byte_of 4 (val64_of v) = v" "byte_of 5 (val64_of v) = v"
    "byte_of 6 (val64_of v) = v" "byte_of 7 (val64_of v) = v"
    by (rule bit_word_eqI, simp add: byte_of_def val64_of_def Let_def bit_simps no_high_bit)+
  then show "i < 8 \<Longrightarrow> byte_of i (val64_of v) = v" unfolding below_8 by blast
qed

lemma byte_of_load64: "i < 8 \<Longrightarrow> byte_of i (load64 m a) = m (a + of_nat i)"
proof -
  have "byte_of 0 (load64 m a) = m a" "byte_of 1 (load64 m a) = m (a + 1)" "byte_of 2 (load64 m a) = m (a + 2)"
    "byte_of 3 (load64 m a) = m (a + 3)" "byte_of 4 (load64 m a) = m (a + 4)" "byte_of 5 (load64 m a) = m (a + 5)"
    "byte_of 6 (load64 m a) = m (a + 6)" "byte_of 7 (load64 m a) = m (a + 7)"
    by (rule bit_word_eqI, simp add: byte_of_def load64_def load32_def load16_def bit_simps no_high_bit add.assoc)+
  then show "i < 8 \<Longrightarrow> byte_of i (load64 m a) = m (a + of_nat i)" unfolding below_8 by auto
qed

lemma store64_val64: "store64 m p (val64_of v) = region_set m p v 8"
  by (auto simp: store64_def region_set_def byte_of_val64 unat_less_8)

lemma store64_load64: "store64 m d (load64 m s) = region_copy m d s 8"
  by (auto simp: store64_def region_copy_def byte_of_load64 unat_less_8)

lemma region_set_step: "n \<noteq> 0 \<Longrightarrow> region_set (m(p := v)) (p + 1) v (n - 1) = region_set m p v n"
  using region_set_split [of 1 n m p v] by (simp add: region_set_1 word_le_nat_alt unat_gt_0 Suc_le_eq)

lemma region_copy_step:
  "n \<noteq> 0 \<Longrightarrow> n \<le> d - s \<or> d = s \<Longrightarrow>
     region_copy (m(d := m s)) (d + 1) (s + 1) (n - 1) = region_copy m d s n"
  using region_copy_split [of 1 n d s m] by (simp add: region_copy_1 word_le_nat_alt unat_gt_0 Suc_le_eq)

lemma memset_align_inv:
  "memset_align v m p n = (m', p', n') \<Longrightarrow> region_set m' p' v n' = region_set m p v n"
proof (induction v m p n rule: memset_align.induct)
  case (1 v m p n)
  show ?case
  proof (cases "p AND 7 \<noteq> 0 \<and> 0 < n")
    case True
    then have "memset_align v (m(p := v)) (p + 1) (n - 1) = (m', p', n')"
      using 1(2) by (subst (asm) memset_align.simps) simp
    from 1(1) [OF True this] True show ?thesis by (simp add: region_set_step word_gt_0 flip: fun_upd_def)
  next
    case False
    then show ?thesis using 1(2) by (subst (asm) memset_align.simps) auto
  qed
qed

lemma memset_words_inv:
  "memset_words (val64_of v) m p n = (m', p', n') \<Longrightarrow> region_set m' p' v n' = region_set m p v n"
proof (induction "val64_of v" m p n rule: memset_words.induct)
  case (1 m p n)
  show ?case
  proof (cases "8 \<le> n")
    case True
    then have "memset_words (val64_of v) (store64 m p (val64_of v)) (p + 8) (n - 8) = (m', p', n')"
      using 1(2) by (subst (asm) memset_words.simps) simp
    from 1(1) [OF True this] True show ?thesis by (simp add: store64_val64 region_set_split)
  next
    case False
    then show ?thesis using 1(2) by (subst (asm) memset_words.simps) simp
  qed
qed

lemma memset_bytes_eq: "memset_bytes v m p n = region_set m p v n"
proof (induction v m p n rule: memset_bytes.induct)
  case (1 v m p n)
  then show ?case by (subst memset_bytes.simps) (simp add: region_set_step flip: fun_upd_def)
qed

lemma memcpy_bytes_eq: "n \<le> d - s \<or> d = s \<Longrightarrow> memcpy_bytes m d s n = region_copy m d s n"
proof (induction m d s n rule: memcpy_bytes.induct)
  case (1 m d s n)
  show ?case
  proof (cases "n = 0")
    case False
    then have "n - 1 \<le> (d + 1) - (s + 1) \<or> d + 1 = s + 1"
      using 1(2) by (auto simp: word_le_nat_alt unat_minus_one)
    with 1(1) [OF False] False 1(2) show ?thesis by (subst memcpy_bytes.simps) (simp add: region_copy_step flip: fun_upd_def)
  qed (subst memcpy_bytes.simps, simp)
qed

lemma memcpy_align_inv:
  "memcpy_align m d s n = (m', d', s', n') \<Longrightarrow> n \<le> d - s \<or> d = s \<Longrightarrow>
     region_copy m' d' s' n' = region_copy m d s n \<and> (n' \<le> d' - s' \<or> d' = s')"
proof (induction m d s n rule: memcpy_align.induct)
  case (1 m d s n)
  show ?case
  proof (cases "d AND 7 \<noteq> 0 \<and> 0 < n")
    case True
    then have r: "memcpy_align (m(d := m s)) (d + 1) (s + 1) (n - 1) = (m', d', s', n')"
      using 1(2) by (subst (asm) memcpy_align.simps) simp
    have "n - 1 \<le> (d + 1) - (s + 1) \<or> d + 1 = s + 1"
      using 1(3) True by (auto simp: word_le_nat_alt unat_minus_one word_gt_0)
    from 1(1) [OF True r this] True 1(3) show ?thesis by (simp add: region_copy_step word_gt_0 flip: fun_upd_def)
  next
    case False
    then show ?thesis using 1(2,3) by (subst (asm) memcpy_align.simps) auto
  qed
qed

lemma memcpy_words_inv:
  "memcpy_words m d s n = (m', d', s', n') \<Longrightarrow> n \<le> d - s \<or> d = s \<Longrightarrow>
     region_copy m' d' s' n' = region_copy m d s n \<and> (n' \<le> d' - s' \<or> d' = s')"
proof (induction m d s n rule: memcpy_words.induct)
  case (1 m d s n)
  show ?case
  proof (cases "8 \<le> n")
    case True
    then have r: "memcpy_words (store64 m d (load64 m s)) (d + 8) (s + 8) (n - 8) = (m', d', s', n')"
      using 1(2) by (subst (asm) memcpy_words.simps) simp
    have "n - 8 \<le> (d + 8) - (s + 8) \<or> d + 8 = s + 8"
      using 1(3) True by (auto simp: word_le_nat_alt unat_sub)
    from 1(1) [OF True r this] True 1(3) show ?thesis by (simp add: store64_load64 region_copy_split)
  next
    case False
    then show ?thesis using 1(2,3) by (subst (asm) memcpy_words.simps) simp
  qed
qed

lemma memset_eq: "memset m ptr v n = region_set m ptr v n"
proof -
  obtain m1 p1 n1 where 1: "memset_align v m ptr n = (m1, p1, n1)" by (metis prod_cases3)
  obtain m2 p2 n2 where 2: "memset_words (val64_of v) m1 p1 n1 = (m2, p2, n2)" by (metis prod_cases3)
  show ?thesis
    using memset_align_inv [OF 1] memset_words_inv [OF 2] by (simp add: memset_def 1 2 memset_bytes_eq)
qed

lemma memcpy_eq:
  assumes "num \<le> dest - src \<or> dest = src"
  shows "memcpy m dest src num = region_copy m dest src num"
proof -
  obtain m3 d3 s3 n3 where 3: "memcpy_align m dest src num = (m3, d3, s3, n3)" by (metis prod_cases4)
  obtain m4 d4 s4 n4 where 4: "memcpy_words m3 d3 s3 n3 = (m4, d4, s4, n4)" by (metis prod_cases4)
  show ?thesis
    using memcpy_align_inv [OF 3 assms] memcpy_words_inv [OF 4] assms
    by (simp add: memcpy_def 3 4 memcpy_bytes_eq)
qed

text \<open>
  C17. The word-at-a-time \<open>memset\<close> and \<open>memcpy\<close> equal the byte-wise specification: exactly the bytes of the
  destination region change, at every alignment and length, and they take the fill value or the
  values the source region had before the call. \<open>memcpy\<close> needs only that the destination does not
  start inside the source region; a destination below an overlapping source is copied correctly.
\<close>
theorem memset_memcpy_regions:
  assumes "num \<le> dest - src \<or> dest = src"
  shows "memset m ptr v n = region_set m ptr v n \<and> memcpy m dest src num = region_copy m dest src num"
  using memset_eq memcpy_eq [OF assms] by simp

theorem memset_memcpy_regions_witness:
  "(20::u64) \<le> 0x2003 - 0x3001 \<and> memset (\<lambda>a. ucast a) 0x1003 7 21 = region_set (\<lambda>a. ucast a) 0x1003 7 21 \<and>
   memcpy (\<lambda>a. ucast a) 0x2003 0x3001 20 = region_copy (\<lambda>a. ucast a) 0x2003 0x3001 20"
proof
  show h: "(20::u64) \<le> 0x2003 - 0x3001" by simp
  show "memset (\<lambda>a. ucast a) 0x1003 7 21 = region_set (\<lambda>a. ucast a) 0x1003 7 21 \<and>
    memcpy (\<lambda>a. ucast a) 0x2003 0x3001 20 = region_copy (\<lambda>a. ucast a) 0x2003 0x3001 20"
    by (rule memset_memcpy_regions [OF disjI1 [OF h]])
qed

section \<open>C strings\<close>

primrec cstr :: "bytes \<Rightarrow> u64 \<Rightarrow> u8 list \<Rightarrow> bool" where
  "cstr m s [] \<longleftrightarrow> m s = 0"
| "cstr m s (x # xs) \<longleftrightarrow> m s = x \<and> x \<noteq> 0 \<and> cstr m (s + 1) xs"

lemma cstr_unique: "cstr m s xs \<Longrightarrow> cstr m s ys \<Longrightarrow> xs = ys"
proof (induction xs arbitrary: s ys)
  case Nil
  then show ?case by (cases ys) auto
next
  case (Cons x xs)
  then show ?case by (cases ys) auto
qed

lemma strlen_loop_cstr: "cstr m (s + k) xs \<Longrightarrow> strlen_loop m s k = Some (k + of_nat (length xs))"
proof (induction xs arbitrary: k)
  case (Cons x xs)
  from Cons.prems have "strlen_loop m s (k + 1) = Some (k + 1 + of_nat (length xs))"
    by (intro Cons.IH) (simp add: add.assoc)
  with Cons.prems show ?case by (subst strlen_loop.simps) (simp add: add.assoc)
qed (subst strlen_loop.simps, simp)

lemma strlen_cstr: "cstr m s xs \<Longrightarrow> strlen m s = Some (of_nat (length xs))"
  using strlen_loop_cstr [of m s 0 xs] by (simp add: strlen_def)

lemma uint_pos: "(x :: u8) \<noteq> 0 \<Longrightarrow> 0 < uint x"
  by (metis order_less_le uint_ge_0 unsigned_0 word_uint_eq_iff)

lemma strcmp_cstr:
  "cstr m s xs \<Longrightarrow> cstr m t ys \<Longrightarrow>
     \<exists>r. strcmp m s t = Some r \<and> (r = 0 \<longleftrightarrow> xs = ys) \<and> (r < 0 \<longleftrightarrow> (xs, ys) \<in> lexord {(a, b). a < b})"
proof (induction xs arbitrary: s t ys)
  case Nil
  then show ?case by (subst strcmp.simps) (cases ys; auto simp: uint_pos dest: uint_pos)
next
  case (Cons x xs)
  show ?case
  proof (cases ys)
    case Nil
    with Cons.prems show ?thesis by (subst strcmp.simps) (auto simp: not_less dest: uint_pos)
  next
    case (Cons y ys')
    have *: "uint a - uint b = 0 \<longleftrightarrow> a = b" "uint a - uint b < 0 \<longleftrightarrow> a < b" for a b :: u8
      by (auto simp: word_less_def word_uint_eq_iff)
    show ?thesis
    proof (cases "x = y")
      case True
      with Cons Cons.prems Cons.IH [of "s + 1" "t + 1" ys'] show ?thesis by (subst strcmp.simps) auto
    next
      case False
      with Cons Cons.prems * [of x y] show ?thesis by (subst strcmp.simps) auto
    qed
  qed
qed

lemma cstr_cong: "(\<And>i. i \<le> length xs \<Longrightarrow> m' (s + of_nat i) = m (t + of_nat i)) \<Longrightarrow> cstr m t xs \<Longrightarrow> cstr m' s xs"
proof (induction xs arbitrary: s t)
  case Nil
  then show ?case using Nil.prems(1) [of 0] by simp
next
  case (Cons x xs)
  have "m' (s + 1 + of_nat i) = m (t + 1 + of_nat i)" if "i \<le> length xs" for i
    using Cons.prems(1) [of "Suc i"] that by (simp add: add.assoc)
  with Cons.IH [of "s + 1" "t + 1"] Cons.prems(1) [of 0] Cons.prems(2) show ?case by simp
qed

lemma outside_source:
  fixes d s :: u64
  assumes "of_nat (Suc k) \<le> d - s" and "Suc k < 2 ^ 64" and "i \<le> k"
  shows "s + of_nat i \<noteq> d"
proof
  assume "s + of_nat i = d"
  then have "d - s = of_nat i" by auto
  with assms show False by (simp add: word_le_nat_alt unat_of_nat_small del: of_nat_Suc)
qed

lemma strcpy_cstr:
  "cstr m s xs \<Longrightarrow> Suc (length xs) < 2 ^ 64 \<Longrightarrow> of_nat (Suc (length xs)) \<le> d - s \<or> d = s \<Longrightarrow>
     strcpy m d s = Some (region_copy m d s (of_nat (Suc (length xs))))"
proof (induction xs arbitrary: m d s)
  case Nil
  then show ?case by (subst strcpy.simps) (simp add: region_copy_1)
next
  case (Cons x xs)
  let ?n = "of_nat (Suc (length (x # xs))) :: u64" and ?m = "m(d := m s)"
  have n: "?n - 1 = of_nat (Suc (length xs))" by simp
  have "unat ?n = Suc (Suc (length xs))"
    using Cons.prems(2) unat_of_nat_small [of "Suc (length (x # xs))", where 'a = 64] by (simp del: of_nat_Suc)
  then have n: "?n - 1 = of_nat (Suc (length xs))" "?n \<noteq> 0" "unat ?n = Suc (Suc (length xs))"
    using n by (auto simp: word_unat_eq_iff simp del: of_nat_Suc)
  have "?m (s + 1 + of_nat i) = m (s + 1 + of_nat i)" if "i \<le> length xs" for i
    using Cons.prems(3) outside_source [of "length (x # xs)" d s "Suc i"] Cons.prems(2) that
    by (auto simp: add.assoc)
  from cstr_cong [where m' = ?m and s = "s + 1", OF this] Cons.prems(1)
  have c: "cstr ?m (s + 1) xs" by simp
  have d: "of_nat (Suc (length xs)) \<le> (d + 1) - (s + 1) \<or> d + 1 = s + 1"
    using Cons.prems(2,3) n(3) unat_of_nat_small [of "Suc (length xs)", where 'a = 64]
    by (auto simp: word_le_nat_alt simp del: of_nat_Suc)
  have "strcpy m d s = strcpy ?m (d + 1) (s + 1)"
    using Cons.prems(1) by (subst strcpy.simps) simp
  also have "\<dots> = Some (region_copy ?m (d + 1) (s + 1) (?n - 1))"
    using Cons.IH [OF c _ d] Cons.prems(2) n(1) by (simp flip: fun_upd_def)
  finally show ?case using region_copy_step [OF n(2)] Cons.prems(3) by simp
qed

lemma disjoint_offset:
  fixes d s :: u64
  assumes "of_nat n \<le> d - s" "of_nat n \<le> s - d" "n < 2 ^ 64" "i < n"
  shows "\<not> s + of_nat i - d < of_nat n"
proof -
  define x where "x = s - d"
  have x: "n \<le> unat x" "n \<le> unat (- x)"
    using assms by (simp_all add: x_def word_le_nat_alt unat_of_nat_small)
  moreover have "unat (- x) = 2 ^ 64 - unat x" using x(2) assms(4) unat_sub_if' [of 0 x] by (auto split: if_splits)
  ultimately have "unat (x + of_nat i) = unat x + i"
    using assms(3,4) by (subst unat_add_no_wrap) (auto simp: unat_of_nat_small)
  moreover have "s + of_nat i - d = x + of_nat i" by (simp add: x_def)
  ultimately have "unat (s + of_nat i - d) = unat x + i" by (simp only:)
  then show ?thesis using x(1) assms(3) by (simp add: word_less_nat_alt unat_of_nat_small)
qed

text \<open>
  A copied string reads back: when source and destination do not overlap, \<open>strcpy\<close> returns, the
  destination then holds the same C string, \<open>strcmp\<close> finds the two equal and \<open>strlen\<close> gives the
  length of the original, and no byte outside the destination region has changed.
\<close>
theorem strcpy_roundtrip:
  assumes "cstr m s xs" and "Suc (length xs) < 2 ^ 64"
    and "of_nat (Suc (length xs)) \<le> d - s" and "of_nat (Suc (length xs)) \<le> s - d"
  shows "\<exists>m'. strcpy m d s = Some m' \<and> cstr m' d xs \<and> cstr m' s xs \<and>
           strcmp m' d s = Some 0 \<and> strlen m' d = Some (of_nat (length xs)) \<and>
           (\<forall>a. \<not> a - d < of_nat (Suc (length xs)) \<longrightarrow> m' a = m a)"
proof -
  let ?m = "region_copy m d s (of_nat (Suc (length xs)))"
  have in_d: "(of_nat i :: u64) < of_nat (Suc (length xs))" if "i \<le> length xs" for i
    using that assms(2) by (simp add: word_less_nat_alt unat_of_nat_small del: of_nat_Suc)
  have d: "cstr ?m d xs"
    by (rule cstr_cong [where m = m and t = s]) (use assms(1) in_d in \<open>simp_all add: region_copy_def del: of_nat_Suc\<close>)
  have "\<not> s + of_nat i - d < of_nat (Suc (length xs))" if "i \<le> length xs" for i
    using disjoint_offset [of "Suc (length xs)" d s i] assms that by simp
  then have s: "cstr ?m s xs"
    by (intro cstr_cong [where m = m and t = s and m' = ?m, OF _ assms(1)])
      (simp add: region_copy_def del: of_nat_Suc)
  have "strcmp ?m d s = Some 0" using strcmp_cstr [OF d s] by auto
  moreover have "strcpy m d s = Some ?m" using strcpy_cstr [OF assms(1,2)] assms(3) by blast
  ultimately show ?thesis using d s strlen_cstr [OF d]
    by (intro exI [of _ ?m]) (simp add: region_copy_def del: of_nat_Suc)
qed

definition demo_string :: bytes where
  "demo_string = (\<lambda>_. 0xAA)(0x1000 := 0x72, 0x1001 := 0x78, 0x1002 := 0)"

theorem strcpy_roundtrip_witness:
  "cstr demo_string 0x1000 [0x72, 0x78] \<and>
   (\<exists>m'. strcpy demo_string 0x2000 0x1000 = Some m' \<and> cstr m' 0x2000 [0x72, 0x78])"
proof
  show c: "cstr demo_string 0x1000 [0x72, 0x78]" by (simp add: demo_string_def)
  from strcpy_roundtrip [OF this, of "0x2000"]
  show "\<exists>m'. strcpy demo_string 0x2000 0x1000 = Some m' \<and> cstr m' 0x2000 [0x72, 0x78]" by auto
qed

end
