(* ===== verification/Vmm.thy ===== *)
theory Vmm
  imports Pmm Heap Strings
begin

text \<open>
  The virtual memory manager, \<^verbatim>\<open>kernel/memory/vmm.c\<close>, and the mapping of the kernel heap by
  \<open>heap_init\<close> of \<^verbatim>\<open>kernel/memory/heap.c\<close>. Page tables are 64-bit entries in raw memory, which is
  identity mapped (\<open>phys_to_virt\<close> is the identity); new tables come from the frame allocator and are
  cleared by \<open>memset\<close>. The processor's own page walk is the specification the tables are judged by.
  Translation caches (\<^verbatim>\<open>invlpg\<close>, reloading \<^verbatim>\<open>cr3\<close>) and console output are not modelled.
\<close>

section \<open>The code\<close>

record vmm =
  pm :: pmm
  mem :: bytes
  current_pml4 :: u64
  mmio_virt_base :: u64

definition PTE_PRESENT :: u64 where "PTE_PRESENT = 1"
definition PTE_WRITABLE :: u64 where "PTE_WRITABLE = 2"
definition PTE_USER :: u64 where "PTE_USER = 4"

definition PTE_FRAME :: u64 where "PTE_FRAME = 0xFFFFFFFFFF000"

definition phys_to_virt :: "u64 \<Rightarrow> u64" where
  "phys_to_virt phys = phys"

definition pml4_index :: "u64 \<Rightarrow> u64" where "pml4_index virt = drop_bit 39 virt AND 0x1FF"
definition pdp_index :: "u64 \<Rightarrow> u64" where "pdp_index virt = drop_bit 30 virt AND 0x1FF"
definition pd_index :: "u64 \<Rightarrow> u64" where "pd_index virt = drop_bit 21 virt AND 0x1FF"
definition pt_index :: "u64 \<Rightarrow> u64" where "pt_index virt = drop_bit 12 virt AND 0x1FF"

definition entry :: "bytes \<Rightarrow> u64 \<Rightarrow> u64 \<Rightarrow> u64" where
  "entry m t i = load64 m (t + 8 * i)"

definition set_entry :: "bytes \<Rightarrow> u64 \<Rightarrow> u64 \<Rightarrow> u64 \<Rightarrow> bytes" where
  "set_entry m t i e = store64 m (t + 8 * i) e"

definition vmm_init :: "pmm \<Rightarrow> bytes \<Rightarrow> u64 \<Rightarrow> vmm" where
  "vmm_init p m cr3 =
     \<lparr>pm = p, mem = m, current_pml4 = phys_to_virt cr3, mmio_virt_base = 0xFFFF800000000000\<rparr>"

text \<open>One level of \<open>vmm_map_page\<close>: allocate and link the next table when it is missing, and follow.\<close>

definition vmm_table :: "vmm \<Rightarrow> u64 \<Rightarrow> u64 \<Rightarrow> vmm \<times> u64" where
  "vmm_table s t i =
     (let s1 =
        (if entry (mem s) t i AND PTE_PRESENT = 0 then
           (let (p', n) = pmm_alloc_page (pm s);
                m1 = memset (mem s) n 0 PAGE_SIZE
            in s\<lparr>pm := p', mem := set_entry m1 t i (n OR PTE_PRESENT OR PTE_WRITABLE OR PTE_USER)\<rparr>)
         else s)
      in (s1, phys_to_virt (entry (mem s1) t i AND PTE_FRAME)))"

definition vmm_map_page :: "vmm \<Rightarrow> u64 \<Rightarrow> u64 \<Rightarrow> u64 \<Rightarrow> vmm" where
  "vmm_map_page s virt phys flags =
     (let (s1, pdp) = vmm_table s (current_pml4 s) (pml4_index virt);
          (s2, pd) = vmm_table s1 pdp (pdp_index virt);
          (s3, pt) = vmm_table s2 pd (pd_index virt)
      in s3\<lparr>mem := set_entry (mem s3) pt (pt_index virt) (phys OR flags)\<rparr>)"

text \<open>The walk the other operations begin with; they return early when a table is missing.\<close>

definition vmm_pt :: "vmm \<Rightarrow> u64 \<Rightarrow> u64 option" where
  "vmm_pt s virt =
     (let e4 = entry (mem s) (current_pml4 s) (pml4_index virt) in
      if e4 AND PTE_PRESENT = 0 then None
      else
        (let pdp = phys_to_virt (e4 AND PTE_FRAME); e3 = entry (mem s) pdp (pdp_index virt) in
         if e3 AND PTE_PRESENT = 0 then None
         else
           (let pd = phys_to_virt (e3 AND PTE_FRAME); e2 = entry (mem s) pd (pd_index virt) in
            if e2 AND PTE_PRESENT = 0 then None else Some (phys_to_virt (e2 AND PTE_FRAME)))))"

definition vmm_unmap_page :: "vmm \<Rightarrow> u64 \<Rightarrow> vmm" where
  "vmm_unmap_page s virt =
     (case vmm_pt s virt of
        None \<Rightarrow> s
      | Some pt \<Rightarrow> s\<lparr>mem := set_entry (mem s) pt (pt_index virt) 0\<rparr>)"

definition vmm_get_phys :: "vmm \<Rightarrow> u64 \<Rightarrow> u64" where
  "vmm_get_phys s virt =
     (case vmm_pt s virt of
        None \<Rightarrow> 0
      | Some pt \<Rightarrow>
          (let e = entry (mem s) pt (pt_index virt) in
           if e AND PTE_PRESENT = 0 then 0 else (e AND PTE_FRAME) OR (virt AND 0xFFF)))"

definition vmm_get_pte :: "vmm \<Rightarrow> u64 \<Rightarrow> u64" where
  "vmm_get_pte s virt =
     (case vmm_pt s virt of None \<Rightarrow> 0 | Some pt \<Rightarrow> entry (mem s) pt (pt_index virt))"

definition vmm_free :: "vmm \<Rightarrow> u64 \<Rightarrow> vmm" where
  "vmm_free s p = s\<lparr>pm := pmm_free_page (pm s) p\<rparr>"

definition free_pt :: "u64 \<Rightarrow> vmm \<Rightarrow> vmm" where
  "free_pt pt s =
     vmm_free
       (for_upto (\<lambda>l s. let e = entry (mem s) pt l in
          if e AND PTE_PRESENT \<noteq> 0 then vmm_free s (phys_to_virt (e AND PTE_FRAME)) else s) 0 512 s) pt"

definition free_pd :: "u64 \<Rightarrow> vmm \<Rightarrow> vmm" where
  "free_pd pd s =
     vmm_free
       (for_upto (\<lambda>k s. let e = entry (mem s) pd k in
          if e AND PTE_PRESENT \<noteq> 0 then
            (if e AND 0x80 \<noteq> 0 then vmm_free s (phys_to_virt (e AND PTE_FRAME))
             else free_pt (phys_to_virt (e AND PTE_FRAME)) s)
          else s) 0 512 s) pd"

definition free_pdp :: "u64 \<Rightarrow> vmm \<Rightarrow> vmm" where
  "free_pdp pdp s =
     vmm_free
       (for_upto (\<lambda>j s. let e = entry (mem s) pdp j in
          if e AND PTE_PRESENT \<noteq> 0 then free_pd (phys_to_virt (e AND PTE_FRAME)) s else s) 0 512 s) pdp"

definition vmm_free_user_space :: "vmm \<Rightarrow> vmm" where
  "vmm_free_user_space s =
     for_upto (\<lambda>i s. let e = entry (mem s) (current_pml4 s) i in
       if e AND PTE_PRESENT \<noteq> 0 then
         (let s1 = free_pdp (phys_to_virt (e AND PTE_FRAME)) s
          in s1\<lparr>mem := set_entry (mem s1) (current_pml4 s1) i 0\<rparr>)
       else s) 0 256 s"

definition vmm_swap_out_victim :: int where
  "vmm_swap_out_victim = - 1"

definition ioremap :: "vmm \<Rightarrow> u64 \<Rightarrow> u64 \<Rightarrow> vmm \<times> u64" where
  "ioremap s phys_addr sz =
     (let off = phys_addr AND 0xFFF;
          base_phys = phys_addr AND NOT 0xFFF;
          pages = (sz + off + 0xFFF) div 0x1000;
          virt_addr = mmio_virt_base s;
          s1 = s\<lparr>mmio_virt_base := mmio_virt_base s + pages * 0x1000\<rparr>;
          s2 = for_upto (\<lambda>i s. vmm_map_page s (virt_addr + i * 0x1000) (base_phys + i * 0x1000)
                 (PTE_PRESENT OR PTE_WRITABLE)) 0 pages s1
      in (s2, virt_addr + off))"

definition iounmap :: "vmm \<Rightarrow> u64 \<Rightarrow> vmm" where
  "iounmap s virt_addr = s"

definition heap_map :: "u64 \<Rightarrow> u64 \<Rightarrow> vmm \<Rightarrow> vmm" where
  "heap_map start_virt pages s =
     for_upto (\<lambda>i s. let (p', n) = pmm_alloc_page (pm s)
       in vmm_map_page (s\<lparr>pm := p'\<rparr>) (start_virt + i * PAGE_SIZE) n (PTE_PRESENT OR PTE_WRITABLE)) 0 pages s"

definition heap_init :: "vmm \<Rightarrow> heap \<Rightarrow> u64 \<Rightarrow> u64 \<Rightarrow> vmm \<times> heap" where
  "heap_init s h start_virt sz =
     (let pages = (sz + PAGE_SIZE - 1) div PAGE_SIZE
      in (heap_map start_virt pages s, heap_init_list start_virt sz h))"

section \<open>Memory cells\<close>

lemma byte_eqI: "(\<And>i. i < 8 \<Longrightarrow> byte_of i w = byte_of i v) \<Longrightarrow> w = v"
proof (rule bit_word_eqI)
  fix k assume e: "\<And>i. i < 8 \<Longrightarrow> byte_of i w = byte_of i v" and k: "k < LENGTH(64)"
  have b: "bit (byte_of i x) j \<longleftrightarrow> j < 8 \<and> bit x (8 * i + j)" for i j x
    by (auto simp: byte_of_def bit_simps ac_simps)
  have "k div 8 < 8" "k mod 8 < 8" "8 * (k div 8) + k mod 8 = k" using k by auto
  with e [of "k div 8"] b [of "k div 8" _ "k mod 8"] show "bit w k = bit v k" by metis
qed

lemma load64_cong: "(\<And>i. i < 8 \<Longrightarrow> m (a + of_nat i) = m' (a + of_nat i)) \<Longrightarrow> load64 m a = load64 m' a"
  by (rule byte_eqI) (simp add: byte_of_load64)

lemma load64_store64 [simp]: "load64 (store64 m p w) p = w"
  by (rule byte_eqI) (simp add: byte_of_load64 store64_def unat_less_8 unat_of_nat_small)

definition page_aligned :: "u64 \<Rightarrow> bool" where
  "page_aligned t \<longleftrightarrow> t mod PAGE_SIZE = 0"

lemma page_offset:
  assumes "page_aligned t" and "k < 4096"
  shows "unat (t + k) = unat t + unat k" and "(t + k) div PAGE_SIZE = t div PAGE_SIZE"
proof -
  have "unat t mod 4096 = 0" using assms(1) by (simp add: page_aligned_def PAGE_SIZE_def word_unat_eq_iff unat_mod)
  then obtain q where q: "unat t = 4096 * q" by auto
  moreover have "unat t < 2 ^ 64" using unsigned_less [of t] by simp
  ultimately have "q < 2 ^ 52" by simp
  moreover have k: "unat k < 4096" using assms(2) by (simp add: word_less_nat_alt)
  ultimately show u: "unat (t + k) = unat t + unat k" using q by (intro unat_add_no_wrap) simp
  have "(4096 * q + unat k) div 4096 = q" using k by simp
  then show "(t + k) div PAGE_SIZE = t div PAGE_SIZE"
    by (intro unat_eqI) (simp add: unat_div u q, simp add: PAGE_SIZE_def)
qed

lemma cell_offset:
  fixes i :: u64
  assumes "i < 512" and "k < 8"
  shows "unat (8 * i + of_nat k) = 8 * unat i + k" and "8 * i + of_nat k < 4096"
proof -
  have i: "unat i < 512" using assms(1) by (simp add: word_less_nat_alt)
  then have "unat (8 * i) = 8 * unat i" by (subst unat_mult_no_wrap) auto
  with i show u: "unat (8 * i + of_nat k) = 8 * unat i + k"
    using assms(2) by (subst unat_add_no_wrap) (auto simp: unat_of_nat_small)
  show "8 * i + of_nat k < 4096" using i u assms(2) by (simp add: word_less_nat_alt)
qed

text \<open>Writing an entry of one table changes no other entry of any table.\<close>

lemma entry_cong:
  assumes "page_aligned t" and "i < 512"
    and "\<And>a. a div PAGE_SIZE = t div PAGE_SIZE \<Longrightarrow> m a = m' a"
  shows "entry m t i = entry m' t i"
  unfolding entry_def
proof (rule load64_cong)
  fix k :: nat assume "k < 8"
  from page_offset(2) [OF assms(1) cell_offset(2) [OF assms(2) this]] assms(3)
  show "m (t + 8 * i + of_nat k) = m' (t + 8 * i + of_nat k)" by (simp add: add.assoc)
qed

lemma set_entry_same [simp]: "entry (set_entry m t i e) t i = e"
  by (simp add: entry_def set_entry_def)

lemma set_entry_outside:
  assumes "page_aligned t" and "i < 512" and "a div PAGE_SIZE \<noteq> t div PAGE_SIZE"
  shows "set_entry m t i e a = m a"
proof -
  have "\<not> a - (t + 8 * i) < 8"
  proof
    assume l: "a - (t + 8 * i) < 8"
    define k where "k = unat (a - (t + 8 * i))"
    have "k < 8" and "a - (t + 8 * i) = of_nat k" using l by (simp_all add: k_def word_less_nat_alt)
    then have "a = t + (8 * i + of_nat k)" by (metis add.assoc diff_add_cancel add.commute)
    with page_offset(2) [OF assms(1) cell_offset(2) [OF assms(2) \<open>k < 8\<close>]] assms(3) show False by simp
  qed
  then show ?thesis by (simp add: set_entry_def store64_def)
qed

lemma set_entry_other:
  assumes "page_aligned t" "page_aligned u" "i < 512" "j < 512" and "t \<noteq> u \<or> i \<noteq> j"
  shows "entry (set_entry m t i e) u j = entry m u j"
proof (cases "t div PAGE_SIZE = u div PAGE_SIZE")
  case True
  then have "t = u" using assms(1,2) by (metis page_aligned_def word_div_mod_eqI)
  with assms(5) have ij: "unat i \<noteq> unat j" by (auto simp: word_unat_eq_iff)
  show ?thesis unfolding entry_def
  proof (rule load64_cong)
    fix k :: nat assume k: "k < 8"
    have "\<not> t + 8 * j + of_nat k - (t + 8 * i) < 8"
    proof
      assume "t + 8 * j + of_nat k - (t + 8 * i) < 8"
      then have "(8 * j + of_nat k) - 8 * i < 8" by (simp add: algebra_simps)
      moreover have "unat (8 * i) = 8 * unat i" using cell_offset(1) [OF assms(3), of 0] by simp
      moreover have "unat i < 512" using assms(3) by (simp add: word_less_nat_alt)
      ultimately show False using cell_offset(1) [OF assms(4) k] k ij
        by (auto simp: word_less_nat_alt unat_sub_if' split: if_splits)
    qed
    then show "set_entry m t i e (u + 8 * j + of_nat k) = m (u + 8 * j + of_nat k)"
      using \<open>t = u\<close> by (simp add: set_entry_def store64_def)
  qed
next
  case False
  then show ?thesis using set_entry_outside [OF assms(1,3)] assms(2,4)
    by (intro entry_cong) auto
qed

lemma memset_page:
  assumes "page_aligned n"
  shows "memset m n 0 PAGE_SIZE a = (if a div PAGE_SIZE = n div PAGE_SIZE then 0 else m a)"
proof -
  have "a - n < PAGE_SIZE \<longleftrightarrow> a div PAGE_SIZE = n div PAGE_SIZE"
  proof
    assume "a - n < PAGE_SIZE"
    then show "a div PAGE_SIZE = n div PAGE_SIZE"
      using page_offset(2) [OF assms, of "a - n"] by (simp add: PAGE_SIZE_def)
  next
    assume e: "a div PAGE_SIZE = n div PAGE_SIZE"
    have "n = n div PAGE_SIZE * PAGE_SIZE" using assms div_mult_mod_eq [of n PAGE_SIZE] by (simp add: page_aligned_def)
    then have "a - n = a mod PAGE_SIZE" using e div_mult_mod_eq [of a PAGE_SIZE] by (metis add_diff_cancel_left')
    then show "a - n < PAGE_SIZE" by (simp add: PAGE_SIZE_def word_less_nat_alt unat_mod)
  qed
  moreover have "memset m n 0 PAGE_SIZE = region_set m n 0 PAGE_SIZE" by (simp add: memset_eq)
  ultimately show ?thesis by (simp add: region_set_def)
qed

lemma entry_zero: "page_aligned n \<Longrightarrow> j < 512 \<Longrightarrow> entry (memset m n 0 PAGE_SIZE) n j = 0"
proof -
  assume "page_aligned n" "j < 512"
  then have "entry (memset m n 0 PAGE_SIZE) n j = entry (\<lambda>_. 0) n j"
    by (intro entry_cong) (simp_all add: memset_page)
  then show ?thesis by (simp add: entry_def load64_def load32_def load16_def)
qed

section \<open>Page tables as the processor reads them\<close>

definition present :: "u64 \<Rightarrow> bool" where
  "present e \<longleftrightarrow> bit e 0"

definition large :: "u64 \<Rightarrow> bool" where
  "large e \<longleftrightarrow> bit e 7"

lemma present_iff: "e AND PTE_PRESENT \<noteq> 0 \<longleftrightarrow> present e" "e AND PTE_PRESENT = 0 \<longleftrightarrow> \<not> present e"
  using and_exp_eq_0 [of e 0] by (auto simp: present_def PTE_PRESENT_def)

lemma not_present_0 [simp]: "\<not> present 0"
  by (simp add: present_def)

text \<open>The table reached from \<open>t\<close> by the entries at some indices, each present and not a large page.\<close>

fun tpath :: "bytes \<Rightarrow> u64 \<Rightarrow> u64 list \<Rightarrow> u64 option" where
  "tpath m t [] = Some t"
| "tpath m t (i # is) =
     (let e = entry m t i in if present e \<and> \<not> large e then tpath m (e AND PTE_FRAME) is else None)"

lemma tpath_append:
  "tpath m t (p @ q) = (case tpath m t p of None \<Rightarrow> None | Some u \<Rightarrow> tpath m u q)"
  by (induction p arbitrary: t) (auto simp: Let_def)

definition indices :: "u64 \<Rightarrow> u64 list" where
  "indices v = [pml4_index v, pdp_index v, pd_index v]"

definition hw_translate :: "vmm \<Rightarrow> u64 \<Rightarrow> u64 option" where
  "hw_translate s v =
     (case tpath (mem s) (current_pml4 s) [pml4_index v, pdp_index v] of
        None \<Rightarrow> None
      | Some pd \<Rightarrow>
          (let e2 = entry (mem s) pd (pd_index v) in
           if \<not> present e2 then None
           else if large e2 then Some ((e2 AND 0xFFFFFFFE00000) OR (v AND 0x1FFFFF))
           else
             (let e1 = entry (mem s) (e2 AND PTE_FRAME) (pt_index v) in
              if present e1 then Some ((e1 AND PTE_FRAME) OR (v AND 0xFFF)) else None)))"

text \<open>
  The tables form a tree: every table is an aligned, managed frame that is not free, and no two
  paths lead to the same table.
\<close>

definition is_table :: "vmm \<Rightarrow> u64 list \<Rightarrow> u64 \<Rightarrow> bool" where
  "is_table s p t \<longleftrightarrow> length p \<le> 3 \<and> set p \<subseteq> {i. i < 512} \<and> tpath (mem s) (current_pml4 s) p = Some t"

definition vmm_ok :: "vmm \<Rightarrow> bool" where
  "vmm_ok s \<longleftrightarrow>
     pmm_ok (pm s) \<and>
     (\<forall>p t. is_table s p t \<longrightarrow>
        page_aligned t \<and> t div PAGE_SIZE < total_pages (pm s) \<and> t div PAGE_SIZE \<notin> free_frames (pm s)) \<and>
     (\<forall>p q t. is_table s p t \<longrightarrow> is_table s q t \<longrightarrow> p = q)"

definition path_clear :: "vmm \<Rightarrow> u64 \<Rightarrow> bool" where
  "path_clear s v \<longleftrightarrow>
     (\<forall>n < 3. \<forall>t. tpath (mem s) (current_pml4 s) (take n (indices v)) = Some t \<longrightarrow>
        \<not> (present (entry (mem s) t (indices v ! n)) \<and> large (entry (mem s) t (indices v ! n))))"

lemma index_less [simp]:
  "pml4_index v < 512" "pdp_index v < 512" "pd_index v < 512" "pt_index v < 512"
proof -
  have "x AND 0x1FF < 512" for x :: u64
    using and_mask_less_size [of 9 x] by (simp add: mask_eq_exp_minus_1 word_size)
  then show "pml4_index v < 512" "pdp_index v < 512" "pd_index v < 512" "pt_index v < 512"
    by (simp_all add: pml4_index_def pdp_index_def pd_index_def pt_index_def)
qed

lemma is_table_facts:
  assumes "vmm_ok s" and "is_table s p t"
  shows "page_aligned t" and "t div PAGE_SIZE < total_pages (pm s)" and "t div PAGE_SIZE \<notin> free_frames (pm s)"
    and "is_table s q t \<Longrightarrow> p = q"
  using assms by (auto simp: vmm_ok_def)

lemma is_table_snoc:
  "length p < 3 \<Longrightarrow> is_table s (p @ [i]) u \<longleftrightarrow>
     i < 512 \<and> (\<exists>t. is_table s p t \<and> present (entry (mem s) t i) \<and> \<not> large (entry (mem s) t i) \<and>
        u = entry (mem s) t i AND PTE_FRAME)"
  by (auto simp: is_table_def tpath_append Let_def split: option.splits if_splits)

text \<open>Only what the tables hold matters.\<close>

lemma is_table_cong:
  assumes ok: "vmm_ok s" and c: "current_pml4 s' = current_pml4 s"
    and e: "\<And>p t i. is_table s p t \<Longrightarrow> length p < 3 \<Longrightarrow> i < 512 \<Longrightarrow> entry (mem s') t i = entry (mem s) t i"
  shows "is_table s' p t \<longleftrightarrow> is_table s p t"
proof (induction p arbitrary: t rule: rev_induct)
  case Nil
  then show ?case using c by (simp add: is_table_def)
next
  case (snoc i p)
  show ?case
  proof (cases "length p < 3")
    case True
    then show ?thesis using snoc e [OF _ True] by (auto simp: is_table_snoc)
  qed (simp add: is_table_def)
qed

lemma bit_PTE_FRAME: "bit PTE_FRAME k \<longleftrightarrow> 12 \<le> k \<and> k < 52"
proof -
  have e: "PTE_FRAME = push_bit 12 (mask 40)" by (simp add: PTE_FRAME_def mask_eq_exp_minus_1)
  show ?thesis unfolding e by (auto simp: bit_simps)
qed

lemma page_aligned_bit:
  assumes "page_aligned n" and "k < 12"
  shows "\<not> bit n k"
proof -
  have "take_bit 12 n = 0" using assms(1) by (simp add: page_aligned_def PAGE_SIZE_def take_bit_eq_mod)
  then have "\<not> bit (take_bit 12 n) k" by simp
  then show ?thesis using assms(2) by (simp add: bit_take_bit_iff)
qed

lemma small_bit:
  fixes n :: u64
  assumes "unat n < 2 ^ k" and "k \<le> j"
  shows "\<not> bit n j"
proof -
  have "unat n < 2 ^ j" using assms by (meson less_le_trans one_le_numeral power_increasing)
  then have "\<not> bit (unat n) j" by (simp add: bit_iff_odd)
  then show ?thesis using bit_imp_le_length [of n j] by (auto simp: bit_unsigned_iff)
qed

lemma frame_unat:
  assumes "pmm_ok p" and "n div PAGE_SIZE < total_pages p"
  shows "unat n < 2 ^ 32"
proof -
  have "unat n div 4096 < unat (total_pages p)"
    using assms(2) by (simp add: word_less_nat_alt unat_div PAGE_SIZE_def)
  moreover have "unat (total_pages p) \<le> 2 ^ 20" using assms(1) by (simp add: pmm_ok_def)
  ultimately have "unat n div 4096 < 2 ^ 20" by simp
  then have "unat n < 2 ^ 20 * 4096" by (subst (asm) div_less_iff_less_mult) simp_all
  then show ?thesis by simp
qed

text \<open>The entry that links a new table.\<close>

lemma link_entry:
  assumes "page_aligned n" and "unat n < 2 ^ 32"
  defines "e \<equiv> n OR PTE_PRESENT OR PTE_WRITABLE OR PTE_USER"
  shows "present e" and "\<not> large e" and "e AND PTE_FRAME = n"
proof -
  have e: "bit e k \<longleftrightarrow> bit n k \<or> k < 3" for k
  proof -
    have "PTE_PRESENT OR PTE_WRITABLE OR PTE_USER = mask 3"
      by (simp add: PTE_PRESENT_def PTE_WRITABLE_def PTE_USER_def mask_eq_exp_minus_1)
    then show ?thesis by (simp add: e_def or.assoc bit_simps) auto
  qed
  show "present e" "\<not> large e" using page_aligned_bit [OF assms(1), of 7] by (simp_all add: present_def large_def e)
  show "e AND PTE_FRAME = n"
  proof (rule bit_word_eqI)
    fix k
    show "bit (e AND PTE_FRAME) k \<longleftrightarrow> bit n k"
      using page_aligned_bit [OF assms(1), of k] small_bit [OF assms(2), of k]
      by (cases "k < 12"; cases "k < 32"; simp add: bit_and_iff e bit_PTE_FRAME)
  qed
qed

lemma tpath_is_table:
  "tpath (mem s) (current_pml4 s) [pml4_index v, pdp_index v] = Some x \<longleftrightarrow> is_table s [pml4_index v, pdp_index v] x"
  "tpath (mem s) (current_pml4 s) (indices v) = Some y \<longleftrightarrow> is_table s (indices v) y"
  by (auto simp: is_table_def indices_def)

lemma path_clear_iff:
  "path_clear s v \<longleftrightarrow>
     (\<forall>n < 3. \<forall>t. is_table s (take n (indices v)) t \<longrightarrow>
        \<not> (present (entry (mem s) t (indices v ! n)) \<and> large (entry (mem s) t (indices v ! n))))"
proof -
  have "set (take n (indices v)) \<subseteq> {i. i < 512}" for n
    using set_take_subset [of n "indices v"] by (auto simp: indices_def)
  moreover have "length (indices v) = 3" by (simp add: indices_def)
  ultimately show ?thesis by (simp add: path_clear_def is_table_def)
qed

lemma hw_translate_alt:
  "hw_translate s v = Some w \<longleftrightarrow>
     (\<exists>pd. is_table s [pml4_index v, pdp_index v] pd \<and>
       (let e2 = entry (mem s) pd (pd_index v) in present e2 \<and>
         (large e2 \<and> w = (e2 AND 0xFFFFFFFE00000) OR (v AND 0x1FFFFF) \<or>
          \<not> large e2 \<and>
          (\<exists>pt. is_table s (indices v) pt \<and> present (entry (mem s) pt (pt_index v)) \<and>
             w = (entry (mem s) pt (pt_index v) AND PTE_FRAME) OR (v AND 0xFFF)))))"
proof (cases "tpath (mem s) (current_pml4 s) [pml4_index v, pdp_index v]")
  case None
  then have "\<not> is_table s [pml4_index v, pdp_index v] pd" for pd by (auto simp flip: tpath_is_table)
  with None show ?thesis by (auto simp: hw_translate_def)
next
  case (Some pd)
  then have t: "is_table s [pml4_index v, pdp_index v] u \<longleftrightarrow> u = pd" for u by (auto simp flip: tpath_is_table)
  have "indices v = [pml4_index v, pdp_index v] @ [pd_index v]" by (simp add: indices_def)
  then have "is_table s (indices v) pt \<longleftrightarrow>
    present (entry (mem s) pd (pd_index v)) \<and> \<not> large (entry (mem s) pd (pd_index v)) \<and>
    pt = entry (mem s) pd (pd_index v) AND PTE_FRAME" for pt
    using t is_table_snoc [of "[pml4_index v, pdp_index v]" s "pd_index v" pt] by auto
  then show ?thesis using Some t by (auto simp: hw_translate_def Let_def)
qed

section \<open>Writing entries\<close>

lemma set_leaf:
  fixes e :: u64
  assumes ok: "vmm_ok s" and t: "is_table s p t" and l: "length p = 3" and i: "i < 512"
  defines "s' \<equiv> s\<lparr>mem := set_entry (mem s) t i e\<rparr>"
  shows "is_table s' q u \<longleftrightarrow> is_table s q u" and "vmm_ok s'"
    and "is_table s q u \<Longrightarrow> j < 512 \<Longrightarrow> q \<noteq> p \<or> j \<noteq> i \<Longrightarrow> entry (mem s') u j = entry (mem s) u j"
proof -
  show e: "entry (mem s') u j = entry (mem s) u j" if "is_table s q u" "j < 512" "q \<noteq> p \<or> j \<noteq> i" for q u j
  proof -
    have "t \<noteq> u \<or> i \<noteq> j" using that is_table_facts(4) [OF ok t, of q] by auto
    then show ?thesis
      using set_entry_other [OF is_table_facts(1) [OF ok t] is_table_facts(1) [OF ok that(1)] i that(2)]
      by (simp add: s'_def)
  qed
  show it: "is_table s' q u \<longleftrightarrow> is_table s q u" for q u
  proof (rule is_table_cong [OF ok])
    show "current_pml4 s' = current_pml4 s" by (simp add: s'_def)
    show "entry (mem s') u j = entry (mem s) u j" if "is_table s q u" "length q < 3" "j < 512" for q u j
      using e [OF that(1,3)] that(2) l by fastforce
  qed
  show "vmm_ok s'" using ok unfolding vmm_ok_def it by (simp add: s'_def)
qed

lemma set_leaf_translate:
  assumes "vmm_ok s" and "is_table s p t" and "length p = 3" and "i < 512"
    and "indices v \<noteq> p \<or> pt_index v \<noteq> i"
  shows "hw_translate (s\<lparr>mem := set_entry (mem s) t i e\<rparr>) v = hw_translate s v"
proof -
  note F = set_leaf [OF assms(1-4), where e = e]
  let ?m = "mem (s\<lparr>mem := set_entry (mem s) t i e\<rparr>)" and ?q = "[pml4_index v, pdp_index v]"
  have q: "?q \<noteq> p" using assms(3) by auto
  have "is_table s ?q u \<Longrightarrow> entry ?m u (pd_index v) = entry (mem s) u (pd_index v)"
    "is_table s (indices v) u \<Longrightarrow> entry ?m u (pt_index v) = entry (mem s) u (pt_index v)" for u
    using F(3) [OF _ _ disjI1 [OF q]] F(3) [OF _ _ assms(5)] by simp_all
  then have "hw_translate (s\<lparr>mem := set_entry (mem s) t i e\<rparr>) v = Some w \<longleftrightarrow> hw_translate s v = Some w" for w
    unfolding hw_translate_alt F(1) Let_def by (simp cong: conj_cong)
  then show ?thesis by (metis option.exhaust)
qed

text \<open>Linking a fresh, cleared frame below an entry that is not present.\<close>

lemma link_table:
  assumes ok: "vmm_ok s" and t: "is_table s p t" and l: "length p < 3" and i: "i < 512"
    and np: "\<not> present (entry (mem s) t i)"
    and al: "pmm_alloc_page (pm s) = (p', n)" and n: "n \<noteq> 0"
  defines "s' \<equiv> s\<lparr>pm := p', mem := set_entry (memset (mem s) n 0 PAGE_SIZE) t i
                   (n OR PTE_PRESENT OR PTE_WRITABLE OR PTE_USER)\<rparr>"
  shows "is_table s' q u \<longleftrightarrow> is_table s q u \<or> q = p @ [i] \<and> u = n"
    and "is_table s q u \<Longrightarrow> j < 512 \<Longrightarrow> q \<noteq> p \<or> j \<noteq> i \<Longrightarrow> entry (mem s') u j = entry (mem s) u j"
    and "j < 512 \<Longrightarrow> entry (mem s') n j = 0"
    and "entry (mem s') t i = n OR PTE_PRESENT OR PTE_WRITABLE OR PTE_USER"
    and "vmm_ok s'"
proof -
  have pok: "pmm_ok (pm s)" using ok by (simp add: vmm_ok_def)
  note A = pmm_alloc_page_Some [OF pok al n]
  have na: "page_aligned n" using A(2) by (simp add: page_aligned_def)
  have nt: "n div PAGE_SIZE < total_pages (pm s)" using A(1) by (simp add: free_frames_def)
  note L = link_entry [OF na frame_unat [OF pok nt]]
  have ta: "page_aligned t" using is_table_facts(1) [OF ok t] .
  have fresh: "n div PAGE_SIZE \<noteq> u div PAGE_SIZE" if "is_table s q u" for q u
    using is_table_facts(3) [OF ok that] A(1) by auto
  show e: "entry (mem s') u j = entry (mem s) u j" if "is_table s q u" "j < 512" "q \<noteq> p \<or> j \<noteq> i" for q u j
  proof -
    have "t \<noteq> u \<or> i \<noteq> j" using that is_table_facts(4) [OF ok t, of q] by auto
    then have "entry (mem s') u j = entry (memset (mem s) n 0 PAGE_SIZE) u j"
      using set_entry_other [OF ta is_table_facts(1) [OF ok that(1)] i that(2)] by (simp add: s'_def)
    also have "\<dots> = entry (mem s) u j"
      by (rule entry_cong) (use is_table_facts(1) [OF ok that(1)] that(2) fresh [OF that(1)] na in \<open>auto simp: memset_page\<close>)
    finally show ?thesis .
  qed
  show z: "entry (mem s') n j = 0" if "j < 512" for j
  proof -
    have "t \<noteq> n \<or> i \<noteq> j" using fresh [OF t] by auto
    from set_entry_other [OF ta na i that this] entry_zero [OF na that] show ?thesis by (simp add: s'_def)
  qed
  show ti: "entry (mem s') t i = n OR PTE_PRESENT OR PTE_WRITABLE OR PTE_USER" by (simp add: s'_def)
  show it: "is_table s' q u \<longleftrightarrow> is_table s q u \<or> q = p @ [i] \<and> u = n" for q u
  proof (induction q arbitrary: u rule: rev_induct)
    case Nil
    then show ?case by (simp add: is_table_def s'_def)
  next
    case (snoc j q)
    show ?case
    proof (cases "length q < 3")
      case True
      show ?thesis
      proof (cases "q = p \<and> j = i")
        case at: True
        have "is_table s p t' \<longleftrightarrow> t' = t" for t' using t by (auto simp: is_table_def)
        then show ?thesis unfolding is_table_snoc [OF True] snoc using at ti L np i by simp
      next
        case False
        then show ?thesis unfolding is_table_snoc [OF True] snoc using e [of q _ j] z [of j] by auto
      qed
    next
      case False
      then show ?thesis using l by (auto simp: is_table_def)
    qed
  qed
  have pm: "pm s' = p'" by (simp add: s'_def)
  have "is_table s' q u \<Longrightarrow> page_aligned u \<and> u div PAGE_SIZE < total_pages p' \<and> u div PAGE_SIZE \<notin> free_frames p'"
    for q u using is_table_facts(1-3) [OF ok, of q u] A na nt unfolding it by auto
  moreover have "is_table s' q u \<Longrightarrow> is_table s' r u \<Longrightarrow> q = r" for q r u
    using is_table_facts(4) [OF ok, of q u r] fresh [of _ u] unfolding it by auto
  ultimately show "vmm_ok s'" using A(4) unfolding vmm_ok_def pm by blast
qed

lemma link_large:
  assumes "vmm_ok s" and "pmm_alloc_page (pm s) = (p', n)" "n \<noteq> 0"
  shows "\<not> large (n OR PTE_PRESENT OR PTE_WRITABLE OR PTE_USER)"
    and "(n OR PTE_PRESENT OR PTE_WRITABLE OR PTE_USER) AND PTE_FRAME = n"
proof -
  have pok: "pmm_ok (pm s)" using assms(1) by (simp add: vmm_ok_def)
  note A = pmm_alloc_page_Some [OF pok assms(2,3)]
  have "page_aligned n" "n div PAGE_SIZE < total_pages (pm s)" using A(1,2) by (simp_all add: page_aligned_def free_frames_def)
  with link_entry(2,3) [OF _ frame_unat [OF pok]]
  show "\<not> large (n OR PTE_PRESENT OR PTE_WRITABLE OR PTE_USER)"
    "(n OR PTE_PRESENT OR PTE_WRITABLE OR PTE_USER) AND PTE_FRAME = n" by blast+
qed

lemma link_translate:
  assumes "vmm_ok s" "is_table s p t" "length p < 3" "i < 512" "\<not> present (entry (mem s) t i)"
    and "pmm_alloc_page (pm s) = (p', n)" "n \<noteq> 0"
  defines "s' \<equiv> s\<lparr>pm := p', mem := set_entry (memset (mem s) n 0 PAGE_SIZE) t i
                   (n OR PTE_PRESENT OR PTE_WRITABLE OR PTE_USER)\<rparr>"
  shows "hw_translate s' v = hw_translate s v"
proof -
  note F = link_table [OF assms(1-7), folded s'_def]
  let ?q = "[pml4_index v, pdp_index v]"
  have iv: "indices v = ?q @ [pd_index v]" by (simp add: indices_def)
  have e1: "is_table s (indices v) u \<Longrightarrow> entry (mem s') u (pt_index v) = entry (mem s) u (pt_index v)" for u
    using F(2) [of "indices v" u "pt_index v"] assms(3) by (fastforce simp: indices_def)
  have np: "\<not> present (entry (mem s') n (pd_index v))" "\<not> present (entry (mem s') n (pt_index v))"
    by (simp_all add: F(3))
  have "hw_translate s' v = Some w \<longleftrightarrow> hw_translate s v = Some w" for w
  proof (cases "?q = p \<and> pd_index v = i")
    case True
    have q: "is_table s ?q u \<longleftrightarrow> u = t" for u using True assms(2) by (auto simp: is_table_def)
    then have "\<not> is_table s (indices v) u" for u
      using assms(5) True is_table_snoc [of ?q s "pd_index v" u] by (auto simp: iv)
    moreover have "?q \<noteq> p @ [i]" using True by auto
    ultimately show ?thesis
      unfolding hw_translate_alt F(1) q using True assms(5) np F(4) by (auto simp: iv Let_def link_large [OF assms(1,6,7)])
  next
    case False
    then have "indices v \<noteq> p @ [i]" by (auto simp: iv)
    moreover have "is_table s ?q u \<Longrightarrow> entry (mem s') u (pd_index v) = entry (mem s) u (pd_index v)" for u
      using F(2) [of ?q u "pd_index v"] False by auto
    ultimately show ?thesis
      unfolding hw_translate_alt F(1) Let_def using e1 np by (auto cong: conj_cong)
  qed
  then show ?thesis by (metis option.exhaust)
qed

section \<open>Mapping a page\<close>

text \<open>
  Adding tables: nothing that was mapped changes, at most \<open>k\<close> frames are taken from the allocator,
  and no large page appears on the way to any address.
\<close>

definition extends :: "nat \<Rightarrow> vmm \<Rightarrow> vmm \<Rightarrow> bool" where
  "extends k s s' \<longleftrightarrow>
     vmm_ok s' \<and> current_pml4 s' = current_pml4 s \<and> mmio_virt_base s' = mmio_virt_base s \<and>
     (\<forall>q u. is_table s q u \<longrightarrow> is_table s' q u) \<and>
     (\<forall>q u. is_table s' q u \<longrightarrow> is_table s q u \<or> u div PAGE_SIZE \<in> free_frames (pm s)) \<and>
     (\<forall>v. hw_translate s' v = hw_translate s v) \<and>
     (\<forall>v. path_clear s v \<longrightarrow> path_clear s' v) \<and>
     (\<forall>a. (\<forall>q u. is_table s' q u \<longrightarrow> u div PAGE_SIZE \<noteq> a div PAGE_SIZE) \<longrightarrow> mem s' a = mem s a) \<and>
     total_pages (pm s') = total_pages (pm s) \<and> free_frames (pm s') \<subseteq> free_frames (pm s) \<and>
     card (free_frames (pm s)) \<le> card (free_frames (pm s')) + k"

lemma extends_refl: "vmm_ok s \<Longrightarrow> extends k s s"
  by (simp add: extends_def)

lemma extends_trans: "extends j s s' \<Longrightarrow> extends k s' s'' \<Longrightarrow> extends (j + k) s s''"
  unfolding extends_def by (intro conjI; elim conjE; (simp; fail | blast | linarith | metis))

lemma link_extends:
  assumes "vmm_ok s" "is_table s p t" "length p < 3" "i < 512" "\<not> present (entry (mem s) t i)"
    and "pmm_alloc_page (pm s) = (p', n)" "n \<noteq> 0"
  defines "s' \<equiv> s\<lparr>pm := p', mem := set_entry (memset (mem s) n 0 PAGE_SIZE) t i
                   (n OR PTE_PRESENT OR PTE_WRITABLE OR PTE_USER)\<rparr>"
  shows "extends 1 s s'"
proof -
  note F = link_table [OF assms(1-7), folded s'_def]
  have pok: "pmm_ok (pm s)" using assms(1) by (simp add: vmm_ok_def)
  note A = pmm_alloc_page_Some [OF pok assms(6,7)]
  have "path_clear s' v" if c: "path_clear s v" for v
    unfolding path_clear_iff
  proof (intro allI impI)
    fix k u assume k: "k < 3" and u: "is_table s' (take k (indices v)) u"
    let ?q = "take k (indices v)" and ?j = "indices v ! k"
    have j: "?j < 512" using k by (auto simp: indices_def less_Suc_eq numeral_3_eq_3)
    show "\<not> (present (entry (mem s') u ?j) \<and> large (entry (mem s') u ?j))"
    proof (cases "is_table s ?q u \<and> (?q \<noteq> p \<or> ?j \<noteq> i)")
      case True
      with F(2) [of ?q u ?j] j c k show ?thesis unfolding path_clear_iff by auto
    next
      case False
      then consider "u = n" | "is_table s p u" "?j = i" using u unfolding F(1) by auto
      then show ?thesis
      proof cases
        case 1
        then show ?thesis using F(3) [OF j] by simp
      next
        case 2
        then have "u = t" using assms(2) by (simp add: is_table_def)
        then show ?thesis using 2 F(4) link_large(1) [OF assms(1,6,7)] by simp
      qed
    qed
  qed
  moreover have "card (free_frames (pm s)) \<le> card (free_frames p') + 1"
    using A(1,3) by (simp add: card_Diff_singleton)
  moreover have "mem s' a = mem s a" if "\<forall>q u. is_table s' q u \<longrightarrow> u div PAGE_SIZE \<noteq> a div PAGE_SIZE" for a
  proof -
    have "t div PAGE_SIZE \<noteq> a div PAGE_SIZE" "n div PAGE_SIZE \<noteq> a div PAGE_SIZE" "page_aligned n"
      using that F(1) assms(2) A(2) by (auto simp: page_aligned_def)
    then show ?thesis
      using set_entry_outside [OF is_table_facts(1) [OF assms(1,2)] assms(4), of a] memset_page [of n "mem s" a]
      by (simp add: s'_def)
  qed
  ultimately show ?thesis
    unfolding extends_def using F(1,5) A(1,3,5) link_translate [OF assms(1-7), folded s'_def]
    by (simp add: s'_def)
qed

lemma vmm_table_spec:
  assumes ok: "vmm_ok s" and t: "is_table s p t" "length p < 3" "i < 512"
    and free: "free_frames (pm s) \<noteq> {}"
    and "\<not> (present (entry (mem s) t i) \<and> large (entry (mem s) t i))"
  shows "\<exists>s' u. vmm_table s t i = (s', u) \<and> extends 1 s s' \<and> is_table s' (p @ [i]) u"
proof (cases "present (entry (mem s) t i)")
  case True
  then have "vmm_table s t i = (s, entry (mem s) t i AND PTE_FRAME)"
    by (simp add: vmm_table_def present_iff phys_to_virt_def)
  then show ?thesis using assms True extends_refl [OF ok] by (auto simp: is_table_snoc)
next
  case False
  obtain p' n where a: "pmm_alloc_page (pm s) = (p', n)" by fastforce
  have "n \<noteq> 0" using pmm_alloc_page_None [of "pm s" p'] a free ok by (auto simp: vmm_ok_def)
  note L = ok t False a this
  let ?s' = "s\<lparr>pm := p', mem := set_entry (memset (mem s) n 0 PAGE_SIZE) t i
               (n OR PTE_PRESENT OR PTE_WRITABLE OR PTE_USER)\<rparr>"
  have "vmm_table s t i = (?s', n)"
    using False a link_large(2) [OF ok a \<open>n \<noteq> 0\<close>]
    by (simp add: vmm_table_def present_iff phys_to_virt_def Let_def)
  then show ?thesis using link_extends [OF L] link_table(1) [OF L, of "p @ [i]" n] by auto
qed

lemma is_table_root: "is_table s [] (current_pml4 s)"
  by (simp add: is_table_def)

lemma vmm_table_level:
  assumes ok: "vmm_ok s" and c: "path_clear s v" and f: "0 < card (free_frames (pm s))"
    and n: "n < 3" and t: "is_table s (take n (indices v)) t" and i: "indices v ! n = i"
  shows "\<exists>s' u. vmm_table s t i = (s', u) \<and> extends 1 s s' \<and> path_clear s' v \<and>
           is_table s' (take (Suc n) (indices v)) u"
proof -
  have l: "length (indices v) = 3" by (simp add: indices_def)
  have "i < 512" using n i by (auto simp: indices_def less_Suc_eq numeral_3_eq_3)
  moreover have "free_frames (pm s) \<noteq> {}" using f by auto
  moreover have "\<not> (present (entry (mem s) t i) \<and> large (entry (mem s) t i))"
    using c [unfolded path_clear_iff] n t i by blast
  moreover have "length (take n (indices v)) < 3" using n l by simp
  ultimately obtain s' u where "vmm_table s t i = (s', u)" "extends 1 s s'"
    "is_table s' (take n (indices v) @ [i]) u"
    using vmm_table_spec [OF ok t] by blast
  then show ?thesis using n l i c by (auto simp: take_Suc_conv_app_nth extends_def)
qed

lemma vmm_map_page_tables:
  assumes ok: "vmm_ok s" and c: "path_clear s v" and f: "3 \<le> card (free_frames (pm s))"
  shows "\<exists>s3 pt. extends 3 s s3 \<and> is_table s3 (indices v) pt \<and>
           vmm_map_page s v phys flags = s3\<lparr>mem := set_entry (mem s3) pt (pt_index v) (phys OR flags)\<rparr>"
proof -
  have card: "extends 1 t t' \<Longrightarrow> card (free_frames (pm t)) \<le> card (free_frames (pm t')) + 1"
    and ok': "extends 1 t t' \<Longrightarrow> vmm_ok t'" for t t' by (simp_all add: extends_def)
  obtain s1 pdp where 1: "vmm_table s (current_pml4 s) (pml4_index v) = (s1, pdp)" "extends 1 s s1"
    "path_clear s1 v" "is_table s1 (take 1 (indices v)) pdp"
    using vmm_table_level [OF ok c, of 0 "current_pml4 s"] f is_table_root by (auto simp: indices_def)
  obtain s2 pd where 2: "vmm_table s1 pdp (pdp_index v) = (s2, pd)" "extends 1 s1 s2"
    "path_clear s2 v" "is_table s2 (take 2 (indices v)) pd"
    using vmm_table_level [OF ok' [OF 1(2)] 1(3) _ _ 1(4)] card [OF 1(2)] f
    by (auto simp: indices_def numeral_2_eq_2)
  obtain s3 pt where 3: "vmm_table s2 pd (pd_index v) = (s3, pt)" "extends 1 s2 s3"
    "is_table s3 (take 3 (indices v)) pt"
    using vmm_table_level [OF ok' [OF 2(2)] 2(3) _ _ 2(4)] card [OF 1(2)] card [OF 2(2)] f
    by (auto simp: indices_def numeral_2_eq_2 numeral_3_eq_3)
  have "extends 3 s s3" using extends_trans [OF extends_trans [OF 1(2) 2(2)] 3(2)] by (simp add: numeral_3_eq_3)
  moreover have "take 3 (indices v) = indices v" by (simp add: indices_def)
  ultimately show ?thesis using 1 2 3 by (auto simp: vmm_map_page_def)
qed

lemma vmm_pt_eq:
  assumes "path_clear s v"
  shows "vmm_pt s v = tpath (mem s) (current_pml4 s) (indices v)"
proof -
  let ?m = "mem s" and ?t = "current_pml4 s"
  have c: "\<not> (present (entry ?m t (indices v ! n)) \<and> large (entry ?m t (indices v ! n)))"
    if "n < 3" "tpath ?m ?t (take n (indices v)) = Some t" for n t
    using assms that by (simp add: path_clear_def)
  show ?thesis
    using c [of 0] c [of 1] c [of 2]
    by (auto simp: vmm_pt_def indices_def present_iff phys_to_virt_def Let_def)
qed

lemma vmm_get_phys_eq:
  assumes "path_clear s v"
  shows "vmm_get_phys s v = (case hw_translate s v of None \<Rightarrow> 0 | Some w \<Rightarrow> w)"
proof -
  have c: "\<not> (present (entry (mem s) t (pd_index v)) \<and> large (entry (mem s) t (pd_index v)))"
    if "tpath (mem s) (current_pml4 s) [pml4_index v, pdp_index v] = Some t" for t
    using assms [unfolded path_clear_def, rule_format, of 2 t] that by (simp add: indices_def numeral_2_eq_2)
  have iv: "indices v = [pml4_index v, pdp_index v] @ [pd_index v]" by (simp add: indices_def)
  show ?thesis
    using c unfolding vmm_get_phys_def vmm_pt_eq [OF assms] hw_translate_def iv tpath_append
    by (auto simp: present_iff Let_def split: option.splits if_splits)
qed

text \<open>The page an address lies in, as the four indices see it (48-bit addresses).\<close>

definition page_number :: "u64 \<Rightarrow> u64" where
  "page_number v = take_bit 36 (drop_bit 12 v)"

lemma indices_page_number:
  assumes "page_number v = page_number w"
  shows "indices v = indices w" and "pt_index v = pt_index w"
proof -
  have b: "bit v (12 + k) = bit w (12 + k)" if "k < 36" for k
  proof -
    have "bit (page_number v) k = bit (page_number w) k" by (simp add: assms)
    then show ?thesis using that by (simp add: page_number_def bit_simps)
  qed
  have m: "(0x1FF :: u64) = mask 9" by (simp add: mask_eq_exp_minus_1)
  have "drop_bit (12 + j) v AND 0x1FF = drop_bit (12 + j) w AND 0x1FF" if "j \<le> 27" for j
    unfolding m
  proof (rule bit_word_eqI)
    fix k show "bit (drop_bit (12 + j) v AND mask 9) k \<longleftrightarrow> bit (drop_bit (12 + j) w AND mask 9) k"
      using b [of "j + k"] that by (cases "k < 9") (simp_all add: bit_simps add.assoc)
  qed
  from this [of 0] this [of 9] this [of 18] this [of 27]
  show "indices v = indices w" "pt_index v = pt_index w"
    by (simp_all add: indices_def pml4_index_def pdp_index_def pd_index_def pt_index_def)
qed

lemma page_number_indices:
  assumes "indices v = indices w" and "pt_index v = pt_index w"
  shows "page_number v = page_number w"
proof (rule bit_word_eqI)
  fix k
  have m: "(0x1FF :: u64) = mask 9" by (simp add: mask_eq_exp_minus_1)
  have e: "bit (drop_bit j v AND 0x1FF) i \<longleftrightarrow> i < 9 \<and> bit v (j + i)"
      "bit (drop_bit j w AND 0x1FF) i \<longleftrightarrow> i < 9 \<and> bit w (j + i)" for i j
    unfolding m by (auto simp: bit_simps)
  have s: "i < 9 \<Longrightarrow> bit v (12 + i) = bit w (12 + i) \<and> bit v (21 + i) = bit w (21 + i) \<and>
      bit v (30 + i) = bit w (30 + i) \<and> bit v (39 + i) = bit w (39 + i)" for i
    using assms e unfolding indices_def pml4_index_def pdp_index_def pd_index_def pt_index_def by (metis list.inject)
  have "bit v (12 + k) = bit w (12 + k)" if k36: "k < 36"
  proof -
    consider "k < 9" | "9 \<le> k" "k < 18" | "18 \<le> k" "k < 27" | "27 \<le> k" "k < 36" using k36 by linarith
    then show ?thesis
      using s [of k] s [of "k - 9"] s [of "k - 18"] s [of "k - 27"] by cases (simp_all add: add.commute)
  qed
  then show "bit (page_number v) k \<longleftrightarrow> bit (page_number w) k" by (auto simp: page_number_def bit_simps)
qed

lemma map_entry:
  assumes "phys AND PTE_FRAME = phys" and "flags AND PTE_FRAME = 0" and "flags AND PTE_PRESENT \<noteq> 0"
  shows "present (phys OR flags)" and "(phys OR flags) AND PTE_FRAME = phys"
proof -
  show "present (phys OR flags)" using assms(3) by (simp add: present_iff present_def bit_simps)
  show "(phys OR flags) AND PTE_FRAME = phys" using assms(1,2) by (simp add: and.commute bit.conj_disj_distrib)
qed

text \<open>A page table entry written at the leaf of an address decides its translation and no other.\<close>

lemma leaf_translate:
  assumes "is_table s (indices v) pt"
  shows "hw_translate s v =
    (let e = entry (mem s) pt (pt_index v) in
     if present e then Some ((e AND PTE_FRAME) OR (v AND 0xFFF)) else None)"
proof -
  have iv: "indices v = [pml4_index v, pdp_index v] @ [pd_index v]" by (simp add: indices_def)
  show ?thesis using assms unfolding iv is_table_def tpath_append
    by (auto simp: hw_translate_def Let_def split: option.splits if_splits)
qed

lemma path_clear_leaf:
  assumes "vmm_ok s" and "is_table s p t" and "length p = 3" and "i < 512" and "path_clear s v"
  shows "path_clear (s\<lparr>mem := set_entry (mem s) t i e\<rparr>) v"
  unfolding path_clear_iff
proof (intro allI impI)
  note F = set_leaf [OF assms(1-4), where e = e]
  fix n u assume n: "n < 3" and u: "is_table (s\<lparr>mem := set_entry (mem s) t i e\<rparr>) (take n (indices v)) u"
  have "indices v ! n < 512" using n by (auto simp: indices_def less_Suc_eq numeral_3_eq_3)
  moreover have "take n (indices v) \<noteq> p" using n assms(3) by (auto simp: indices_def)
  ultimately have "entry (mem (s\<lparr>mem := set_entry (mem s) t i e\<rparr>)) u (indices v ! n) = entry (mem s) u (indices v ! n)"
    using F(3) u unfolding F(1) by blast
  then show "\<not> (present (entry (mem (s\<lparr>mem := set_entry (mem s) t i e\<rparr>)) u (indices v ! n)) \<and>
      large (entry (mem (s\<lparr>mem := set_entry (mem s) t i e\<rparr>)) u (indices v ! n)))"
    using assms(5) n u unfolding path_clear_iff F(1) by metis
qed

lemma vmm_map_page_spec:
  assumes ok: "vmm_ok s" and c: "path_clear s v" and f: "3 \<le> card (free_frames (pm s))"
    and "phys AND PTE_FRAME = phys" and "flags AND PTE_FRAME = 0" and "flags AND PTE_PRESENT \<noteq> 0"
  defines "s' \<equiv> vmm_map_page s v phys flags"
  shows "vmm_ok s'" and "page_number w = page_number v \<Longrightarrow> hw_translate s' w = Some (phys OR (w AND 0xFFF))"
    and "page_number w \<noteq> page_number v \<Longrightarrow> hw_translate s' w = hw_translate s w"
    and "path_clear s w \<Longrightarrow> path_clear s' w"
    and "free_frames (pm s') \<subseteq> free_frames (pm s)" and "total_pages (pm s') = total_pages (pm s)"
    and "card (free_frames (pm s)) \<le> card (free_frames (pm s')) + 3"
    and "\<exists>pt. is_table s' (indices v) pt" and "current_pml4 s' = current_pml4 s"
    and "mmio_virt_base s' = mmio_virt_base s"
    and "is_table s' q u \<Longrightarrow> is_table s q u \<or> u div PAGE_SIZE \<in> free_frames (pm s)"
    and "(\<And>q u. is_table s' q u \<Longrightarrow> u div PAGE_SIZE \<noteq> a div PAGE_SIZE) \<Longrightarrow> mem s' a = mem s a"
proof -
  obtain s3 pt where x: "extends 3 s s3" and pt: "is_table s3 (indices v) pt"
    and s': "s' = s3\<lparr>mem := set_entry (mem s3) pt (pt_index v) (phys OR flags)\<rparr>"
    using vmm_map_page_tables [OF ok c f, of phys flags] unfolding s'_def by blast
  have ok3: "vmm_ok s3" using x by (simp add: extends_def)
  have l: "length (indices v) = 3" by (simp add: indices_def)
  note F = set_leaf [OF ok3 pt l index_less(4), where e = "phys OR flags"]
  show "vmm_ok s'" unfolding s' by (rule F(2))
  have pt': "is_table s' (indices v) pt" unfolding s' F(1) by (rule pt)
  then show "\<exists>pt. is_table s' (indices v) pt" by blast
  have "entry (mem s') pt (pt_index v) = phys OR flags" by (simp add: s')
  then show "hw_translate s' w = Some (phys OR (w AND 0xFFF))" if "page_number w = page_number v"
    using leaf_translate [of s' w pt] pt' map_entry [OF assms(4-6)] indices_page_number [OF that] by (simp add: Let_def)
  show "hw_translate s' w = hw_translate s w" if "page_number w \<noteq> page_number v"
    using set_leaf_translate [OF ok3 pt l index_less(4), of w] page_number_indices [of w v] that x
    by (auto simp: s' extends_def)
  show "path_clear s w \<Longrightarrow> path_clear s' w"
    using path_clear_leaf [OF ok3 pt l index_less(4)] x by (auto simp: s' extends_def)
  show "is_table s' q u \<Longrightarrow> is_table s q u \<or> u div PAGE_SIZE \<in> free_frames (pm s)"
    using x unfolding s' F(1) by (auto simp: extends_def)
  show "mem s' a = mem s a" if "\<And>q u. is_table s' q u \<Longrightarrow> u div PAGE_SIZE \<noteq> a div PAGE_SIZE"
    using that that [OF pt'] set_entry_outside [OF is_table_facts(1) [OF ok3 pt] index_less(4)] x
    unfolding s' F(1) by (auto simp: extends_def)
  show "free_frames (pm s') \<subseteq> free_frames (pm s)" "total_pages (pm s') = total_pages (pm s)"
    "card (free_frames (pm s)) \<le> card (free_frames (pm s')) + 3"
    "current_pml4 s' = current_pml4 s" "mmio_virt_base s' = mmio_virt_base s"
    using x by (simp_all add: s' extends_def)
qed

text \<open>Memory outside the tables, and frames taken from the allocator, do not matter to translations.\<close>

lemma agree_tables:
  assumes ok: "vmm_ok s" and P: "current_pml4 s' = current_pml4 s" and p: "pmm_ok (pm s')"
    and t: "total_pages (pm s') = total_pages (pm s)" and f: "free_frames (pm s') \<subseteq> free_frames (pm s)"
    and m: "\<And>q u a. is_table s q u \<Longrightarrow> a div PAGE_SIZE = u div PAGE_SIZE \<Longrightarrow> mem s' a = mem s a"
  shows "is_table s' q u \<longleftrightarrow> is_table s q u" and "vmm_ok s'"
    and "is_table s q u \<Longrightarrow> i < 512 \<Longrightarrow> entry (mem s') u i = entry (mem s) u i"
    and "hw_translate s' v = hw_translate s v" and "path_clear s' v = path_clear s v"
    and "path_clear s v \<Longrightarrow> vmm_get_pte s' v = vmm_get_pte s v"
proof -
  show e: "entry (mem s') u i = entry (mem s) u i" if "is_table s q u" "i < 512" for q u i
    using that is_table_facts(1) [OF ok that(1)] m [OF that(1)] by (intro entry_cong) auto
  show it: "is_table s' q u \<longleftrightarrow> is_table s q u" for q u
    by (rule is_table_cong [OF ok P]) (rule e)
  show "vmm_ok s'" using ok p f unfolding vmm_ok_def it t by blast
  have "hw_translate s' v = Some w \<longleftrightarrow> hw_translate s v = Some w" for w
    unfolding hw_translate_alt it Let_def
    using e [of "[pml4_index v, pdp_index v]"] e [of "indices v"] by (simp cong: conj_cong)
  then show "hw_translate s' v = hw_translate s v" by (metis option.exhaust)
  have "indices v ! n < 512" if "n < 3" for n using that by (auto simp: indices_def less_Suc_eq numeral_3_eq_3)
  then show c: "path_clear s' v = path_clear s v" unfolding path_clear_iff it using e by (metis (no_types))
  have "tpath (mem s') (current_pml4 s') (indices v) = Some u \<longleftrightarrow> tpath (mem s) (current_pml4 s) (indices v) = Some u" for u
    unfolding tpath_is_table it ..
  then have "tpath (mem s') (current_pml4 s') (indices v) = tpath (mem s) (current_pml4 s) (indices v)"
    by (metis option.exhaust)
  then have "vmm_pt s' v = vmm_pt s v" if "path_clear s v" using that c by (simp add: vmm_pt_eq)
  moreover have "vmm_pt s v = Some a \<Longrightarrow> entry (mem s') a (pt_index v) = entry (mem s) a (pt_index v)"
    if "path_clear s v" for a using that e [of "indices v" a] by (simp add: vmm_pt_eq tpath_is_table)
  ultimately show "vmm_get_pte s' v = vmm_get_pte s v" if "path_clear s v"
    using that by (simp add: vmm_get_pte_def split: option.splits)
qed

section \<open>Mapping the kernel heap\<close>

lemma is_table_pm [simp]: "is_table (s\<lparr>pm := p\<rparr>) q u = is_table s q u"
  by (simp add: is_table_def)

lemma hw_translate_pm [simp]: "hw_translate (s\<lparr>pm := p\<rparr>) v = hw_translate s v"
proof -
  have "mem (s\<lparr>pm := p\<rparr>) = mem s" "current_pml4 (s\<lparr>pm := p\<rparr>) = current_pml4 s" by simp_all
  then show ?thesis unfolding hw_translate_def by (simp only:)
qed

lemma path_clear_pm [simp]: "path_clear (s\<lparr>pm := p\<rparr>) v = path_clear s v"
  by (simp add: path_clear_def)

lemma frame_masked:
  assumes "page_aligned n" and "unat n < 2 ^ 32"
  shows "n AND PTE_FRAME = n"
proof (rule bit_word_eqI)
  fix k
  show "bit (n AND PTE_FRAME) k \<longleftrightarrow> bit n k"
    using page_aligned_bit [OF assms(1), of k] small_bit [OF assms(2), of k]
    by (cases "k < 12"; cases "k < 32"; simp add: bit_and_iff bit_PTE_FRAME)
qed

text \<open>Taking a frame from the allocator and mapping it at a page.\<close>

lemma map_fresh_page:
  assumes ok: "vmm_ok s" and c: "path_clear s v" and f: "4 \<le> card (free_frames (pm s))"
    and a: "pmm_alloc_page (pm s) = (p', n)"
    and fl: "flags AND PTE_FRAME = 0" "flags AND PTE_PRESENT \<noteq> 0"
  defines "s' \<equiv> vmm_map_page (s\<lparr>pm := p'\<rparr>) v n flags"
  shows "vmm_ok s'" and "page_number w = page_number v \<Longrightarrow> hw_translate s' w = Some (n OR (w AND 0xFFF))"
    and "page_number w \<noteq> page_number v \<Longrightarrow> hw_translate s' w = hw_translate s w"
    and "path_clear s w \<Longrightarrow> path_clear s' w"
    and "free_frames (pm s') \<subseteq> free_frames (pm s) - {n div PAGE_SIZE}" and "n div PAGE_SIZE \<in> free_frames (pm s)"
    and "page_aligned n" and "total_pages (pm s') = total_pages (pm s)"
    and "card (free_frames (pm s)) \<le> card (free_frames (pm s')) + 4"
    and "is_table s' q u \<Longrightarrow> u div PAGE_SIZE \<noteq> n div PAGE_SIZE \<and>
           (is_table s q u \<or> u div PAGE_SIZE \<in> free_frames (pm s))"
proof -
  have pok: "pmm_ok (pm s)" using ok by (simp add: vmm_ok_def)
  have n: "n \<noteq> 0" using pmm_alloc_page_None [OF pok, of p'] a f by auto
  note A = pmm_alloc_page_Some [OF pok a n]
  have na: "page_aligned n" using A(2) by (simp add: page_aligned_def)
  have "unat n < 2 ^ 32" using frame_unat [OF pok] A(1) by (simp add: free_frames_def)
  note nf = frame_masked [OF na this]
  have ok1: "vmm_ok (s\<lparr>pm := p'\<rparr>)" using ok A(3-5) unfolding vmm_ok_def by auto
  have c1: "path_clear (s\<lparr>pm := p'\<rparr>) v" using c by simp
  have f1: "3 \<le> card (free_frames (pm (s\<lparr>pm := p'\<rparr>)))" using f A(1,3) by (simp add: card_Diff_singleton)
  note M = vmm_map_page_spec [OF ok1 c1 f1 nf fl, folded s'_def]
  show "vmm_ok s'" "page_number w = page_number v \<Longrightarrow> hw_translate s' w = Some (n OR (w AND 0xFFF))"
    by (fact M(1) M(2))+
  show "page_number w \<noteq> page_number v \<Longrightarrow> hw_translate s' w = hw_translate s w" using M(3) [of w] by simp
  show "path_clear s w \<Longrightarrow> path_clear s' w" using M(4) [of w] by simp
  show "page_aligned n" "n div PAGE_SIZE \<in> free_frames (pm s)" by (fact na A(1))+
  show "free_frames (pm s') \<subseteq> free_frames (pm s) - {n div PAGE_SIZE}"
    "total_pages (pm s') = total_pages (pm s)" using M(5,6) A(3,5) by auto
  show "card (free_frames (pm s)) \<le> card (free_frames (pm s')) + 4"
    using M(7) A(1,3) by (simp add: card_Diff_singleton)
  show "u div PAGE_SIZE \<noteq> n div PAGE_SIZE \<and> (is_table s q u \<or> u div PAGE_SIZE \<in> free_frames (pm s))"
    if "is_table s' q u"
  proof -
    have "is_table s q u \<or> u div PAGE_SIZE \<in> free_frames p'" using M(11) [OF that] by simp
    moreover have "is_table s q u \<Longrightarrow> u div PAGE_SIZE \<noteq> n div PAGE_SIZE"
      using is_table_facts(3) [OF ok, of q u] A(1) by metis
    ultimately show ?thesis using A(3) by blast
  qed
qed

text \<open>The pages of an aligned region below \<open>2 ^ 48\<close> are distinct.\<close>

lemma region_page:
  assumes a: "page_aligned start" and b: "unat start + 4096 * unat n \<le> 2 ^ 48" and j: "j < n" and k: "k < 4096"
  shows "unat (page_number (start + j * PAGE_SIZE + k)) = unat start div 4096 + unat j"
    and "page_aligned (start + j * PAGE_SIZE)" and "(start + j * PAGE_SIZE + k) AND 0xFFF = k"
proof -
  have j': "unat j < unat n" using j by (simp add: word_less_nat_alt)
  then have "4096 * Suc (unat j) \<le> 4096 * unat n" by (simp only: mult_le_mono2 Suc_le_eq)
  then have l: "unat start + 4096 * unat j + 4096 \<le> 2 ^ 48" using b by simp
  have jp: "unat (j * PAGE_SIZE) = 4096 * unat j"
    using l by (subst unat_mult_no_wrap) (simp_all add: PAGE_SIZE_def)
  then have v: "unat (start + j * PAGE_SIZE) = unat start + 4096 * unat j"
    using l by (subst unat_add_no_wrap) simp_all
  have m: "unat start mod 4096 = 0" using a by (simp add: page_aligned_def PAGE_SIZE_def word_unat_eq_iff unat_mod)
  then show va: "page_aligned (start + j * PAGE_SIZE)"
    unfolding page_aligned_def by (intro unat_eqI) (simp add: unat_mod v, simp add: PAGE_SIZE_def)
  have k': "unat k < 4096" using k by (simp add: word_less_nat_alt)
  have u: "unat (start + j * PAGE_SIZE + k) = unat start + 4096 * unat j + unat k"
    using page_offset(1) [OF va k] v by simp
  obtain q where q: "unat start = 4096 * q" using m by auto
  have "(4096 * (q + unat j) + unat k) div 4096 = q + unat j" using k' by simp
  then have "unat (drop_bit 12 (start + j * PAGE_SIZE + k)) = unat start div 4096 + unat j"
    using u q by (simp add: drop_bit_eq_div unat_div add_mult_distrib2)
  moreover have "unat start div 4096 + unat j < 2 ^ 36" using l by simp
  ultimately show "unat (page_number (start + j * PAGE_SIZE + k)) = unat start div 4096 + unat j"
    by (simp add: page_number_def unsigned_take_bit_eq take_bit_nat_eq_self)
  have "(4096 * (q + unat j) + unat k) mod 4096 = unat k"
    using k' by (simp only: mod_mult_self3 mod_less add.commute [of "4096 * (q + unat j)"] mod_mult_self2)
  then have "(start + j * PAGE_SIZE + k) AND mask 12 = k"
    using u q by (intro unat_eqI) (simp add: take_bit_eq_mask [symmetric] take_bit_eq_mod unat_mod add_mult_distrib2)
  then show "(start + j * PAGE_SIZE + k) AND 0xFFF = k" by (simp add: mask_eq_exp_minus_1)
qed

text \<open>
  The state after mapping the first \<open>i\<close> pages of the heap: \<open>fr j\<close> is the frame behind page \<open>j\<close>,
  taken from the frames that were free at the start, and it is no page table.
\<close>

definition heap_mapped :: "vmm \<Rightarrow> u64 \<Rightarrow> u64 \<Rightarrow> (u64 \<Rightarrow> u64) \<Rightarrow> vmm \<Rightarrow> bool" where
  "heap_mapped s0 start i fr s \<longleftrightarrow>
     vmm_ok s \<and> total_pages (pm s) = total_pages (pm s0) \<and> (\<forall>v. path_clear s0 v \<longrightarrow> path_clear s v) \<and>
     card (free_frames (pm s0)) \<le> card (free_frames (pm s)) + 4 * unat i \<and> inj_on fr {j. j < i} \<and>
     (\<forall>j k. j < i \<longrightarrow> k < 4096 \<longrightarrow> hw_translate s (start + j * PAGE_SIZE + k) = Some (fr j OR k)) \<and>
     (\<forall>j. j < i \<longrightarrow> page_aligned (fr j) \<and> fr j div PAGE_SIZE < total_pages (pm s) \<and>
        fr j div PAGE_SIZE \<notin> free_frames (pm s)) \<and>
     (\<forall>j q u. j < i \<longrightarrow> is_table s q u \<longrightarrow> u div PAGE_SIZE \<noteq> fr j div PAGE_SIZE)"

lemma heap_mapped_step:
  assumes H: "heap_mapped s0 start i fr s" and a: "page_aligned start"
    and b: "unat start + 4096 * unat n \<le> 2 ^ 48" and i: "i < n"
    and c: "path_clear s0 (start + i * PAGE_SIZE)" and f: "4 * unat n \<le> card (free_frames (pm s0))"
    and al: "pmm_alloc_page (pm s) = (p', m)"
  defines "s' \<equiv> vmm_map_page (s\<lparr>pm := p'\<rparr>) (start + i * PAGE_SIZE) m (PTE_PRESENT OR PTE_WRITABLE)"
  shows "heap_mapped s0 start (i + 1) (fr(i := m)) s'"
proof -
  have ok: "vmm_ok s" and c': "path_clear s (start + i * PAGE_SIZE)" using H c by (simp_all add: heap_mapped_def)
  have i': "unat i < unat n" "unat (i + 1) = Suc (unat i)" using i by (simp_all add: word_less_nat_alt unat_Suc_less)
  have f': "4 \<le> card (free_frames (pm s))" using H f i' unfolding heap_mapped_def by linarith
  have fl: "(PTE_PRESENT OR PTE_WRITABLE) AND PTE_FRAME = 0" "(PTE_PRESENT OR PTE_WRITABLE) AND PTE_PRESENT \<noteq> 0"
    by (simp_all add: PTE_PRESENT_def PTE_WRITABLE_def PTE_FRAME_def)
  note M = map_fresh_page [OF ok c' f' al fl, folded s'_def]
  have less: "j < i + 1 \<longleftrightarrow> j < i \<or> j = i" for j using word_less_plus_1 [OF i] .
  have old: "j < i \<Longrightarrow> fr j div PAGE_SIZE \<noteq> m div PAGE_SIZE" for j using H M(6) unfolding heap_mapped_def by metis
  have tr: "hw_translate s' (start + j * PAGE_SIZE + k) = Some ((fr(i := m)) j OR k)" if "j < i + 1" "k < 4096" for j k
  proof (cases "j = i")
    case True
    have "page_number (start + i * PAGE_SIZE + k) = page_number (start + i * PAGE_SIZE)"
      using region_page(1) [OF a b i that(2)] region_page(1) [OF a b i, of 0] by (intro unat_eqI) simp
    then show ?thesis using True M(2) region_page(3) [OF a b i that(2)] by simp
  next
    case False
    then have j: "j < i" "j < n" using that less i by auto
    have "page_number (start + j * PAGE_SIZE + k) \<noteq> page_number (start + i * PAGE_SIZE)"
      using region_page(1) [OF a b j(2) that(2)] region_page(1) [OF a b i, of 0] j(1)
      by (auto simp: word_less_nat_alt)
    then show ?thesis using M(3) H j(1) that(2) False unfolding heap_mapped_def by simp
  qed
  have "inj_on (fr(i := m)) {j. j < i + 1}"
  proof (rule inj_onI)
    fix x y assume "x \<in> {j. j < i + 1}" "y \<in> {j. j < i + 1}" "(fr(i := m)) x = (fr(i := m)) y"
    then show "x = y" using H old less unfolding heap_mapped_def
      by (cases "x = i"; cases "y = i"; auto dest: inj_onD)
  qed
  moreover have "card (free_frames (pm s0)) \<le> card (free_frames (pm s')) + 4 * unat (i + 1)"
    using H M(9) i' unfolding heap_mapped_def by simp
  moreover have "page_aligned ((fr(i := m)) j) \<and> (fr(i := m)) j div PAGE_SIZE < total_pages (pm s') \<and>
      (fr(i := m)) j div PAGE_SIZE \<notin> free_frames (pm s')" if "j < i + 1" for j
    using that less H M(5-8) unfolding heap_mapped_def by (auto simp: free_frames_def)
  moreover have "u div PAGE_SIZE \<noteq> (fr(i := m)) j div PAGE_SIZE" if "j < i + 1" "is_table s' q u" for j q u
    using that less H M(10) [OF that(2)] unfolding heap_mapped_def by auto
  ultimately show ?thesis
    using tr M(1,4,8) H unfolding heap_mapped_def by auto
qed

lemma heap_map_spec:
  assumes "vmm_ok s" and a: "page_aligned start" and b: "unat start + 4096 * unat n \<le> 2 ^ 48"
    and c: "\<And>j. j < n \<Longrightarrow> path_clear s (start + j * PAGE_SIZE)" and f: "4 * unat n \<le> card (free_frames (pm s))"
  shows "\<exists>fr. heap_mapped s start n fr (heap_map start n s)"
  unfolding heap_map_def
proof (rule for_upto_induct [where P = "\<lambda>i t. \<exists>fr. heap_mapped s start i fr t"])
  show "\<exists>fr. heap_mapped s start 0 fr s" using assms(1) by (auto simp: heap_mapped_def)
next
  fix i t assume i: "i < n" and "\<exists>fr. heap_mapped s start i fr t"
  then obtain fr where H: "heap_mapped s start i fr t" by blast
  obtain p' m where al: "pmm_alloc_page (pm t) = (p', m)" by fastforce
  from heap_mapped_step [OF H a b i c [OF i] f al]
  show "\<exists>fr. heap_mapped s start (i + 1) fr
      (let (p', n) = pmm_alloc_page (pm t)
       in vmm_map_page (t\<lparr>pm := p'\<rparr>) (start + i * PAGE_SIZE) n (PTE_PRESENT OR PTE_WRITABLE))"
    by (auto simp: al)
qed simp

section \<open>Freeing the user half\<close>

text \<open>Freeing tables changes the allocator only; frames once freed stay free.\<close>

definition frees :: "u64 set \<Rightarrow> vmm \<Rightarrow> vmm \<Rightarrow> bool" where
  "frees A s s' \<longleftrightarrow>
     mem s' = mem s \<and> current_pml4 s' = current_pml4 s \<and> mmio_virt_base s' = mmio_virt_base s \<and>
     total_pages (pm s') = total_pages (pm s) \<and>
     free_frames (pm s') = free_frames (pm s) \<union> {b \<in> A. b < total_pages (pm s)}"

lemma frees_refl: "frees {} s s"
  by (simp add: frees_def)

lemma frees_trans: "frees A s s' \<Longrightarrow> frees B s' s'' \<Longrightarrow> frees (A \<union> B) s s''"
  by (auto simp: frees_def)

lemma frees_vmm_free: "frees {p div PAGE_SIZE} s (vmm_free s p)"
  by (auto simp: frees_def vmm_free_def pmm_free_page_def Let_def)

lemma frees_loop:
  assumes "\<And>j t. j < n \<Longrightarrow> mem t = mem s \<Longrightarrow> frees (A j) t (f j t)"
  shows "frees (\<Union>j \<in> {j. j < n}. A j) s (for_upto f 0 n s)"
proof (rule for_upto_induct [where P = "\<lambda>i t. frees (\<Union>j \<in> {j. j < i}. A j) s t"])
  show "frees (\<Union>j \<in> {j. j < 0}. A j) s s" by (simp add: frees_refl)
next
  fix i t assume i: "i < n" and t: "frees (\<Union>j \<in> {j. j < i}. A j) s t"
  then have "frees (A i) t (f i t)" by (intro assms) (auto simp: frees_def)
  from frees_trans [OF t this] word_less_plus_1 [OF i]
  show "frees (\<Union>j \<in> {j. j < i + 1}. A j) s (f i t)" by (simp add: Un_commute Collect_disj_eq)
qed simp

definition pt_frames :: "bytes \<Rightarrow> u64 \<Rightarrow> u64 set" where
  "pt_frames m pt = insert (pt div PAGE_SIZE)
     (\<Union>l \<in> {l. l < 512}. if present (entry m pt l) then {(entry m pt l AND PTE_FRAME) div PAGE_SIZE} else {})"

definition pd_frames :: "bytes \<Rightarrow> u64 \<Rightarrow> u64 set" where
  "pd_frames m pd = insert (pd div PAGE_SIZE)
     (\<Union>k \<in> {k. k < 512}. let e = entry m pd k in
        if present e then (if large e then {(e AND PTE_FRAME) div PAGE_SIZE} else pt_frames m (e AND PTE_FRAME)) else {})"

definition pdp_frames :: "bytes \<Rightarrow> u64 \<Rightarrow> u64 set" where
  "pdp_frames m pdp = insert (pdp div PAGE_SIZE)
     (\<Union>j \<in> {j. j < 512}. let e = entry m pdp j in if present e then pd_frames m (e AND PTE_FRAME) else {})"

lemma large_iff: "e AND 0x80 = 0 \<longleftrightarrow> \<not> large e"
  using and_exp_eq_0 [of e 7] by (simp add: large_def)

lemma frees_pt: "frees (pt_frames (mem s) pt) s (free_pt pt s)"
proof -
  have "frees (\<Union>l \<in> {l. l < 512}. if present (entry (mem s) pt l) then {(entry (mem s) pt l AND PTE_FRAME) div PAGE_SIZE} else {}) s
      (for_upto (\<lambda>l s. let e = entry (mem s) pt l in
          if e AND PTE_PRESENT \<noteq> 0 then vmm_free s (phys_to_virt (e AND PTE_FRAME)) else s) 0 512 s)"
    by (rule frees_loop) (auto simp: present_iff phys_to_virt_def Let_def frees_vmm_free frees_refl)
  from frees_trans [OF this frees_vmm_free [of pt]] show ?thesis by (simp add: free_pt_def pt_frames_def)
qed

lemma frees_pd: "frees (pd_frames (mem s) pd) s (free_pd pd s)"
proof -
  have "frees (\<Union>k \<in> {k. k < 512}. let e = entry (mem s) pd k in
        if present e then (if large e then {(e AND PTE_FRAME) div PAGE_SIZE} else pt_frames (mem s) (e AND PTE_FRAME)) else {}) s
      (for_upto (\<lambda>k s. let e = entry (mem s) pd k in
          if e AND PTE_PRESENT \<noteq> 0 then
            (if e AND 0x80 \<noteq> 0 then vmm_free s (phys_to_virt (e AND PTE_FRAME))
             else free_pt (phys_to_virt (e AND PTE_FRAME)) s)
          else s) 0 512 s)"
  proof (rule frees_loop)
    fix j and t :: vmm assume "mem t = mem s"
    with frees_pt [of t "entry (mem s) pd j AND PTE_FRAME"] frees_vmm_free [of _ t] frees_refl [of t]
    show "frees (let e = entry (mem s) pd j in
        if present e then (if large e then {(e AND PTE_FRAME) div PAGE_SIZE} else pt_frames (mem s) (e AND PTE_FRAME)) else {}) t
      (let e = entry (mem t) pd j in
          if e AND PTE_PRESENT \<noteq> 0 then
            (if e AND 0x80 \<noteq> 0 then vmm_free t (phys_to_virt (e AND PTE_FRAME))
             else free_pt (phys_to_virt (e AND PTE_FRAME)) t)
          else t)"
      by (simp add: present_iff large_iff phys_to_virt_def Let_def)
  qed
  from frees_trans [OF this frees_vmm_free [of pd]] show ?thesis by (simp add: free_pd_def pd_frames_def)
qed

lemma frees_pdp: "frees (pdp_frames (mem s) pdp) s (free_pdp pdp s)"
proof -
  have "frees (\<Union>j \<in> {j. j < 512}. let e = entry (mem s) pdp j in if present e then pd_frames (mem s) (e AND PTE_FRAME) else {}) s
      (for_upto (\<lambda>j s. let e = entry (mem s) pdp j in
          if e AND PTE_PRESENT \<noteq> 0 then free_pd (phys_to_virt (e AND PTE_FRAME)) s else s) 0 512 s)"
  proof (rule frees_loop)
    fix j and t :: vmm assume "mem t = mem s"
    with frees_pd [of t "entry (mem s) pdp j AND PTE_FRAME"] frees_refl [of t]
    show "frees (let e = entry (mem s) pdp j in if present e then pd_frames (mem s) (e AND PTE_FRAME) else {}) t
      (let e = entry (mem t) pdp j in
          if e AND PTE_PRESENT \<noteq> 0 then free_pd (phys_to_virt (e AND PTE_FRAME)) t else t)"
      by (simp add: present_iff phys_to_virt_def Let_def)
  qed
  from frees_trans [OF this frees_vmm_free [of pdp]] show ?thesis by (simp add: free_pdp_def pdp_frames_def)
qed

lemma is_table_Cons:
  "is_table s [i] u \<longleftrightarrow> i < 512 \<and> present (entry (mem s) (current_pml4 s) i) \<and>
     \<not> large (entry (mem s) (current_pml4 s) i) \<and> u = entry (mem s) (current_pml4 s) i AND PTE_FRAME"
  "is_table s [i, j] u \<longleftrightarrow> j < 512 \<and> (\<exists>t. is_table s [i] t \<and> present (entry (mem s) t j) \<and>
     \<not> large (entry (mem s) t j) \<and> u = entry (mem s) t j AND PTE_FRAME)"
  "is_table s [i, j, k] u \<longleftrightarrow> k < 512 \<and> (\<exists>t. is_table s [i, j] t \<and> present (entry (mem s) t k) \<and>
     \<not> large (entry (mem s) t k) \<and> u = entry (mem s) t k AND PTE_FRAME)"
  using is_table_snoc [of "[]" s i u] is_table_snoc [of "[i]" s j u] is_table_snoc [of "[i, j]" s k u]
  by (auto simp: is_table_def)

text \<open>All tables below an entry, and all frames of their 4 KiB pages, are among those freed with it.\<close>

lemma pdp_frames_tables:
  fixes i :: u64
  assumes agree: "\<And>p u j. is_table s p u \<Longrightarrow> p \<noteq> [] \<Longrightarrow> j < 512 \<Longrightarrow> entry m u j = entry (mem s) u j"
  defines "pdp \<equiv> entry (mem s) (current_pml4 s) i AND PTE_FRAME"
  shows "is_table s (i # q) u \<Longrightarrow> u div PAGE_SIZE \<in> pdp_frames m pdp"
    and "is_table s [i, j, k] pt \<Longrightarrow> l < 512 \<Longrightarrow> present (entry (mem s) pt l) \<Longrightarrow>
           (entry (mem s) pt l AND PTE_FRAME) div PAGE_SIZE \<in> pdp_frames m pdp"
proof -
  have 1: "is_table s [i] u \<Longrightarrow> u = pdp" for u by (simp add: is_table_Cons pdp_def)
  have 2: "pd_frames m u \<subseteq> pdp_frames m pdp" if "is_table s [i, j] u" for u j
  proof -
    from that 1 have j: "j < 512" "is_table s [i] pdp" "present (entry (mem s) pdp j)" "u = entry (mem s) pdp j AND PTE_FRAME"
      unfolding is_table_Cons(2) by auto
    then have "entry m pdp j = entry (mem s) pdp j" by (intro agree) auto
    with j show ?thesis unfolding pdp_frames_def Let_def by (intro subset_insertI2 subset_trans [OF _ UN_upper [of j]]) auto
  qed
  have 3: "pt_frames m u \<subseteq> pdp_frames m pdp" if "is_table s [i, j, k] u" for u j k
  proof -
    from that obtain t where t: "k < 512" "is_table s [i, j] t" "present (entry (mem s) t k)" "\<not> large (entry (mem s) t k)"
      "u = entry (mem s) t k AND PTE_FRAME" unfolding is_table_Cons(3) by auto
    then have "entry m t k = entry (mem s) t k" by (intro agree) auto
    with t have "pt_frames m u \<subseteq> pd_frames m t"
      unfolding pd_frames_def Let_def by (intro subset_insertI2 subset_trans [OF _ UN_upper [of k]]) auto
    with 2 [OF t(2)] show ?thesis by blast
  qed
  show "u div PAGE_SIZE \<in> pdp_frames m pdp" if "is_table s (i # q) u"
  proof -
    have "length q \<le> 2" using that by (simp add: is_table_def)
    then consider "q = []" | j where "q = [j]" | j k where "q = [j, k]"
      by (cases q; cases "tl q"; auto)
    then show ?thesis
    proof cases
      case 1
      then show ?thesis using \<open>\<And>u. is_table s [i] u \<Longrightarrow> u = pdp\<close> that by (auto simp: pdp_frames_def)
    next
      case 2
      then show ?thesis using \<open>\<And>u j. is_table s [i, j] u \<Longrightarrow> pd_frames m u \<subseteq> pdp_frames m pdp\<close> that
        by (auto simp: pd_frames_def)
    next
      case 3
      then show ?thesis using \<open>\<And>u j k. is_table s [i, j, k] u \<Longrightarrow> pt_frames m u \<subseteq> pdp_frames m pdp\<close> that
        by (auto simp: pt_frames_def)
    qed
  qed
  show "(entry (mem s) pt l AND PTE_FRAME) div PAGE_SIZE \<in> pdp_frames m pdp"
    if "is_table s [i, j, k] pt" "l < 512" "present (entry (mem s) pt l)"
  proof -
    have "entry m pt l = entry (mem s) pt l" using that by (intro agree) auto
    with that have "(entry (mem s) pt l AND PTE_FRAME) div PAGE_SIZE \<in> pt_frames m pt" by (force simp: pt_frames_def)
    with 3 [OF that(1)] show ?thesis by blast
  qed
qed

definition user_freed :: "vmm \<Rightarrow> u64 \<Rightarrow> vmm \<Rightarrow> bool" where
  "user_freed s i t \<longleftrightarrow>
     current_pml4 t = current_pml4 s \<and> total_pages (pm t) = total_pages (pm s) \<and>
     (\<forall>j < 512. if j < i then \<not> present (entry (mem t) (current_pml4 s) j)
        else entry (mem t) (current_pml4 s) j = entry (mem s) (current_pml4 s) j) \<and>
     (\<forall>a. a div PAGE_SIZE \<noteq> current_pml4 s div PAGE_SIZE \<longrightarrow> mem t a = mem s a) \<and>
     free_frames (pm s) \<subseteq> free_frames (pm t) \<and>
     (\<forall>k q u. k < i \<longrightarrow> is_table s (k # q) u \<longrightarrow> u div PAGE_SIZE \<in> free_frames (pm t)) \<and>
     (\<forall>v pt. pml4_index v < i \<longrightarrow> is_table s (indices v) pt \<longrightarrow> present (entry (mem s) pt (pt_index v)) \<longrightarrow>
        (entry (mem s) pt (pt_index v) AND PTE_FRAME) div PAGE_SIZE < total_pages (pm s) \<longrightarrow>
        (entry (mem s) pt (pt_index v) AND PTE_FRAME) div PAGE_SIZE \<in> free_frames (pm t))"

lemma root_disjoint:
  assumes "vmm_ok s" and "is_table s p u" and "p \<noteq> []"
  shows "u div PAGE_SIZE \<noteq> current_pml4 s div PAGE_SIZE"
proof
  assume "u div PAGE_SIZE = current_pml4 s div PAGE_SIZE"
  moreover have "page_aligned u" "page_aligned (current_pml4 s)"
    using is_table_facts(1) [OF assms(1)] assms(2) is_table_root by auto
  ultimately have "u = current_pml4 s" by (metis page_aligned_def word_div_mod_eqI)
  with is_table_facts(4) [OF assms(1,2)] is_table_root [of s] assms(3) show False by auto
qed

lemma user_freed_agree:
  assumes "vmm_ok s" and "user_freed s i t" and "is_table s p u" and "p \<noteq> []" and "j < 512"
  shows "entry (mem t) u j = entry (mem s) u j"
  using assms root_disjoint [OF assms(1,3,4)] is_table_facts(1) [OF assms(1,3)]
  by (intro entry_cong) (auto simp: user_freed_def)

lemma user_freed_step:
  assumes ok: "vmm_ok s" and U: "user_freed s i t" and i: "i < 256"
    and pr: "present (entry (mem t) (current_pml4 t) i)"
  defines "pdp \<equiv> entry (mem t) (current_pml4 t) i AND PTE_FRAME"
  defines "t1 \<equiv> free_pdp pdp t"
  shows "user_freed s (i + 1) (t1\<lparr>mem := set_entry (mem t1) (current_pml4 t1) i 0\<rparr>)"
proof -
  let ?P = "current_pml4 s" and ?t' = "t1\<lparr>mem := set_entry (mem t1) (current_pml4 t1) i 0\<rparr>"
  have i5: "i < 512" using i by (simp add: word_less_nat_alt)
  have pe: "pdp = entry (mem s) ?P i AND PTE_FRAME" using U i5 by (auto simp: pdp_def user_freed_def)
  have fr: "frees (pdp_frames (mem t) pdp) t t1" unfolding t1_def by (rule frees_pdp)
  have Pa: "page_aligned ?P" using is_table_facts(1) [OF ok is_table_root] .
  have t1: "mem t1 = mem t" "current_pml4 t1 = ?P" "total_pages (pm t1) = total_pages (pm s)"
    "free_frames (pm t1) = free_frames (pm t) \<union> {b \<in> pdp_frames (mem t) pdp. b < total_pages (pm s)}"
    using fr U by (auto simp: frees_def user_freed_def)
  have less: "k < i + 1 \<longleftrightarrow> k < i \<or> k = i" for k using word_less_plus_1 [OF i] .
  have D1: "u div PAGE_SIZE \<in> pdp_frames (mem t) pdp" if "is_table s (i # q) u" for q u
    unfolding pe by (rule pdp_frames_tables(1) [OF _ that]) (rule user_freed_agree [OF ok U])
  have D2: "(entry (mem s) pt l AND PTE_FRAME) div PAGE_SIZE \<in> pdp_frames (mem t) pdp"
    if "is_table s [i, j, k] pt" "l < 512" "present (entry (mem s) pt l)" for j k pt l
    unfolding pe by (rule pdp_frames_tables(2) [OF _ that]) (rule user_freed_agree [OF ok U])
  have e: "if j < i + 1 then \<not> present (entry (mem ?t') ?P j) else entry (mem ?t') ?P j = entry (mem s) ?P j" if "j < 512" for j
    using U that t1 less set_entry_other [OF Pa Pa i5 that, of "mem t" 0] by (cases "j = i") (auto simp: user_freed_def)
  have out: "mem ?t' a = mem s a" if "a div PAGE_SIZE \<noteq> ?P div PAGE_SIZE" for a
    using set_entry_outside [OF Pa i5 that] U t1 that by (auto simp: user_freed_def)
  have tb: "u div PAGE_SIZE \<in> free_frames (pm ?t')" if "k < i + 1" "is_table s (k # q) u" for k q u
    using that U t1 less D1 [of q u] is_table_facts(2) [OF ok that(2)] by (auto simp: user_freed_def)
  have lf: "(entry (mem s) pt (pt_index v) AND PTE_FRAME) div PAGE_SIZE \<in> free_frames (pm ?t')"
    if "pml4_index v < i + 1" "is_table s (indices v) pt" "present (entry (mem s) pt (pt_index v))"
      "(entry (mem s) pt (pt_index v) AND PTE_FRAME) div PAGE_SIZE < total_pages (pm s)" for v pt
  proof (cases "pml4_index v = i")
    case True
    then have "is_table s [i, pdp_index v, pd_index v] pt" using that(2) by (simp add: indices_def)
    from D2 [OF this index_less(4) that(3)] that(4) t1(4) show ?thesis by simp
  next
    case False
    then show ?thesis using that U t1(4) less by (auto simp: user_freed_def)
  qed
  have "current_pml4 ?t' = ?P" "total_pages (pm ?t') = total_pages (pm s)" "free_frames (pm s) \<subseteq> free_frames (pm ?t')"
    using t1 U by (auto simp: user_freed_def)
  then show ?thesis unfolding user_freed_def by (intro conjI allI impI e out tb lf)
qed

lemma vmm_free_user_space_freed:
  assumes ok: "vmm_ok s"
  shows "user_freed s 256 (vmm_free_user_space s)"
  unfolding vmm_free_user_space_def
proof (rule for_upto_induct [where P = "user_freed s"])
  show "user_freed s 0 s" by (simp add: user_freed_def)
next
  fix i t assume i: "i < 256" and U: "user_freed s i t"
  have "user_freed s (i + 1) t" if "\<not> present (entry (mem t) (current_pml4 t) i)"
  proof -
    have less: "k < i + 1 \<longleftrightarrow> k < i \<or> k = i" for k using word_less_plus_1 [OF i] .
    have "entry (mem s) (current_pml4 s) i = entry (mem t) (current_pml4 t) i"
      using U i by (auto simp: user_freed_def word_less_nat_alt)
    with that have "\<not> is_table s (i # q) u" for q u by (auto simp: is_table_def)
    then show ?thesis using U that less unfolding user_freed_def by (auto simp: indices_def)
  qed
  then show "user_freed s (i + 1)
     (let e = entry (mem t) (current_pml4 t) i
      in if e AND PTE_PRESENT \<noteq> 0
         then let s1 = free_pdp (phys_to_virt (e AND PTE_FRAME)) t in s1\<lparr>mem := set_entry (mem s1) (current_pml4 s1) i 0\<rparr>
         else t)"
    using user_freed_step [OF ok U i] by (simp add: Let_def present_iff phys_to_virt_def)
qed simp

section \<open>Main results\<close>

text \<open>
  C7. \<open>vmm_map_page\<close> does what the processor's page walk needs: on a tree of page tables with three
  frames to spare, the page then translates to the given frame and every other page translates as
  before, large pages included; \<open>vmm_get_phys\<close> reads the new mapping back. \<open>vmm_unmap_page\<close> undoes it:
  the page has no translation and the others are still as before. The tables stay a tree whose
  tables are managed frames that are not free.
\<close>
theorem vmm_map_unmap:
  assumes "vmm_ok s" and "path_clear s v" and "3 \<le> card (free_frames (pm s))"
    and "phys AND PTE_FRAME = phys" and "flags AND PTE_FRAME = 0" and "flags AND PTE_PRESENT \<noteq> 0"
    and "s' = vmm_map_page s v phys flags" and "s'' = vmm_unmap_page s' v"
  shows "vmm_ok s' \<and> hw_translate s' v = Some (phys OR (v AND 0xFFF)) \<and>
         vmm_get_phys s' v = phys OR (v AND 0xFFF) \<and> vmm_ok s'' \<and> hw_translate s'' v = None \<and>
         (\<forall>w. page_number w \<noteq> page_number v \<longrightarrow>
            hw_translate s' w = hw_translate s w \<and> hw_translate s'' w = hw_translate s w)"
proof -
  note M = vmm_map_page_spec [OF assms(1-6), folded assms(7)]
  have c: "path_clear s' v" by (rule M(4)) (rule assms(2))
  obtain pt where pt: "is_table s' (indices v) pt" using M(8) by blast
  have l: "length (indices v) = 3" by (simp add: indices_def)
  note F = set_leaf [OF M(1) pt l index_less(4), where e = 0]
  have u: "s'' = s'\<lparr>mem := set_entry (mem s') pt (pt_index v) 0\<rparr>"
    using vmm_pt_eq [OF c] pt by (simp add: assms(8) vmm_unmap_page_def is_table_def)
  have "is_table s'' (indices v) pt" unfolding u F(1) by (rule pt)
  from leaf_translate [OF this] have "hw_translate s'' v = None" by (simp add: u Let_def)
  moreover have "hw_translate s'' w = hw_translate s w" if "page_number w \<noteq> page_number v" for w
    using set_leaf_translate [OF M(1) pt l index_less(4) [of v], where v = w and e = 0]
      page_number_indices [of w v] that M(3) by (auto simp: u)
  moreover have "vmm_get_phys s' v = phys OR (v AND 0xFFF)" using vmm_get_phys_eq [OF c] M(2) by simp
  moreover have "vmm_ok s''" unfolding u by (rule F(2))
  ultimately show ?thesis using M(1-3) by blast
qed

text \<open>
  After \<open>heap_init\<close> the whole kernel heap is backed by memory of its own: every byte of every page
  translates, different pages lie in different frames, none of the frames is free and none is a page
  table, so that nothing written to the heap can change a translation. Four free frames for each
  page are enough, since mapping a page takes one frame for it and at most three for tables.
\<close>
theorem heap_init_backed:
  assumes "vmm_ok s" and "page_aligned start" and "unat start + 4096 * unat n \<le> 2 ^ 48"
    and "\<And>j. j < n \<Longrightarrow> path_clear s (start + j * PAGE_SIZE)" and "4 * unat n \<le> card (free_frames (pm s))"
    and "n = (sz + PAGE_SIZE - 1) div PAGE_SIZE" and "heap_init s h start sz = (s', h')"
  shows "vmm_ok s' \<and>
    (\<exists>fr. inj_on fr {j. j < n} \<and>
       (\<forall>j < n. fr j div PAGE_SIZE \<notin> free_frames (pm s') \<and> (\<forall>q u. is_table s' q u \<longrightarrow> u div PAGE_SIZE \<noteq> fr j div PAGE_SIZE) \<and>
          (\<forall>k < 4096. hw_translate s' (start + j * PAGE_SIZE + k) = Some (fr j OR k))))"
proof -
  have "s' = heap_map start n s" using assms(6,7) by (auto simp: heap_init_def)
  with heap_map_spec [OF assms(1-5)] show ?thesis unfolding heap_mapped_def by blast
qed

lemma user_freed_tables:
  assumes ok: "vmm_ok s" and U: "user_freed s i t"
  shows "p \<noteq> [] \<Longrightarrow> i \<le> hd p \<Longrightarrow> is_table t p u \<longleftrightarrow> is_table s p u"
proof (induction p arbitrary: u rule: rev_induct)
  case (snoc j p)
  show ?case
  proof (cases "length p < 3 \<and> j < 512")
    case True
    have c: "is_table t p x \<longleftrightarrow> is_table s p x" for x
      using snoc U by (cases p) (auto simp: is_table_def user_freed_def)
    have "entry (mem t) x j = entry (mem s) x j" if "is_table s p x" for x
    proof (cases "p = []")
      case True
      with that have "x = current_pml4 s" by (simp add: is_table_def)
      with True snoc.prems U \<open>length p < 3 \<and> j < 512\<close> show ?thesis by (auto simp: user_freed_def not_less)
    next
      case False
      then show ?thesis using user_freed_agree [OF ok U that] True by blast
    qed
    with c True show ?thesis by (auto simp: is_table_snoc)
  qed (auto simp: is_table_def)
qed simp

text \<open>
  C18. \<open>vmm_free_user_space\<close> removes everything below PML4 entry 256 and nothing else: no address of the
  lower half translates any more, addresses of the upper half translate as before, and all
  tables and 4 KiB frames of the lower half are free again. The kernel heap, which \<^verbatim>\<open>kernel.c\<close> places
  at \<^verbatim>\<open>0x100000000000\<close>, lies in the lower half: its translation is lost as well.
\<close>
theorem vmm_free_user_space_frees_lower_half:
  assumes "vmm_ok s"
  shows "hw_translate (vmm_free_user_space s) v = (if pml4_index v < 256 then None else hw_translate s v) \<and>
         (pml4_index v < 256 \<longrightarrow> is_table s (indices v) pt \<longrightarrow> present (entry (mem s) pt (pt_index v)) \<longrightarrow>
            (entry (mem s) pt (pt_index v) AND PTE_FRAME) div PAGE_SIZE < total_pages (pm s) \<longrightarrow>
            (entry (mem s) pt (pt_index v) AND PTE_FRAME) div PAGE_SIZE \<in> free_frames (pm (vmm_free_user_space s))) \<and>
         (pml4_index v < 256 \<longrightarrow> is_table s (pml4_index v # q) t \<longrightarrow>
            t div PAGE_SIZE \<in> free_frames (pm (vmm_free_user_space s))) \<and>
         hw_translate (vmm_free_user_space s) 0x100000000000 = None"
proof -
  let ?t = "vmm_free_user_space s" and ?q = "\<lambda>v. [pml4_index v, pdp_index v]"
  note U = vmm_free_user_space_freed [OF assms]
  have low: "hw_translate ?t v = None" if "pml4_index v < 256" for v
  proof -
    have "\<not> present (entry (mem ?t) (current_pml4 ?t) (pml4_index v))"
      using U that by (auto simp: user_freed_def)
    then have "tpath (mem ?t) (current_pml4 ?t) (?q v) = None" by simp
    then show ?thesis by (simp add: hw_translate_def del: tpath.simps)
  qed
  have high: "hw_translate ?t v = hw_translate s v" if "\<not> pml4_index v < 256" for v
  proof -
    have T: "is_table ?t (?q v) u \<longleftrightarrow> is_table s (?q v) u" "is_table ?t (indices v) u \<longleftrightarrow> is_table s (indices v) u" for u
      using user_freed_tables [OF assms U, of "?q v"] user_freed_tables [OF assms U, of "indices v"] that
      by (simp_all add: indices_def not_less)
    have "is_table s (?q v) u \<Longrightarrow> entry (mem ?t) u (pd_index v) = entry (mem s) u (pd_index v)"
      "is_table s (indices v) u \<Longrightarrow> entry (mem ?t) u (pt_index v) = entry (mem s) u (pt_index v)" for u
      using user_freed_agree [OF assms U] by (simp_all add: indices_def)
    then have "hw_translate ?t v = Some w \<longleftrightarrow> hw_translate s v = Some w" for w
      unfolding hw_translate_alt T Let_def by (simp cong: conj_cong)
    then show ?thesis by (metis option.exhaust)
  qed
  have "pml4_index 0x100000000000 < 256" by (simp add: pml4_index_def)
  then have "hw_translate ?t 0x100000000000 = None" by (rule low)
  moreover have "hw_translate ?t v = (if pml4_index v < 256 then None else hw_translate s v)"
    using low high by simp
  ultimately show ?thesis using U unfolding user_freed_def by blast
qed

section \<open>Witnesses\<close>

definition zero_vmm :: "pmm \<Rightarrow> vmm" where
  "zero_vmm p = vmm_init p (\<lambda>_. 0) 0x1000"

lemma zero_vmm_entry [simp]: "entry (mem (zero_vmm p)) t i = 0"
  by (simp add: zero_vmm_def vmm_init_def entry_def load64_def load32_def load16_def)

lemma zero_vmm_fields [simp]: "pm (zero_vmm p) = p" "current_pml4 (zero_vmm p) = 0x1000" "mem (zero_vmm p) = (\<lambda>_. 0)"
  by (simp_all add: zero_vmm_def vmm_init_def phys_to_virt_def)

lemma zero_vmm_ok:
  assumes "pmm_ok p" and "1 < total_pages p" and "1 \<notin> free_frames p"
  shows "vmm_ok (zero_vmm p)"
proof -
  have t: "is_table (zero_vmm p) q u \<Longrightarrow> q = [] \<and> u = 0x1000" for q u
    using zero_vmm_entry [of p] by (cases q) (auto simp: is_table_def simp del: zero_vmm_fields(3))
  have "page_aligned 0x1000" "(0x1000 :: u64) div PAGE_SIZE = 1"
    by (simp_all add: page_aligned_def PAGE_SIZE_def)
  then show ?thesis using assms unfolding vmm_ok_def by (auto dest!: t)
qed

lemma zero_vmm_path_clear: "path_clear (zero_vmm p) v"
  using zero_vmm_entry [of p] by (simp add: path_clear_def del: zero_vmm_fields(3))

definition demo_vmm :: vmm where
  "demo_vmm = zero_vmm demo_pmm"

lemma demo_vmm_ok: "vmm_ok demo_vmm"
  unfolding demo_vmm_def
  by (rule zero_vmm_ok [OF demo_pmm_ok]) (simp_all add: demo_pmm_def free_frames_def pmm_test_bit_alt bit_numeral_rec)

lemma demo_path_clear: "path_clear demo_vmm v"
  by (simp add: demo_vmm_def zero_vmm_path_clear)

lemma demo_free: "card (free_frames (pm demo_vmm)) = 4"
proof -
  have "card (free_frames demo_pmm) = 4" unfolding card_free_frames by code_simp
  then show ?thesis by (simp add: demo_vmm_def)
qed

theorem vmm_map_unmap_witness:
  "vmm_get_phys (vmm_map_page demo_vmm 0x400123 0x7000 7) 0x400123 = 0x7123 \<and>
   hw_translate (vmm_unmap_page (vmm_map_page demo_vmm 0x400123 0x7000 7) 0x400123) 0x400123 = None"
proof -
  have v: "(0x7000 :: u64) AND PTE_FRAME = 0x7000" "7 AND PTE_FRAME = 0" "7 AND PTE_PRESENT \<noteq> 0"
    by (simp_all add: PTE_FRAME_def PTE_PRESENT_def)
  have f: "3 \<le> card (free_frames (pm demo_vmm))" by (simp add: demo_free)
  have a: "(0x7000 :: u64) OR (0x400123 AND 0xFFF) = 0x7123" by simp
  show ?thesis using vmm_map_unmap [OF demo_vmm_ok demo_path_clear f v refl refl, of "0x400123"] unfolding a by blast
qed

theorem heap_init_backed_witness:
  "\<exists>s' h' f. heap_init demo_vmm demo_heap 0x100000000000 4096 = (s', h') \<and>
     f div PAGE_SIZE \<notin> free_frames (pm s') \<and> hw_translate s' 0x100000000010 = Some (f OR 0x10)"
proof -
  let ?s = "0x100000000000 :: u64"
  obtain s' h' where i: "heap_init demo_vmm demo_heap ?s 4096 = (s', h')" by fastforce
  have n: "1 = (4096 + PAGE_SIZE - 1) div PAGE_SIZE" and a: "page_aligned ?s"
    by (simp_all add: PAGE_SIZE_def page_aligned_def)
  have "unat ?s + 4096 * unat (1 :: u64) \<le> 2 ^ 48" "4 * unat (1 :: u64) \<le> card (free_frames (pm demo_vmm))"
    by (simp_all add: demo_free)
  from heap_init_backed [OF demo_vmm_ok a this(1) demo_path_clear this(2) n i]
  obtain fr where "\<forall>j < 1. fr j div PAGE_SIZE \<notin> free_frames (pm s') \<and>
      (\<forall>k < 4096. hw_translate s' (?s + j * PAGE_SIZE + k) = Some (fr j OR k))" by auto
  then have "fr 0 div PAGE_SIZE \<notin> free_frames (pm s') \<and>
      (\<forall>k < 4096. hw_translate s' (?s + 0 * PAGE_SIZE + k) = Some (fr 0 OR k))" by (auto simp: word_less_1)
  then have "fr 0 div PAGE_SIZE \<notin> free_frames (pm s')"
    "(0x10 :: u64) < 4096 \<longrightarrow> hw_translate s' (?s + 0 * PAGE_SIZE + 0x10) = Some (fr 0 OR 0x10)" by blast+
  with i show ?thesis by auto
qed

theorem vmm_free_user_space_frees_lower_half_witness:
  "hw_translate (vmm_map_page demo_vmm 0x100000000000 0x7000 3) 0x100000000000 = Some 0x7000 \<and>
   hw_translate (vmm_free_user_space (vmm_map_page demo_vmm 0x100000000000 0x7000 3)) 0x100000000000 = None"
proof -
  have v: "(0x7000 :: u64) AND PTE_FRAME = 0x7000" "3 AND PTE_FRAME = 0" "3 AND PTE_PRESENT \<noteq> 0"
    by (simp_all add: PTE_FRAME_def PTE_PRESENT_def)
  have f: "3 \<le> card (free_frames (pm demo_vmm))" by (simp add: demo_free)
  note M = vmm_map_page_spec [OF demo_vmm_ok demo_path_clear f v, of "0x100000000000"]
  have a: "(0x7000 :: u64) OR (0x100000000000 AND 0xFFF) = 0x7000" by simp
  show ?thesis using vmm_free_user_space_frees_lower_half [OF M(1)] M(2) [OF refl, unfolded a] by blast
qed

end
