(* ===== verification/Kernel.thy ===== *)
theory Kernel
  imports Sched Hrtimer Vmm
begin

text \<open>
  The state that process management works on, and the core of \<^verbatim>\<open>kernel/process/process.c\<close>: looking up
  processes, resource limits, priorities, and \<open>process_schedule\<close> with the context switch of
  \<^verbatim>\<open>kernel/arch/x86_64/switch.asm\<close>. Processes and timers are typed objects; stacks are in raw memory. The
  callee-saved registers of the processor and its stack pointer are part of the state, as the compiled caller of
  \<open>switch_to_task\<close> leaves them. Behind the table of quantums lies memory that the model does not know: reading it
  gives an arbitrary value, which is part of the state.
\<close>

section \<open>State\<close>

record cpu =
  c_rbx :: u64
  c_rbp :: u64
  c_r12 :: u64
  c_r13 :: u64
  c_r14 :: u64
  c_r15 :: u64
  c_rdi :: u64
  c_rsp :: u64
  c_rip :: u64

record kernel = sched +
  current_process :: u64
  process_list :: u64
  sleep_queue :: u64
  next_pid :: u64
  global_ticks :: u64
  k_heap :: heap
  k_vm :: vmm
  k_cpu :: cpu
  k_rflags :: u64
  k_cr3 :: u64
  tss_rsp0 :: u64
  k_hr :: hrtimers
  root_dentry :: u64
  root_mnt :: u64
  init_nsproxy :: u64
  nsproxy_refs :: "u64 \<Rightarrow> int"
  beyond_quantums :: "int \<Rightarrow> int"
  sym_kernel_thread_helper :: u64
  sym_fork_trampoline :: u64

abbreviation k_mem :: "'a kernel_scheme \<Rightarrow> bytes" where
  "k_mem s \<equiv> mem (k_vm s)"

definition set_mem :: "bytes \<Rightarrow> 'a kernel_scheme \<Rightarrow> 'a kernel_scheme" where
  "set_mem m s = s\<lparr>k_vm := (k_vm s)\<lparr>mem := m\<rparr>\<rparr>"

abbreviation upd_current :: "(process \<Rightarrow> process) \<Rightarrow> 'a kernel_scheme \<Rightarrow> 'a kernel_scheme" where
  "upd_current f s \<equiv> upd_proc (current_process s) f s"

abbreviation current :: "'a kernel_scheme \<Rightarrow> process" where
  "current s \<equiv> procs s (current_process s)"

section \<open>Processes\<close>

definition get_process_list_head :: "'a kernel_scheme \<Rightarrow> u64" where
  "get_process_list_head s = process_list s"

definition get_process_by_pid :: "int \<Rightarrow> 'a kernel_scheme \<Rightarrow> u64 option" where
  "get_process_by_pid pid s =
     map_option snd (walk (\<lambda>p. p_pid (procs s p) = word_of_int pid) (\<lambda>p. p_next (procs s p)) 0 (process_list s))"

definition process_set_priority :: "int \<Rightarrow> int \<Rightarrow> 'a kernel_scheme \<Rightarrow> ('a kernel_scheme \<times> int) option" where
  "process_set_priority pid priority s =
     (case get_process_by_pid pid s of
        None \<Rightarrow> None
      | Some p \<Rightarrow> if p = 0 then Some (s, - 1) else Some (upd_proc p (\<lambda>x. x\<lparr>p_priority := priority\<rparr>) s, 0))"

definition process_get_priority :: "int \<Rightarrow> 'a kernel_scheme \<Rightarrow> int option" where
  "process_get_priority pid s =
     (case get_process_by_pid pid s of
        None \<Rightarrow> None
      | Some p \<Rightarrow> Some (if p = 0 then - 1 else p_priority (procs s p)))"

definition RLIMIT_CPU :: nat where "RLIMIT_CPU = 0"
definition RLIMIT_NOFILE :: nat where "RLIMIT_NOFILE = 7"
definition RLIMIT_NLIMITS :: nat where "RLIMIT_NLIMITS = 10"
definition RLIM_INFINITY :: u64 where "RLIM_INFINITY = - 1"

definition check_rlimit :: "int \<Rightarrow> u64 \<Rightarrow> 'a kernel_scheme \<Rightarrow> int" where
  "check_rlimit resource amount s =
     (if current_process s = 0 then 0
      else if resource < 0 \<or> resource \<ge> int RLIMIT_NLIMITS then 0
      else
        (let lim = p_rlimits (current s) (nat resource)
         in if rlim_cur lim = RLIM_INFINITY then 0 else if amount > rlim_cur lim then 1 else 0))"

section \<open>Switching\<close>

definition sti :: "'a kernel_scheme \<Rightarrow> 'a kernel_scheme" where
  "sti s = s\<lparr>k_rflags := k_rflags s OR 0x200\<rparr>"

definition cli :: "'a kernel_scheme \<Rightarrow> 'a kernel_scheme" where
  "cli s = s\<lparr>k_rflags := k_rflags s AND NOT 0x200\<rparr>"

fun push_words :: "bytes \<Rightarrow> u64 \<Rightarrow> u64 list \<Rightarrow> bytes \<times> u64" where
  "push_words m sp [] = (m, sp)"
| "push_words m sp (w # ws) = push_words (store64 m (sp - 8) w) (sp - 8) ws"

definition switch_to_task :: "u64 \<Rightarrow> u64 \<Rightarrow> 'a kernel_scheme \<Rightarrow> 'a kernel_scheme" where
  "switch_to_task prv nxt s =
     (let c = k_cpu s;
          (m, sp) = push_words (k_mem s) (c_rsp c) [c_rbx c, c_rbp c, c_r12 c, c_r13 c, c_r14 c, c_r15 c];
          s1 = upd_proc prv (\<lambda>x. x\<lparr>p_rsp := sp\<rparr>) (set_mem m s);
          sp' = p_rsp (procs s1 nxt)
      in s1\<lparr>k_cpu := c\<lparr>c_r15 := load64 m sp', c_r14 := load64 m (sp' + 8), c_r13 := load64 m (sp' + 16),
            c_r12 := load64 m (sp' + 24), c_rbp := load64 m (sp' + 32), c_rbx := load64 m (sp' + 40),
            c_rip := load64 m (sp' + 48), c_rsp := sp' + 56\<rparr>\<rparr>)"

definition tss_set_stack :: "u64 \<Rightarrow> 'a kernel_scheme \<Rightarrow> 'a kernel_scheme" where
  "tss_set_stack rsp0 s = s\<lparr>tss_rsp0 := rsp0\<rparr>"

definition mlfq_quantums :: "'a kernel_scheme \<Rightarrow> int \<Rightarrow> int" where
  "mlfq_quantums s i = (if 0 \<le> i \<and> i < int MLFQ_LEVELS then [2, 5, 10, 20] ! nat i else beyond_quantums s i)"

text \<open>A running process that gives up the processor: it goes down a level when its time slice is used up.\<close>

definition end_of_turn :: "'a kernel_scheme \<Rightarrow> process \<Rightarrow> process" where
  "end_of_turn s x =
     (let x1 = x\<lparr>p_state := READY\<rparr>
      in if p_policy x1 = SCHED_OTHER \<and> p_time_slice x1 \<le> 0 then
           (let x2 = (if p_priority x1 < int MLFQ_LEVELS - 1 then x1\<lparr>p_priority := p_priority x1 + 1\<rparr> else x1);
                x3 = x2\<lparr>p_quantum := mlfq_quantums s (p_priority x2)\<rparr>
            in x3\<lparr>p_time_slice := p_quantum x3\<rparr>)
         else x1)"

definition process_schedule :: "'a kernel_scheme \<Rightarrow> 'a kernel_scheme option" where
  "process_schedule s =
     (let cur = current_process s
      in if cur = 0 then Some s
         else
           (case (if p_state (procs s cur) = RUNNING then enqueue_process cur (upd_proc cur (end_of_turn s) s) else Some s) of
              None \<Rightarrow> None
            | Some s1 \<Rightarrow>
                (let (s2, nxt) = pick_next_task s1
                 in if nxt = 0 then
                      (if p_state (procs s2 cur) = READY then Some (upd_proc cur (\<lambda>x. x\<lparr>p_state := RUNNING\<rparr>) s2) else Some (sti s2))
                    else if nxt \<noteq> cur then
                      (let s3 = upd_proc nxt (\<lambda>x. x\<lparr>p_state := RUNNING\<rparr>) (s2\<lparr>current_process := nxt\<rparr>)
                       in Some (switch_to_task cur nxt (tss_set_stack (p_kernel_stack (procs s3 nxt)) s3)))
                    else Some (upd_proc cur (\<lambda>x. x\<lparr>p_state := RUNNING\<rparr>) s2))))"

definition process_yield :: "'a kernel_scheme \<Rightarrow> 'a kernel_scheme option" where
  "process_yield s = process_schedule s"

lemma upd_proc_more [simp]: "kernel.more (upd_proc p f s) = kernel.more s"
  by (simp add: upd_proc_def)

lemma upd_proc_kernel [simp]:
  "current_process (upd_proc p f s) = current_process s" "process_list (upd_proc p f s) = process_list s"
  "sleep_queue (upd_proc p f s) = sleep_queue s" "next_pid (upd_proc p f s) = next_pid s"
  "global_ticks (upd_proc p f s) = global_ticks s" "k_heap (upd_proc p f s) = k_heap s" "k_vm (upd_proc p f s) = k_vm s"
  "k_cpu (upd_proc p f s) = k_cpu s" "k_hr (upd_proc p f s) = k_hr s" "tss_rsp0 (upd_proc p f s) = tss_rsp0 s"
  by (simp_all add: upd_proc_def)

section \<open>Stacks\<close>

lemma offset_beyond:
  assumes "n \<le> d" and "n \<le> - d" and "i < unat n"
  shows "\<not> (d + of_nat i :: u64) < n"
proof -
  have "unat (0 - d) = (if d = 0 then 0 else 2 ^ 64 - unat d)"
    by (subst unat_sub_if') (auto simp: unat_eq_zero)
  then have "unat d + unat n \<le> 2 ^ 64" using assms unsigned_less [of d, where 'a = nat]
    by (auto simp: word_le_nat_alt split: if_splits)
  moreover have "unat (of_nat i :: u64) = i" using assms(3) unsigned_less [of n, where 'a = nat]
    by (intro unat_of_nat_small) simp
  ultimately have "unat (d + of_nat i) = unat d + i" using assms(3) by (subst unat_add_no_wrap) simp_all
  then show ?thesis using assms(1) by (simp add: word_less_nat_alt word_le_nat_alt)
qed

lemma load64_store64_other: "8 \<le> q - p \<Longrightarrow> 8 \<le> p - q \<Longrightarrow> load64 (store64 m p w) q = load64 m q"
proof (rule load64_cong)
  fix i :: nat assume a: "8 \<le> q - p" "8 \<le> p - q" and i: "i < 8"
  have "\<not> (q - p) + of_nat i < 8" by (rule offset_beyond) (use a i in simp_all)
  then show "store64 m p w (q + of_nat i) = m (q + of_nat i)" by (simp add: store64_def add_diff_eq diff_add_eq)
qed

text \<open>The words that were pushed are on the stack, last one first; nothing outside has changed.\<close>

lemma push_words_append: "push_words m sp (ws @ [w]) =
    (store64 (fst (push_words m sp ws)) (snd (push_words m sp ws) - 8) w, snd (push_words m sp ws) - 8)"
  by (induction ws arbitrary: m sp) simp_all

lemma of_nat_apart: "8 \<le> k \<Longrightarrow> k \<le> 2 ^ 64 - 8 \<Longrightarrow> 8 \<le> (of_nat k :: u64) \<and> 8 \<le> - (of_nat k :: u64)"
proof -
  assume k: "8 \<le> k" "k \<le> 2 ^ 64 - 8"
  then have u: "unat (of_nat k :: u64) = k" by (intro unat_of_nat_small) simp
  have "unat (0 - of_nat k :: u64) = 2 ^ 64 - k" using k u by (subst unat_sub_if') simp
  then show ?thesis using k u by (simp add: word_le_nat_alt)
qed

lemma unat_8: "unat (8 :: u64) = 8"
  by simp

lemma push_words_spec:
  assumes "push_words m sp ws = (m', sp')" and "8 * length ws < 2 ^ 64"
  shows "sp' = sp - of_nat (8 * length ws) \<and>
    (\<forall>i < length ws. load64 m' (sp - of_nat (8 * i + 8)) = ws ! i) \<and>
    (\<forall>a. of_nat (8 * length ws) \<le> a - sp' \<longrightarrow> m' a = m a)"
  using assms
proof (induction ws arbitrary: m' sp' rule: rev_induct)
  case (snoc w ws)
  obtain m1 sp1 where p: "push_words m sp ws = (m1, sp1)" by fastforce
  let ?n = "length ws"
  have e: "m' = store64 m1 (sp1 - 8) w" "sp' = sp1 - 8" using snoc.prems(1) p by (auto simp: push_words_append)
  have n: "8 * ?n + 8 \<le> 2 ^ 64 - 8" using snoc.prems(2) by simp
  then have ih: "sp1 = sp - of_nat (8 * ?n)" "\<forall>i < ?n. load64 m1 (sp - of_nat (8 * i + 8)) = ws ! i"
    "\<forall>a. of_nat (8 * ?n) \<le> a - sp1 \<longrightarrow> m1 a = m a"
    using snoc.IH [OF p] by simp_all
  have sp': "sp' = sp - of_nat (8 * ?n + 8)" using e ih(1) by simp
  have "load64 m' (sp - of_nat (8 * i + 8)) = (ws @ [w]) ! i" if "i < Suc ?n" for i
  proof (cases "i = ?n")
    case True
    show ?thesis unfolding True sp' [symmetric] e(1) e(2) [symmetric] by simp
  next
    case False
    then have i: "i < ?n" using that by simp
    have d: "(sp - of_nat (8 * i + 8)) - sp' = of_nat (8 * (?n - i))"
      unfolding sp' using i by (simp add: of_nat_diff right_diff_distrib)
    then have d': "sp' - (sp - of_nat (8 * i + 8)) = - of_nat (8 * (?n - i))" by (metis minus_diff_eq)
    have ap: "8 \<le> (of_nat (8 * (?n - i)) :: u64) \<and> 8 \<le> - (of_nat (8 * (?n - i)) :: u64)"
      by (rule of_nat_apart) (use i n in linarith)+
    have "load64 m' (sp - of_nat (8 * i + 8)) = load64 m1 (sp - of_nat (8 * i + 8))"
      unfolding e(1) e(2) [symmetric] by (rule load64_store64_other) (simp_all only: d d' ap)
    then show ?thesis using ih(2) i by (simp add: nth_append)
  qed
  moreover have "m' a = m a" if "of_nat (8 * length (ws @ [w])) \<le> a - sp'" for a
  proof -
    have u: "unat (of_nat (8 * ?n + 8) :: u64) = 8 * ?n + 8" "unat (of_nat (8 * ?n) :: u64) = 8 * ?n"
      using n by (intro unat_of_nat_small; simp)+
    have len: "8 * length (ws @ [w]) = 8 * ?n + 8" by simp
    have le: "8 * ?n + 8 \<le> unat (a - sp')" using that unfolding len word_le_nat_alt u(1) .
    have "a - sp1 = (a - sp') - 8" using e(2) by simp
    moreover have "8 \<le> a - sp'" using le by (simp add: word_le_nat_alt)
    ultimately have "unat (a - sp1) = unat (a - sp') - 8" using unat_diff_le [of 8 "a - sp'"]
      by (simp only: unat_8)
    then have "of_nat (8 * ?n) \<le> a - sp1" using le unfolding word_le_nat_alt u(2) by simp
    then have "m1 a = m a" using ih(3) by blast
    moreover have "\<not> a - sp' < 8" using le by (simp add: word_less_nat_alt)
    ultimately show ?thesis unfolding e(1) e(2) [symmetric] store64_def by simp
  qed
  ultimately show ?case using sp' by simp
qed simp

text \<open>
  What a context switch does: the registers of the old process are on its stack, and those of the new
  one come from its own.
\<close>

definition saved_context :: "bytes \<Rightarrow> u64 \<Rightarrow> cpu \<Rightarrow> bool" where
  "saved_context m sp c \<longleftrightarrow>
     load64 m sp = c_r15 c \<and> load64 m (sp + 8) = c_r14 c \<and> load64 m (sp + 16) = c_r13 c \<and> load64 m (sp + 24) = c_r12 c \<and>
     load64 m (sp + 32) = c_rbp c \<and> load64 m (sp + 40) = c_rbx c \<and> load64 m (sp + 48) = c_rip c \<and> c_rsp c = sp + 56"

lemma switch_loads:
  assumes "saved_context m sp c" and "p_rsp (procs s nxt) = sp" and "nxt \<noteq> prv"
    and "\<And>i. i < 56 \<Longrightarrow> k_mem (switch_to_task prv nxt s) (sp + of_nat i) = m (sp + of_nat i)"
  shows "k_cpu (switch_to_task prv nxt s) = c\<lparr>c_rdi := c_rdi (k_cpu s)\<rparr>"
proof -
  let ?s' = "switch_to_task prv nxt s" and ?c = "k_cpu s"
  obtain m1 sp1 where p: "push_words (k_mem s) (c_rsp ?c) [c_rbx ?c, c_rbp ?c, c_r12 ?c, c_r13 ?c, c_r14 ?c, c_r15 ?c] = (m1, sp1)"
    by fastforce
  have "load64 (k_mem ?s') (sp + of_nat (8 * k)) = load64 m (sp + of_nat (8 * k))" if "k < 7" for k
  proof (rule load64_cong)
    fix i :: nat assume "i < 8"
    then show "k_mem ?s' (sp + of_nat (8 * k) + of_nat i) = m (sp + of_nat (8 * k) + of_nat i)"
      using assms(4) [of "8 * k + i"] that by (simp add: add.assoc)
  qed
  from this [of 0] this [of 1] this [of 2] this [of 3] this [of 4] this [of 5] this [of 6]
  have "load64 (k_mem ?s') sp = c_r15 c" "load64 (k_mem ?s') (sp + 8) = c_r14 c" "load64 (k_mem ?s') (sp + 16) = c_r13 c"
    "load64 (k_mem ?s') (sp + 24) = c_r12 c" "load64 (k_mem ?s') (sp + 32) = c_rbp c" "load64 (k_mem ?s') (sp + 40) = c_rbx c"
    "load64 (k_mem ?s') (sp + 48) = c_rip c" using assms(1) by (simp_all add: saved_context_def)
  moreover have "c_rsp c = sp + 56" using assms(1) by (simp add: saved_context_def)
  moreover have "k_mem ?s' = m1" using p by (simp add: switch_to_task_def set_mem_def Let_def split_beta del: push_words.simps)
  ultimately show ?thesis using assms(2,3) p
    by (simp add: switch_to_task_def set_mem_def Let_def split_beta del: push_words.simps)
qed

lemma switch_saves:
  fixes prv nxt :: u64
  assumes "load64 (k_mem s) (c_rsp (k_cpu s)) = ra"
  defines "s' \<equiv> switch_to_task prv nxt s"
  shows "p_rsp (procs s' prv) = c_rsp (k_cpu s) - 48"
    and "saved_context (k_mem s') (c_rsp (k_cpu s) - 48) ((k_cpu s)\<lparr>c_rip := ra, c_rsp := c_rsp (k_cpu s) + 8\<rparr>)"
    and "48 \<le> a - (c_rsp (k_cpu s) - 48) \<Longrightarrow> k_mem s' a = k_mem s a"
proof -
  let ?c = "k_cpu s"
  let ?rsp = "c_rsp ?c" and ?ws = "[c_rbx ?c, c_rbp ?c, c_r12 ?c, c_r13 ?c, c_r14 ?c, c_r15 ?c]"
  obtain m sp where p: "push_words (k_mem s) ?rsp ?ws = (m, sp)" by fastforce
  note spec = push_words_spec [OF p]
  have sp: "sp = ?rsp - 48" and old: "\<And>a. 48 \<le> a - sp \<Longrightarrow> m a = k_mem s a" using spec by simp_all
  have ld: "load64 m (?rsp - of_nat (8 * i + 8)) = ?ws ! i" if "i < 6" for i using spec that by simp
  have "load64 m ?rsp = load64 (k_mem s) ?rsp"
  proof (rule load64_cong)
    fix i :: nat assume i: "i < 8"
    have "?rsp + of_nat i - sp = of_nat (48 + i)" using sp by simp
    moreover have "(48 :: u64) \<le> of_nat (48 + i)" using i
      by (simp add: word_le_nat_alt unat_of_nat_small del: of_nat_add)
    ultimately have "48 \<le> ?rsp + of_nat i - sp" by (simp only:)
    then show "m (?rsp + of_nat i) = k_mem s (?rsp + of_nat i)" by (rule old)
  qed
  moreover have "k_mem s' = m" "procs s' prv = (procs s prv)\<lparr>p_rsp := sp\<rparr>"
    using p by (simp_all add: s'_def switch_to_task_def set_mem_def Let_def split_beta del: push_words.simps)
  ultimately show "p_rsp (procs s' prv) = ?rsp - 48"
    "saved_context (k_mem s') (?rsp - 48) (?c\<lparr>c_rip := ra, c_rsp := ?rsp + 8\<rparr>)"
    "48 \<le> a - (?rsp - 48) \<Longrightarrow> k_mem s' a = k_mem s a"
    using ld [of 0] ld [of 1] ld [of 2] ld [of 3] ld [of 4] ld [of 5] sp old assms(1)
    by (simp_all add: saved_context_def)
qed

section \<open>Scheduling\<close>

lemma sched_rep_cong:
  assumes "sched_rep s qs"
    and "\<And>q. q \<in> in_queues qs \<Longrightarrow> next_ready s' q = next_ready s q \<and>
      p_state (procs s' q) = p_state (procs s q) \<and> p_vruntime (procs s' q) = p_vruntime (procs s q)"
    and "mlfq_queues s' = mlfq_queues s" and "mlfq_tails s' = mlfq_tails s" and "cfs_queue s' = cfs_queue s"
  shows "sched_rep s' qs"
proof -
  have q: "next_ready s' q = next_ready s q \<and> p_state (procs s' q) = READY \<and> p_vruntime (procs s' q) = p_vruntime (procs s q)"
    if "i < 5" "q \<in> set (qs i)" for i q
    using assms(2) [OF in_queuesI [where qs = qs, OF that]] sched_rep_ready [OF assms(1) that] by simp
  have "sched_rep s' (qs(4 := qs 4))"
  proof (rule sched_rep_change [OF assms(1)])
    show "next_ready s' q = next_ready s q \<and> p_state (procs s' q) = READY \<and>
        p_vruntime (procs s' q) = p_vruntime (procs s q) \<and> q \<notin> set (qs 4)"
      if "i < 5" "i \<noteq> 4" "q \<in> set (qs i)" for i q
      using q [OF that(1,3)] sched_rep_disjoint [OF assms(1) that(1) _ that(2,3)] by simp
    have "chain (next_ready s') (cfs_queue s') (qs 4)"
      using sched_rep_chain [OF assms(1)] assms(5) q [of 4] by (subst chain_cong [where nxt = "next_ready s"]) auto
    moreover have "sorted_wrt (\<lambda>p q. p_vruntime (procs s p) \<le> p_vruntime (procs s q)) (qs 4)"
      using assms(1) by (simp add: sched_rep_def)
    then have "sorted_wrt (\<lambda>p q. p_vruntime (procs s' p) \<le> p_vruntime (procs s' q)) (qs 4)"
      by (rule sorted_wrt_mono_rel [rotated]) (use q [of 4] in auto)
    ultimately show "chain (next_ready s') (cfs_queue s') (qs 4) \<and>
        sorted_wrt (\<lambda>p q. p_vruntime (procs s' p) \<le> p_vruntime (procs s' q)) (qs 4)" by blast
  qed (use assms q [of 4] in simp_all)
  then show ?thesis by simp
qed

lemma sched_rep_outside: "sched_rep s qs \<Longrightarrow> p \<notin> in_queues qs \<Longrightarrow> sched_rep (upd_proc p f s) qs"
  by (rule sched_rep_cong) auto

lemma same_more:
  fixes s s' :: "'a kernel_scheme"
  assumes "sched.more s' = sched.more s"
  shows "kernel.more s' = kernel.more s" "current_process s' = current_process s" "process_list s' = process_list s"
    "sleep_queue s' = sleep_queue s" "next_pid s' = next_pid s" "global_ticks s' = global_ticks s" "k_heap s' = k_heap s"
    "k_vm s' = k_vm s" "k_cpu s' = k_cpu s" "k_hr s' = k_hr s" "beyond_quantums s' = beyond_quantums s"
    "k_rflags s' = k_rflags s"
  using assms by (cases s rule: kernel.cases_scheme; cases s' rule: kernel.cases_scheme; simp)+

definition saved_sp :: "'a kernel_scheme \<Rightarrow> u64" where
  "saved_sp s = snd (push_words (k_mem s) (c_rsp (k_cpu s))
     [c_rbx (k_cpu s), c_rbp (k_cpu s), c_r12 (k_cpu s), c_r13 (k_cpu s), c_r14 (k_cpu s), c_r15 (k_cpu s)])"

lemma switch_procs:
  "procs (switch_to_task prv nxt s) = (procs s)(prv := (procs s prv)\<lparr>p_rsp := saved_sp s\<rparr>)"
  "mlfq_queues (switch_to_task prv nxt s) = mlfq_queues s" "mlfq_tails (switch_to_task prv nxt s) = mlfq_tails s"
  "cfs_queue (switch_to_task prv nxt s) = cfs_queue s" "current_process (switch_to_task prv nxt s) = current_process s"
  "process_list (switch_to_task prv nxt s) = process_list s" "sleep_queue (switch_to_task prv nxt s) = sleep_queue s"
  by (simp_all add: switch_to_task_def set_mem_def saved_sp_def Let_def split_beta del: push_words.simps)

lemma switch_more: "kernel.more (switch_to_task prv nxt s) = kernel.more s"
  by (simp add: switch_to_task_def set_mem_def upd_proc_def Let_def split_beta del: push_words.simps)

lemma end_of_turn_simps [simp]:
  "p_state (end_of_turn s x) = READY" "p_next_ready (end_of_turn s x) = p_next_ready x"
  "p_vruntime (end_of_turn s x) = p_vruntime x" "p_sched_class (end_of_turn s x) = p_sched_class x"
  by (simp_all add: end_of_turn_def Let_def)

text \<open>A process without the fields that scheduling changes: its links, and where its stack was left.\<close>

definition settled :: "process \<Rightarrow> process" where
  "settled x = x\<lparr>p_next_ready := 0, p_rsp := 0\<rparr>"

lemma settled_unlinked: "unlinked x = unlinked y \<Longrightarrow> settled x = settled y"
proof -
  have "settled z = (unlinked z)\<lparr>p_rsp := 0\<rparr>" for z by (simp add: settled_def unlinked_def)
  then show "unlinked x = unlinked y \<Longrightarrow> settled x = settled y" by simp
qed

lemma unlinked_kernel_stack: "unlinked x = unlinked y \<Longrightarrow> p_kernel_stack x = p_kernel_stack y"
proof -
  assume "unlinked x = unlinked y"
  then have "p_kernel_stack (unlinked x) = p_kernel_stack (unlinked y)" by (rule arg_cong)
  then show ?thesis by (simp add: unlinked_def)
qed

text \<open>
  The lists after the running process, if it still runs, has been queued again; a process that blocks, sleeps or
  ends is not.
\<close>

definition requeued :: "'a kernel_scheme \<Rightarrow> (nat \<Rightarrow> u64 list) \<Rightarrow> nat \<Rightarrow> u64 list" where
  "requeued s qs =
     (if p_state (current s) = RUNNING
      then list_enqueue (end_of_turn s (current s)) (\<lambda>q. p_vruntime (procs s q)) (current_process s) qs else qs)"

lemma process_schedule_requeue:
  assumes rep: "sched_rep s qs" and cur: "current_process s \<noteq> 0" "current_process s \<notin> in_queues qs"
  shows "\<exists>s1. (if p_state (current s) = RUNNING
      then enqueue_process (current_process s) (upd_current (end_of_turn s) s) else Some s) = Some s1 \<and>
    sched_rep s1 (requeued s qs) \<and> kernel.more s1 = kernel.more s \<and> current_process s1 = current_process s \<and>
    (\<forall>q. q \<noteq> current_process s \<longrightarrow> unlinked (procs s1 q) = unlinked (procs s q))"
proof (cases "p_state (current s) = RUNNING")
  case True
  let ?c = "current_process s" and ?s0 = "upd_current (end_of_turn s) s"
  have r0: "sched_rep ?s0 qs" by (rule sched_rep_outside [OF rep cur(2)])
  have vr: "(\<lambda>q. p_vruntime (procs ?s0 q)) = (\<lambda>q. p_vruntime (procs s q))" by auto
  obtain s1 where s1: "enqueue_process ?c ?s0 = Some s1"
    "sched_rep s1 (list_enqueue (end_of_turn s (current s)) (\<lambda>q. p_vruntime (procs s q)) ?c qs)"
    "\<forall>q. unlinked (procs s1 q) = unlinked (procs ?s0 q)" "sched.more s1 = sched.more ?s0"
    using enqueue_process_rep [OF r0 cur] unfolding vr by auto
  have "sched.more s1 = sched.more s" using s1(4) by (simp add: upd_proc_def)
  with s1 True same_more [of s1 s] show ?thesis by (auto simp: requeued_def)
qed (use rep in \<open>simp add: requeued_def\<close>)

lemma settled_upd [simp]: "settled (x\<lparr>p_rsp := v\<rparr>) = settled x"
  by (simp add: settled_def)

lemma settled_running: "settled (x\<lparr>p_state := v\<rparr>) = (settled x)\<lparr>p_state := v\<rparr>"
  by (simp add: settled_def)

lemma process_schedule_rep:
  assumes rep: "sched_rep s qs" and cur: "current_process s \<noteq> 0" "current_process s \<notin> in_queues qs"
    and lp: "list_pick (requeued s qs) = (qs', nxt)"
  shows "\<exists>s'. process_schedule s = Some s' \<and> sched_rep s' qs' \<and>
    current_process s' = (if nxt = 0 then current_process s else nxt) \<and>
    (nxt \<noteq> 0 \<longrightarrow> p_state (procs s' nxt) = RUNNING) \<and>
    (nxt \<noteq> 0 \<longrightarrow> nxt \<noteq> current_process s \<longrightarrow> tss_rsp0 s' = p_kernel_stack (procs s nxt)) \<and>
    (\<forall>q. q \<noteq> current_process s \<longrightarrow> nxt = 0 \<or> q \<noteq> nxt \<longrightarrow> settled (procs s' q) = settled (procs s q)) \<and>
    kernel.more s' = kernel.more s \<and>
    (p_state (current s) \<noteq> RUNNING \<longrightarrow> p_state (current s) \<noteq> READY \<longrightarrow> settled (procs s' (current_process s)) = settled (current s)) \<and>
    (nxt \<noteq> 0 \<longrightarrow> nxt \<noteq> current_process s \<longrightarrow> settled (procs s' nxt) = settled ((procs s nxt)\<lparr>p_state := RUNNING\<rparr>))"
proof -
  let ?c = "current_process s"
  obtain s1 where s1: "(if p_state (current s) = RUNNING
      then enqueue_process ?c (upd_current (end_of_turn s) s) else Some s) = Some s1"
    "sched_rep s1 (requeued s qs)" "current_process s1 = ?c"
    "\<And>q. q \<noteq> ?c \<Longrightarrow> unlinked (procs s1 q) = unlinked (procs s q)" "kernel.more s1 = kernel.more s"
    using process_schedule_requeue [OF rep cur] by blast
  obtain s2 where s2: "pick_next_task s1 = (s2, nxt)" "sched_rep s2 qs'"
    "\<And>q. unlinked (procs s2 q) = unlinked (procs s1 q)" "sched.more s2 = sched.more s1"
    using pick_next_task_rep [OF s1(2) lp] by blast
  have out: "sched_rep s1 (requeued s qs) \<Longrightarrow> nxt \<noteq> 0 \<Longrightarrow> nxt \<notin> in_queues qs'"
    using in_queues_pick [OF s1(2) lp] by auto
  have same: "unlinked (procs s2 q) = unlinked (procs s q)" if "q \<noteq> ?c" for q using s1(4) s2(3) that by simp
  have c2: "current_process s2 = ?c" using same_more(2) [OF s2(4)] s1(3) by simp
  have m2: "kernel.more s2 = kernel.more s" using same_more(1) [OF s2(4)] s1(5) by simp
  have blocked: "unlinked (procs s2 ?c) = unlinked (current s)" if "p_state (current s) \<noteq> RUNNING"
    using s1(1) s2(3) that by simp
  have pst: "p_state (unlinked x) = p_state x" for x by (simp add: unlinked_def)
  have stay: "p_state (procs s2 ?c) = p_state (current s)" if "p_state (current s) \<noteq> RUNNING"
    using arg_cong [OF blocked [OF that], of p_state] by (simp add: pst)
  have ps: "process_schedule s = (if nxt = 0 then
        (if p_state (procs s2 ?c) = READY then Some (upd_proc ?c (\<lambda>x. x\<lparr>p_state := RUNNING\<rparr>) s2) else Some (sti s2))
      else if nxt \<noteq> ?c then
        (let s3 = upd_proc nxt (\<lambda>x. x\<lparr>p_state := RUNNING\<rparr>) (s2\<lparr>current_process := nxt\<rparr>)
         in Some (switch_to_task ?c nxt (tss_set_stack (p_kernel_stack (procs s3 nxt)) s3)))
      else Some (upd_proc ?c (\<lambda>x. x\<lparr>p_state := RUNNING\<rparr>) s2))"
    unfolding process_schedule_def Let_def s1(1) using cur(1) s2(1) by simp
  consider "nxt = 0" | "nxt = ?c" "nxt \<noteq> 0" | "nxt \<noteq> ?c" "nxt \<noteq> 0" by blast
  then show ?thesis
  proof cases
    case 1
    have "?c \<notin> in_queues qs'"
      using in_queues_pick [OF s1(2) lp] 1 by auto
    then have rep': "sched_rep (upd_proc ?c (\<lambda>x. x\<lparr>p_state := RUNNING\<rparr>) s2) qs'" by (rule sched_rep_outside [OF s2(2)])
    show ?thesis
    proof (cases "p_state (procs s2 ?c) = READY")
      case True
      then show ?thesis using 1 ps c2 rep' settled_unlinked [OF same] m2 stay by auto
    next
      case False
      have "sched_rep (sti s2) qs'" by (rule sched_rep_cong [OF s2(2)]) (simp_all add: sti_def)
      then show ?thesis using 1 False ps c2 settled_unlinked [OF same] m2 settled_unlinked [OF blocked] by (simp add: sti_def)
    qed
  next
    case 2
    then have "process_schedule s = Some (upd_proc ?c (\<lambda>x. x\<lparr>p_state := RUNNING\<rparr>) s2)" using ps by simp
    moreover have "sched_rep (upd_proc ?c (\<lambda>x. x\<lparr>p_state := RUNNING\<rparr>) s2) qs'"
      using out [OF s1(2)] 2 by (intro sched_rep_outside [OF s2(2)]) simp
    moreover have "p_state (current s) = RUNNING"
      using in_queues_pick [OF s1(2) lp] 2 cur(2) by (auto simp: requeued_def split: if_splits)
    ultimately show ?thesis using 2 c2 settled_unlinked [OF same] m2 by simp
  next
    case 3
    define s3 where "s3 = upd_proc nxt (\<lambda>x. x\<lparr>p_state := RUNNING\<rparr>) (s2\<lparr>current_process := nxt\<rparr>)"
    define s4 where "s4 = tss_set_stack (p_kernel_stack (procs s3 nxt)) s3"
    have e: "process_schedule s = Some (switch_to_task ?c nxt s4)" using ps 3 by (simp add: s4_def s3_def Let_def)
    have "sched_rep (s2\<lparr>current_process := nxt\<rparr>) qs'" by (rule sched_rep_cong [OF s2(2)]) simp_all
    then have "sched_rep s3 qs'" unfolding s3_def using out [OF s1(2) 3(2)] by (rule sched_rep_outside)
    then have "sched_rep s4 qs'" by (rule sched_rep_cong) (simp_all add: s4_def tss_set_stack_def)
    then have "sched_rep (switch_to_task ?c nxt s4) qs'"
      by (rule sched_rep_cong) (simp_all add: switch_procs)
    moreover have p4: "procs s4 = (procs s2)(nxt := (procs s2 nxt)\<lparr>p_state := RUNNING\<rparr>)"
      by (simp add: s4_def s3_def tss_set_stack_def)
    moreover have "p_kernel_stack (procs s2 nxt) = p_kernel_stack (procs s nxt)"
      by (rule unlinked_kernel_stack [OF same [OF 3(1)]])
    then have "tss_rsp0 (switch_to_task ?c nxt s4) = p_kernel_stack (procs s nxt)"
      by (simp add: switch_to_task_def set_mem_def Let_def split_beta s4_def s3_def tss_set_stack_def del: push_words.simps)
    moreover have "settled (procs (switch_to_task ?c nxt s4) q) = settled (procs s q)" if "q \<noteq> ?c" "q \<noteq> nxt" for q
      using that settled_unlinked [OF same [OF that(1)]] by (simp add: switch_procs p4)
    moreover have "p_state (procs (switch_to_task ?c nxt s4) nxt) = RUNNING" using 3 by (simp add: switch_procs p4)
    moreover have "current_process (switch_to_task ?c nxt s4) = nxt" by (simp add: switch_procs s4_def s3_def tss_set_stack_def)
    moreover have "kernel.more (switch_to_task ?c nxt s4) = kernel.more s"
      using m2 by (simp add: switch_more s4_def s3_def tss_set_stack_def)
    moreover have "settled (procs (switch_to_task ?c nxt s4) ?c) = settled (current s)" if "p_state (current s) \<noteq> RUNNING"
      using 3 settled_unlinked [OF blocked [OF that]] by (simp add: switch_procs p4)
    moreover have "settled (procs (switch_to_task ?c nxt s4) nxt) = settled ((procs s nxt)\<lparr>p_state := RUNNING\<rparr>)"
      using 3 settled_unlinked [OF same [OF 3(1)]] by (simp add: switch_procs p4 settled_running)
    ultimately show ?thesis using 3 e by simp
  qed
qed

section \<open>Properties\<close>

text \<open>
  C33. Scheduling loses no process. When the current process is not itself queued, \<open>process_schedule\<close> returns; the
  process that runs afterwards is the one at the head of the first non-empty list, after the current one has
  been queued again if it was running; the ready lists stay well-formed and contain exactly the other ready
  processes; only the links and saved stack pointer of any other process may change.
\<close>
theorem process_schedule_keeps_tasks:
  fixes s :: "'a kernel_scheme"
  assumes "sched_rep s qs" and "current_process s \<noteq> 0" and "current_process s \<notin> in_queues qs"
    and "p_sched_class (current s) \<noteq> No_class"
  shows "\<exists>s' qs'. process_schedule s = Some s' \<and> sched_rep s' qs' \<and>
    (let ready = in_queues qs \<union> (if p_state (current s) = RUNNING then {current_process s} else {})
     in if ready = {} then current_process s' = current_process s \<and> in_queues qs' = {}
        else current_process s' = snd (list_pick (requeued s qs)) \<and> current_process s' \<in> ready \<and>
          p_state (current s') = RUNNING \<and> in_queues qs' = ready - {current_process s'}) \<and>
    (\<forall>q. q \<noteq> current_process s \<longrightarrow> q \<noteq> current_process s' \<longrightarrow> settled (procs s' q) = settled (procs s q))"
proof -
  let ?ready = "in_queues qs \<union> (if p_state (current s) = RUNNING then {current_process s} else {})"
  obtain qs' nxt where lp: "list_pick (requeued s qs) = (qs', nxt)" by fastforce
  obtain s1 :: "'a kernel_scheme" where s1: "sched_rep s1 (requeued s qs)" using process_schedule_requeue [OF assms(1-3)] by blast
  have rq: "in_queues (requeued s qs) = ?ready" using assms(4) by (simp add: requeued_def in_queues_enqueue)
  note pick = in_queues_pick [OF s1 lp, unfolded rq]
  obtain s' where s': "process_schedule s = Some s'" "sched_rep s' qs'"
    "current_process s' = (if nxt = 0 then current_process s else nxt)" "nxt \<noteq> 0 \<longrightarrow> p_state (procs s' nxt) = RUNNING"
    "\<And>q. q \<noteq> current_process s \<Longrightarrow> nxt = 0 \<or> q \<noteq> nxt \<Longrightarrow> settled (procs s' q) = settled (procs s q)"
    using process_schedule_rep [OF assms(1-3) lp] by blast
  have "settled (procs s' q) = settled (procs s q)" if "q \<noteq> current_process s" "q \<noteq> current_process s'" for q
    using s'(3) s'(5) [OF that(1)] that(2) by (simp split: if_splits)
  then show ?thesis using s' pick lp rq by (intro exI [of _ s'] exI [of _ qs']) (auto simp: Let_def split: if_splits)
qed

text \<open>
  C34. A process continues where it was interrupted. Let process A call \<open>switch_to_task\<close> and lose the processor, and
  let any process later call it to switch back to A. If the saved stack pointer of A and the 56 bytes above it are
  unchanged, then A returns from its own call with its callee-saved registers and its stack as they were.
\<close>
theorem context_switch_roundtrip:
  assumes "load64 (k_mem s) (c_rsp (k_cpu s)) = ra"
    and "p_rsp (procs s1 a) = p_rsp (procs (switch_to_task a b s) a)"
    and "\<And>i. i < 56 \<Longrightarrow> k_mem (switch_to_task c a s1) (c_rsp (k_cpu s) - 48 + of_nat i) =
      k_mem (switch_to_task a b s) (c_rsp (k_cpu s) - 48 + of_nat i)"
    and "a \<noteq> c"
  shows "k_cpu (switch_to_task c a s1) =
    (k_cpu s)\<lparr>c_rip := ra, c_rsp := c_rsp (k_cpu s) + 8, c_rdi := c_rdi (k_cpu s1)\<rparr>"
proof -
  note sv = switch_saves [OF assms(1), of a b]
  have "k_cpu (switch_to_task c a s1) =
      ((k_cpu s)\<lparr>c_rip := ra, c_rsp := c_rsp (k_cpu s) + 8\<rparr>)\<lparr>c_rdi := c_rdi (k_cpu s1)\<rparr>"
    by (rule switch_loads [OF sv(2) _ assms(4)]) (use assms(2,3) sv(1) in simp_all)
  then show ?thesis by simp
qed

section \<open>Witnesses\<close>

definition demo_cpu :: cpu where
  "demo_cpu = \<lparr>c_rbx = 1, c_rbp = 2, c_r12 = 3, c_r13 = 4, c_r14 = 5, c_r15 = 6, c_rdi = 0, c_rsp = 0x8000, c_rip = 0\<rparr>"

definition demo_kheap :: heap where
  "demo_kheap = heap_init_list 0x1000000 0x10000 demo_heap"

lemma demo_kheap_ok: "heap_ok demo_kheap" "heap_live demo_kheap = {}"
proof -
  have r: "heap_rep demo_kheap 0x1000000 [(0xFFD8, True)]"
    using heap_init_rep [of "0x1000000" "0x10000" demo_heap] by (simp add: demo_kheap_def)
  then show "heap_ok demo_kheap" "heap_live demo_kheap = {}"
    using heap_blocks_rep [OF r] by (auto simp: heap_ok_def heap_live_def)
qed

text \<open>A running process at \<open>0x300\<close>, and the ready processes of \<open>demo_sched\<close>.\<close>

definition demo_kernel :: kernel where
  "demo_kernel = \<lparr>procs = (procs demo_sched)(0x300 := zero_process\<lparr>p_state := RUNNING, p_sched_class := Mlfq_class\<rparr>,
       0x100 := (procs demo_sched 0x100)\<lparr>p_rsp := 0x9000\<rparr>),
     mlfq_queues = mlfq_queues demo_sched, mlfq_tails = mlfq_tails demo_sched, cfs_queue = 0,
     current_process = 0x300, process_list = 0x300, sleep_queue = 0, next_pid = 3, global_ticks = 0, k_heap = demo_kheap,
     k_vm = demo_vmm, k_cpu = demo_cpu, k_rflags = 0x202, k_cr3 = 0, tss_rsp0 = 0, k_hr = demo_timers, root_dentry = 0, root_mnt = 0,
     init_nsproxy = 0x600, nsproxy_refs = (\<lambda>_. 1), beyond_quantums = (\<lambda>_. 0),
     sym_kernel_thread_helper = 0x10000, sym_fork_trampoline = 0x10100\<rparr>"

lemma demo_kernel_rep: "sched_rep demo_kernel ((\<lambda>_. [])(2 := [0x100]))"
  by (rule sched_rep_cong [OF demo_sched_rep]) (auto simp: demo_in_queues demo_kernel_def demo_sched_def)

theorem process_schedule_keeps_tasks_witness:
  "\<exists>s' qs'. process_schedule demo_kernel = Some s' \<and> sched_rep s' qs' \<and>
    current_process s' \<in> {0x100, 0x300} \<and> in_queues qs' = {0x100, 0x300} - {current_process s'}"
proof -
  have "current_process demo_kernel = 0x300" "p_state (procs demo_kernel 0x300) = RUNNING"
    "p_sched_class (procs demo_kernel 0x300) \<noteq> No_class"
    by (simp_all add: demo_kernel_def)
  with process_schedule_keeps_tasks [OF demo_kernel_rep] show ?thesis unfolding demo_in_queues
    by (fastforce simp: Let_def)
qed

theorem context_switch_roundtrip_witness:
  "k_cpu (switch_to_task 0x100 0x300 (switch_to_task 0x300 0x100 demo_kernel)) = demo_cpu\<lparr>c_rsp := 0x8008\<rparr>"
proof -
  let ?s = "demo_kernel" and ?s1 = "switch_to_task 0x300 0x100 demo_kernel"
  have cpu: "k_cpu ?s = demo_cpu" "c_rsp demo_cpu = 0x8000" by (simp_all add: demo_kernel_def demo_cpu_def)
  have ra: "load64 (k_mem ?s) (c_rsp (k_cpu ?s)) = 0"
    by (simp add: demo_kernel_def demo_vmm_def load64_def load32_def load16_def)
  have rsp1: "c_rsp (k_cpu ?s1) = 0x9038"
    by (simp add: switch_to_task_def set_mem_def Let_def split_beta demo_kernel_def del: push_words.simps)
  have keep: "k_mem (switch_to_task 0x100 0x300 ?s1) (c_rsp (k_cpu ?s) - 48 + of_nat i) = k_mem ?s1 (c_rsp (k_cpu ?s) - 48 + of_nat i)"
    if "i < 56" for i
  proof (rule switch_saves(3) [OF refl])
    have "c_rsp (k_cpu ?s) - 48 + of_nat i - (c_rsp (k_cpu ?s1) - 48) = of_nat (0xFFFFFFFFFFFFEFC8 + i)"
      by (simp add: cpu rsp1)
    moreover have "(48 :: u64) \<le> of_nat (0xFFFFFFFFFFFFEFC8 + i)" using that
      by (simp add: word_le_nat_alt unat_of_nat_small del: of_nat_add)
    ultimately show "48 \<le> c_rsp (k_cpu ?s) - 48 + of_nat i - (c_rsp (k_cpu ?s1) - 48)" by (simp only:)
  qed
  have rdi: "c_rdi (k_cpu ?s1) = 0"
    by (simp add: switch_to_task_def set_mem_def Let_def split_beta demo_kernel_def demo_cpu_def del: push_words.simps)
  show ?thesis
    using context_switch_roundtrip [OF ra refl keep] unfolding cpu rdi by (simp add: demo_cpu_def)
qed

end
