(* ===== verification/Spinlock.thy ===== *)
theory Spinlock
  imports Kernel
begin

text \<open>
  Spinlocks: \<^verbatim>\<open>kernel/sync/spinlock.c\<close>. A lock is part of the structure that it protects, so the operations take
  and return it beside the state of the kernel, of which they use the interrupt flag and the running process. The
  kernel runs on one processor, and \<open>spinlock_acquire\<close> disables interrupts before it looks at the lock: nobody else
  writes the lock while it spins. The messages on the console are left out.
\<close>

section \<open>Operations\<close>

record spinlock =
  locked :: u32
  sl_rflags :: u64
  owner_pid :: int
  owner_cpu :: u64

definition spinlock_init :: "spinlock \<Rightarrow> spinlock" where
  "spinlock_init lock = lock\<lparr>locked := 0, sl_rflags := 0, owner_pid := - 1, owner_cpu := 0\<rparr>"

text \<open>The inner loop: it polls the lock, and breaks it when the time is over.\<close>

function spin_wait :: "int \<Rightarrow> spinlock \<Rightarrow> int \<times> spinlock" where
  "spin_wait timeout lock =
     (if locked lock = 0 then (timeout, lock)
      else if timeout \<le> 0 then (timeout - 1, lock\<lparr>locked := 0\<rparr>)
      else spin_wait (timeout - 1) lock)"
  by pat_completeness auto
termination by (relation "measure (\<lambda>(t, _). nat t)") auto

declare spin_wait.simps [simp del]

lemma spin_wait_free [simp]: "locked (snd (spin_wait timeout lock)) = 0"
  by (induction timeout lock rule: spin_wait.induct) (subst spin_wait.simps, simp)

lemma spin_wait_rest [simp]: "(snd (spin_wait timeout lock))\<lparr>locked := v\<rparr> = lock\<lparr>locked := v\<rparr>"
  by (induction timeout lock rule: spin_wait.induct) (subst spin_wait.simps, simp)

text \<open>The outer loop: an atomic exchange with 1, until the old value is 0.\<close>

function spin :: "int \<Rightarrow> spinlock \<Rightarrow> spinlock" where
  "spin timeout lock =
     (if locked lock = 0 then lock\<lparr>locked := 1\<rparr>
      else (let (timeout', lock') = spin_wait timeout (lock\<lparr>locked := 1\<rparr>) in spin timeout' lock'))"
  by pat_completeness auto
termination
proof (relation "measure (\<lambda>(_, lock). unat (locked lock))")
  fix timeout timeout' :: int and lock lock' :: spinlock and x :: "int \<times> spinlock"
  assume l: "locked lock \<noteq> 0" and "x = spin_wait timeout (lock\<lparr>locked := 1\<rparr>)" "(timeout', lock') = x"
  then have "locked lock' = 0" using spin_wait_free by (metis snd_conv)
  then show "((timeout', lock'), timeout, lock) \<in> measure (\<lambda>(_, lock). unat (locked lock))"
    using l by (simp only: in_measure case_prod_conv) (simp add: unat_gt_0)
qed simp

declare spin.simps [simp del]

definition spinlock_acquire :: "spinlock \<Rightarrow> 'a kernel_scheme \<Rightarrow> spinlock \<times> 'a kernel_scheme" where
  "spinlock_acquire lock s =
     (let rflags = k_rflags s;
          s1 = cli s;
          current_pid = (if current_process s1 \<noteq> 0 then sint (ucast (p_pid (current s1)) :: u32) else - 2);
          lock1 = (if locked lock \<noteq> 0 \<and> owner_pid lock = current_pid then lock\<lparr>locked := 0\<rparr> else lock);
          lock2 = spin 1000 lock1
      in (lock2\<lparr>sl_rflags := rflags, owner_pid := current_pid\<rparr>, s1))"

definition spinlock_release :: "spinlock \<Rightarrow> 'a kernel_scheme \<Rightarrow> spinlock \<times> 'a kernel_scheme" where
  "spinlock_release lock s =
     (let rflags = sl_rflags lock;
          lock1 = lock\<lparr>owner_pid := - 1, locked := 0\<rparr>
      in (lock1, if rflags AND 0x200 \<noteq> 0 then sti s else s))"

section \<open>Critical regions\<close>

lemma spin_eq: "spin timeout lock = lock\<lparr>locked := 1\<rparr>"
proof (cases "locked lock = 0")
  case True
  then show ?thesis by (subst spin.simps) simp
next
  case False
  obtain t l where w: "spin_wait timeout (lock\<lparr>locked := 1\<rparr>) = (t, l)" by fastforce
  have "locked l = 0" "l\<lparr>locked := 1\<rparr> = lock\<lparr>locked := 1\<rparr>"
    using spin_wait_free [of timeout "lock\<lparr>locked := 1\<rparr>"] spin_wait_rest [of 1 timeout "lock\<lparr>locked := 1\<rparr>"] w by simp_all
  then have "spin t l = lock\<lparr>locked := 1\<rparr>" by (subst spin.simps) simp
  then show ?thesis using False w by (subst spin.simps) simp
qed

definition running_pid :: "'a kernel_scheme \<Rightarrow> int" where
  "running_pid s = (if current_process s \<noteq> 0 then sint (ucast (p_pid (current s)) :: u32) else - 2)"

text \<open>Whatever the state of the lock, even when another process holds it, the caller gets it.\<close>

lemma spinlock_acquire_eq:
  "spinlock_acquire lock s = (\<lparr>locked = 1, sl_rflags = k_rflags s, owner_pid = running_pid s, owner_cpu = owner_cpu lock\<rparr>, cli s)"
  by (cases lock) (simp add: spinlock_acquire_def spin_eq Let_def cli_def running_pid_def)

definition free_lock :: "u64 \<Rightarrow> spinlock \<Rightarrow> spinlock" where
  "free_lock f lock = \<lparr>locked = 0, sl_rflags = f, owner_pid = - 1, owner_cpu = owner_cpu lock\<rparr>"

lemma spinlock_release_eq:
  "spinlock_release \<lparr>locked = v, sl_rflags = f, owner_pid = p, owner_cpu = owner_cpu lock\<rparr> s =
     (free_lock f lock, if f AND 0x200 \<noteq> 0 then sti s else s)"
  by (simp add: spinlock_release_def free_lock_def Let_def)

text \<open>A region that leaves the interrupt flag alone restores it at its end, however regions are nested.\<close>

lemma bit_flag: "bit (0x200 :: u64) n \<longleftrightarrow> n = 9"
proof -
  have "(0x200 :: u64) = 2 ^ 9" by simp
  then show ?thesis by (auto simp only: bit_exp_iff possible_bit_word) simp
qed

lemma flag_mask: "(f :: u64) AND 0x200 \<noteq> 0 \<longleftrightarrow> bit f 9"
proof -
  have "bit (f AND 0x200) n \<longleftrightarrow> bit 0 n" if "\<not> bit f 9" for n
    using that by (cases "n = 9") (simp_all only: bit_and_iff bit_flag bit_0_eq bot_apply bot_bool_def simp_thms)
  then have "f AND 0x200 = 0" if "\<not> bit f 9" using that by (intro bit_word_eqI) blast
  moreover have "bit (f AND 0x200) 9 = bit f 9" by (simp only: bit_and_iff bit_flag simp_thms)
  then have "f AND 0x200 \<noteq> 0" if "bit f 9" using that by (intro notI) (simp only: bit_0_eq bot_apply bot_bool_def simp_thms)
  ultimately show ?thesis by blast
qed

lemma cli_sti_flags: "(if (f :: u64) AND 0x200 \<noteq> 0 then (f AND NOT 0x200) OR 0x200 else f AND NOT 0x200) = f"
  unfolding flag_mask
proof (rule bit_eqI)
  fix n assume "possible_bit TYPE(u64) n"
  then show "bit (if bit f 9 then (f AND NOT 0x200) OR 0x200 else f AND NOT 0x200) n \<longleftrightarrow> bit f n"
    by (cases "bit f 9"; cases "n = 9") (simp_all only: bit_and_iff bit_or_iff bit_not_iff bit_flag if_True if_False simp_thms)
qed

end
