(* ===== verification/Signal.thy ===== *)
theory Signal
  imports Kernel
begin

text \<open>
  Signals, \<^verbatim>\<open>kernel/ipc/signal.c\<close>: sending, handlers, and the frame that is put on the user stack to run a handler and
  that \<open>sys_sigreturn\<close> takes off again. The interrupt frame is 22 words in raw memory, at the offsets of
  \<^verbatim>\<open>struct interrupt_frame\<close>.
\<close>

section \<open>Sending\<close>

definition signal_process :: "u64 \<Rightarrow> int \<Rightarrow> 'a kernel_scheme \<Rightarrow> 'a kernel_scheme option" where
  "signal_process p sig s =
     (let s1 = upd_proc p (\<lambda>x. x\<lparr>p_pending_signals := p_pending_signals x OR push_bit (nat sig) 1\<rparr>) s
      in if p_state (procs s1 p) = BLOCKED then enqueue_process p (upd_proc p (\<lambda>x. x\<lparr>p_state := READY\<rparr>) s1)
         else Some s1)"

partial_function (option) kill_all ::
  "(u64 \<Rightarrow> process \<Rightarrow> bool) \<Rightarrow> int \<Rightarrow> u64 \<Rightarrow> int \<Rightarrow> 'a kernel_scheme \<Rightarrow> ('a kernel_scheme \<times> int) option" where
  "kill_all select sig p count s =
     (if p \<noteq> 0 then
        (if select p (procs s p) \<and> 0 < sig \<and> sig < 32 then
           Option.bind (signal_process p sig s) (\<lambda>s1. kill_all select sig (p_next (procs s1 p)) (count + 1) s1)
         else kill_all select sig (p_next (procs s p)) count s)
      else Some (s, count))"

declare kill_all.simps [code]

definition sys_kill :: "int \<Rightarrow> int \<Rightarrow> 'a kernel_scheme \<Rightarrow> ('a kernel_scheme \<times> int) option" where
  "sys_kill pid sig s =
     (if pid > 0 then
        (case get_process_by_pid pid s of
           None \<Rightarrow> None
         | Some target \<Rightarrow>
             if target = 0 then Some (s, - 1)
             else if 0 < sig \<and> sig < 32 then map_option (\<lambda>s'. (s', 0)) (signal_process target sig s)
             else Some (s, - 1))
      else if pid = - 1 then
        map_option (\<lambda>(s', _). (s', 0))
          (kill_all (\<lambda>p x. p_pid x > 1 \<and> p \<noteq> current_process s) sig (get_process_list_head s) 0 s)
      else
        (let pgid = (if pid = 0 then sint (ucast (p_gid (current s)) :: u32) else - pid)
         in map_option (\<lambda>(s', count). (s', if count > 0 then 0 else - 1))
              (kill_all (\<lambda>p x. p_gid x = word_of_int pgid) sig (get_process_list_head s) 0 s)))"

definition sys_signal :: "int \<Rightarrow> u64 \<Rightarrow> 'a kernel_scheme \<Rightarrow> 'a kernel_scheme \<times> u64" where
  "sys_signal sig handler s =
     (if sig \<le> 0 \<or> sig \<ge> 32 then (s, - 1)
      else (upd_current (\<lambda>x. x\<lparr>p_signal_handler := (p_signal_handler x)(nat sig := handler)\<rparr>) s,
            p_signal_handler (current s) (nat sig)))"

section \<open>Frames\<close>

definition sizeof_interrupt_frame :: u64 where "sizeof_interrupt_frame = 176"
definition sizeof_sigframe :: u64 where "sizeof_sigframe = 184"

definition frame_rdi :: u64 where "frame_rdi = 72"
definition frame_rax :: u64 where "frame_rax = 112"
definition frame_rip :: u64 where "frame_rip = 136"
definition frame_rsp :: u64 where "frame_rsp = 160"

lemmas frame_defs = sizeof_interrupt_frame_def sizeof_sigframe_def frame_rdi_def frame_rax_def frame_rip_def frame_rsp_def

definition sig_stack :: "bytes \<Rightarrow> u64 \<Rightarrow> u64" where
  "sig_stack m frame = (load64 m (frame + frame_rsp) - sizeof_sigframe) AND NOT 0xF"

definition ret_code :: "u64 \<Rightarrow> bytes \<Rightarrow> bytes" where
  "ret_code sf m = m(sf := 0xB8, sf + 1 := 119, sf + 2 := 0, sf + 3 := 0, sf + 4 := 0, sf + 5 := 0xCD, sf + 6 := 0x80)"

definition setup_frame :: "int \<Rightarrow> u64 \<Rightarrow> u64 \<Rightarrow> bytes \<Rightarrow> bytes" where
  "setup_frame sig handler frame m =
     (let rsp = sig_stack m frame;
          m1 = memcpy m (rsp + 8) frame sizeof_interrupt_frame;
          m2 = ret_code rsp m1;
          m3 = store64 m2 (frame + frame_rsp) rsp;
          m4 = store64 m3 (frame + frame_rip) handler;
          m5 = store64 m4 (frame + frame_rdi) (word_of_int sig);
          m6 = store64 m5 (frame + frame_rsp) (load64 m5 (frame + frame_rsp) - 8)
      in store64 m6 (load64 m6 (frame + frame_rsp)) rsp)"

definition sys_sigreturn :: "u64 \<Rightarrow> bytes \<Rightarrow> bytes \<times> u64" where
  "sys_sigreturn frame m =
     (let sf = load64 m (frame + frame_rsp);
          m1 = memcpy m frame (sf + 8) sizeof_interrupt_frame
      in (m1, load64 m1 (frame + frame_rax)))"

section \<open>The frame round trip\<close>

definition apart :: "u64 \<Rightarrow> nat \<Rightarrow> u64 \<Rightarrow> nat \<Rightarrow> bool" where
  "apart a n b k \<longleftrightarrow> (\<forall>i < n. \<forall>j < k. a + of_nat i \<noteq> b + of_nat j)"

lemma apartD: "apart a n b k \<Longrightarrow> i < n \<Longrightarrow> j < k \<Longrightarrow> a + of_nat i \<noteq> b + of_nat j"
  by (simp add: apart_def)

lemma apart_sym: "apart a n b k \<Longrightarrow> apart b k a n"
  by (metis apart_def)

lemma word_less_of_nat: "(x :: u64) < n \<Longrightarrow> \<exists>i. i < unat n \<and> x = of_nat i"
  by (rule exI [of _ "unat x"]) (simp add: word_less_nat_alt)

lemma apart_distance: "apart a (unat n) b k \<Longrightarrow> 0 < k \<Longrightarrow> n \<le> b - a"
proof (rule ccontr)
  assume a: "apart a (unat n) b k" "0 < k" and "\<not> n \<le> b - a"
  then obtain i where "i < unat n" "b - a = of_nat i" using word_less_of_nat [of "b - a" n] by (auto simp: not_le)
  then have "a + of_nat i = b + of_nat 0" by (simp add: diff_eq_eq add.commute)
  with apartD [OF a(1) \<open>i < unat n\<close> a(2)] show False by simp
qed

lemma store64_outside: "(\<And>k. k < 8 \<Longrightarrow> a \<noteq> p + of_nat k) \<Longrightarrow> store64 m p w a = m a"
proof -
  assume out: "\<And>k. k < 8 \<Longrightarrow> a \<noteq> p + of_nat k"
  have "\<not> a - p < 8"
  proof
    assume "a - p < 8"
    then obtain i where "i < 8" "a - p = of_nat i" using word_less_of_nat [of "a - p" 8] by auto
    with out show False by (metis diff_add_cancel add.commute)
  qed
  then show ?thesis by (simp add: store64_def)
qed

lemma region_copy_inside:
  assumes "i < unat n" shows "region_copy m d s n (d + of_nat i) = m (s + of_nat i)"
proof -
  have "unat (of_nat i :: u64) = i" using assms unsigned_less [of n, where 'a = nat] by (intro unat_of_nat_small) simp
  then show ?thesis using assms by (simp add: region_copy_def word_less_nat_alt)
qed

lemma ret_code_outside: "(\<And>k. k < 8 \<Longrightarrow> a \<noteq> sf + of_nat k) \<Longrightarrow> ret_code sf m a = m a"
proof -
  assume out: "\<And>k. k < 8 \<Longrightarrow> a \<noteq> sf + of_nat k"
  from out [of 0] out [of 1] out [of 2] out [of 3] out [of 4] out [of 5] out [of 6] show ?thesis
    by (simp add: ret_code_def)
qed

lemma load64_eqI: "(\<And>i. i < 8 \<Longrightarrow> m (a + of_nat i) = m' (b + of_nat i)) \<Longrightarrow> load64 m a = load64 m' b"
  by (rule byte_eqI) (simp add: byte_of_load64)

lemma apart_shift: "apart a n b k \<Longrightarrow> j + k' \<le> k \<Longrightarrow> apart a n (b + of_nat j) k'"
proof -
  assume a: "apart a n b k" and j: "j + k' \<le> k"
  have "a + of_nat i \<noteq> b + of_nat j + of_nat l" if "i < n" "l < k'" for i l
    using apartD [OF a that(1), of "j + l"] j that(2) by (simp add: add.assoc)
  then show ?thesis by (simp add: apart_def)
qed

lemma apart_shift_left: "apart a n b k \<Longrightarrow> j + n' \<le> n \<Longrightarrow> apart (a + of_nat j) n' b k"
  using apart_shift apart_sym by blast

lemma apart_load: "apart p 8 q 8 \<Longrightarrow> load64 (store64 m p w) q = load64 m q"
  using apart_distance [of p 8 q 8] apart_distance [of q 8 p 8] apart_sym [of p 8 q 8]
  by (intro load64_store64_other) simp_all

lemma near_apart: "j < 192 \<Longrightarrow> k < 192 \<Longrightarrow> j \<noteq> k \<Longrightarrow> (a :: u64) + of_nat j \<noteq> a + of_nat k"
  using unat_of_nat_small [of j, where 'a = 64] unat_of_nat_small [of k, where 'a = 64] by auto

lemma setup_frame_steps:
  fixes handler :: u64 and sig :: int
  assumes sf: "sf = sig_stack m frame" and ap: "apart frame 176 (sf - 8) 192"
  obtains m2 m5 where
    "setup_frame sig handler frame m = store64 (store64 m5 (frame + frame_rsp) (sf - 8)) (sf - 8) sf"
    "m5 = store64 (store64 (store64 m2 (frame + frame_rsp) sf) (frame + frame_rip) handler) (frame + frame_rdi) (word_of_int sig)"
    "\<And>i. i < 176 \<Longrightarrow> m2 (sf + 8 + of_nat i) = m (frame + of_nat i)"
proof -
  have "sf - 8 + of_nat 16 = sf + 8" by simp
  then have "apart frame 176 (sf + 8) 176" using apart_shift [OF ap, of 16 176] by (simp only:)
  then have "sizeof_interrupt_frame \<le> (sf + 8) - frame"
    using apart_distance [of frame 176 "sf + 8" 176] by (simp add: frame_defs)
  then have cp: "memcpy m (sf + 8) frame sizeof_interrupt_frame = region_copy m (sf + 8) frame 176"
    by (subst memcpy_eq) (simp_all add: frame_defs)
  define m2 where "m2 = ret_code sf (region_copy m (sf + 8) frame 176)"
  define m5 where "m5 = store64 (store64 (store64 m2 (frame + frame_rsp) sf) (frame + frame_rip) handler) (frame + frame_rdi) (word_of_int sig)"
  have "load64 m5 (frame + frame_rsp) = sf"
    unfolding m5_def by (subst load64_store64_other, simp add: frame_defs, simp add: frame_defs)+ simp
  then have e: "setup_frame sig handler frame m = store64 (store64 m5 (frame + frame_rsp) (sf - 8)) (sf - 8) sf"
    unfolding setup_frame_def sf [symmetric] Let_def cp m2_def [symmetric] m5_def [symmetric] by simp
  have "m2 (sf + 8 + of_nat i) = m (frame + of_nat i)" if i: "i < 176" for i
  proof -
    have "sf + 8 + of_nat i \<noteq> sf + of_nat k" if "k < 8" for k
      using near_apart [of "8 + i" k sf] i that by (simp add: add.assoc)
    then have "m2 (sf + 8 + of_nat i) = region_copy m (sf + 8) frame 176 (sf + 8 + of_nat i)"
      unfolding m2_def by (rule ret_code_outside)
    then show ?thesis using region_copy_inside [of i 176 m "sf + 8" frame] i by simp
  qed
  from that [OF e m5_def this] show thesis .
qed

lemma setup_frame_spec:
  assumes sf: "sf = sig_stack m frame" and ap: "apart frame 176 (sf - 8) 192"
  shows "i < 176 \<Longrightarrow> setup_frame sig handler frame m (sf + 8 + of_nat i) = m (frame + of_nat i)"
    and "load64 (setup_frame sig handler frame m) (frame + frame_rsp) = sf - 8"
    and "load64 (setup_frame sig handler frame m) (sf - 8) = sf"
    and "load64 (setup_frame sig handler frame m) (frame + frame_rip) = handler"
    and "load64 (setup_frame sig handler frame m) (frame + frame_rdi) = word_of_int sig"
proof -
  obtain m2 m5 where e: "setup_frame sig handler frame m = store64 (store64 m5 (frame + frame_rsp) (sf - 8)) (sf - 8) sf"
    and m5: "m5 = store64 (store64 (store64 m2 (frame + frame_rsp) sf) (frame + frame_rip) handler) (frame + frame_rdi) (word_of_int sig)"
    and m2: "\<And>i. i < 176 \<Longrightarrow> m2 (sf + 8 + of_nat i) = m (frame + of_nat i)"
    by (rule setup_frame_steps [OF sf ap, where sig = sig and handler = handler], rule that)
  have off: "apart (sf - 8) 8 (frame + of_nat j) 8" if "j \<le> 168" for j
  proof -
    have "apart (frame + of_nat j) 8 (sf - 8 + of_nat 0) 8"
      by (rule apart_shift, rule apart_shift_left [OF ap]) (use that in simp_all)
    then show ?thesis using apart_sym by simp
  qed
  show "load64 (setup_frame sig handler frame m) (sf - 8) = sf" unfolding e by simp
  show "load64 (setup_frame sig handler frame m) (frame + frame_rsp) = sf - 8"
    unfolding e using off [of 160] by (subst apart_load) (simp_all add: frame_defs)
  show "load64 (setup_frame sig handler frame m) (frame + frame_rip) = handler"
    unfolding e m5 using off [of 136]
    by (simp add: apart_load frame_defs load64_store64_other)
  show "load64 (setup_frame sig handler frame m) (frame + frame_rdi) = word_of_int sig"
    unfolding e m5 using off [of 72]
    by (simp add: apart_load frame_defs load64_store64_other)
  assume i: "i < 176"
  let ?a = "sf + 8 + of_nat i"
  have a: "?a = sf - 8 + of_nat (16 + i)" by simp
  have f: "?a \<noteq> frame + of_nat j + of_nat k" if "j + 8 \<le> 176" "k < 8" for j k
  proof -
    have "frame + of_nat (j + k) \<noteq> ?a" unfolding a by (rule apartD [OF ap]) (use i that in simp_all)
    then show ?thesis by (auto simp: add.assoc)
  qed
  have o1: "store64 M (sf - 8) w ?a = M ?a" for M w
    by (rule store64_outside) (use near_apart [of "16 + i" _ "sf - 8"] i in \<open>unfold a, simp\<close>)
  have o2: "store64 M (frame + of_nat j) w ?a = M ?a" if "j + 8 \<le> 176" for M w j
    by (rule store64_outside) (rule f [OF that])
  have "setup_frame sig handler frame m ?a = m2 ?a"
    unfolding e m5 using o1 o2 [of 160] o2 [of 136] o2 [of 72] by (simp add: frame_defs)
  then show "setup_frame sig handler frame m ?a = m (frame + of_nat i)" using m2 [OF i] by simp
qed

text \<open>
  C37. A signal handler is invisible to the program it interrupts. \<open>setup_frame\<close> makes the interrupted program continue in
  the handler, with the signal number as its argument and a return address on its stack that leads to the code
  calling \<open>sys_sigreturn\<close>. When the handler returns there, with its stack back at the signal frame and the saved
  words unchanged, \<open>sys_sigreturn\<close> restores all 176 bytes of the interrupt frame, wherever the new frame lies, and returns
  the saved value of \<^verbatim>\<open>rax\<close>. The interrupt frame and the 192 bytes written on the user stack must not overlap.
\<close>
theorem sigreturn_roundtrip:
  assumes "sf = sig_stack m frame" and "apart frame 176 (sf - 8) 192"
    and "\<And>i. i < 176 \<Longrightarrow> m2 (sf + 8 + of_nat i) = setup_frame sig handler frame m (sf + 8 + of_nat i)"
    and "load64 m2 (frame2 + frame_rsp) = sf" and "apart (sf + 8) 176 frame2 176" and "i < 176"
  shows "load64 (setup_frame sig handler frame m) (frame + frame_rip) = handler \<and>
    load64 (setup_frame sig handler frame m) (frame + frame_rdi) = word_of_int sig \<and>
    load64 (setup_frame sig handler frame m) (frame + frame_rsp) = sf - 8 \<and>
    load64 (setup_frame sig handler frame m) (sf - 8) = sf \<and>
    fst (sys_sigreturn frame2 m2) (frame2 + of_nat i) = m (frame + of_nat i) \<and>
    snd (sys_sigreturn frame2 m2) = load64 m (frame + frame_rax)"
proof -
  note spec = setup_frame_spec [OF assms(1,2), where sig = sig and handler = handler]
  have "sizeof_interrupt_frame \<le> frame2 - (sf + 8)"
    using apart_distance [of "sf + 8" 176 frame2 176] assms(5) by (simp add: frame_defs)
  then have cp: "memcpy m2 frame2 (sf + 8) sizeof_interrupt_frame = region_copy m2 frame2 (sf + 8) 176"
    by (subst memcpy_eq) (simp_all add: frame_defs)
  have restored: "region_copy m2 frame2 (sf + 8) 176 (frame2 + of_nat j) = m (frame + of_nat j)" if "j < 176" for j
    using region_copy_inside [of j 176 m2 frame2 "sf + 8"] assms(3) spec(1) that by simp
  have "load64 (region_copy m2 frame2 (sf + 8) 176) (frame2 + frame_rax) = load64 m (frame + frame_rax)"
  proof (rule load64_eqI)
    fix j :: nat assume "j < 8"
    then show "region_copy m2 frame2 (sf + 8) 176 (frame2 + frame_rax + of_nat j) = m (frame + frame_rax + of_nat j)"
      using restored [of "112 + j"] by (simp add: frame_defs add.assoc)
  qed
  then show ?thesis using spec restored [OF assms(6)] by (simp add: sys_sigreturn_def assms(4) cp)
qed

section \<open>Delivery\<close>

lemma get_process_by_pid_found:
  assumes "chain (\<lambda>p. p_next (procs s p)) (process_list s) ps" and "p \<in> set ps" and "p_pid (procs s p) = word_of_int pid"
    and "\<And>q. q \<in> set ps \<Longrightarrow> p_pid (procs s q) = word_of_int pid \<Longrightarrow> q = p"
  shows "get_process_by_pid pid s = Some p" and "p \<noteq> 0"
proof -
  obtain prv r where w: "walk (\<lambda>p. p_pid (procs s p) = word_of_int pid) (\<lambda>p. p_next (procs s p)) 0 (process_list s) = Some (prv, r)"
    using walk_returns [OF assms(1)] by fastforce
  note f = walk_find [OF assms(1) w]
  have "r \<noteq> 0" using f(1) assms(2,3) by blast
  with f(2) assms(4) have "r = p" by auto
  with w show "get_process_by_pid pid s = Some p" by (simp add: get_process_by_pid_def)
  show "p \<noteq> 0" using chain_nonzero [OF assms(1)] assms(2) by auto
qed

lemma get_process_by_pid_none:
  assumes "chain (\<lambda>p. p_next (procs s p)) (process_list s) ps" and "\<And>q. q \<in> set ps \<Longrightarrow> p_pid (procs s q) \<noteq> word_of_int pid"
  shows "get_process_by_pid pid s = Some 0"
proof -
  obtain prv r where w: "walk (\<lambda>p. p_pid (procs s p) = word_of_int pid) (\<lambda>p. p_next (procs s p)) 0 (process_list s) = Some (prv, r)"
    using walk_returns [OF assms(1)] by fastforce
  from walk_find(2) [OF assms(1) w] assms(2) have "r = 0" by fastforce
  with w show ?thesis by (simp add: get_process_by_pid_def)
qed

lemma unlinked_pending: "unlinked x = unlinked y \<Longrightarrow> p_pending_signals x = p_pending_signals y \<and> p_state x = p_state y"
proof -
  assume u: "unlinked x = unlinked y"
  then have "p_pending_signals (unlinked x) = p_pending_signals (unlinked y)" "p_state (unlinked x) = p_state (unlinked y)"
    by (rule arg_cong)+
  then show ?thesis by (simp add: unlinked_def)
qed

text \<open>
  C39. A signal reaches its process and no other. \<open>sys_kill\<close> with a positive process number and a valid signal finds the
  process, marks the signal as pending, and makes the process ready and queues it if it was blocked; every other process is unchanged
  but for its place in a queue. Without such a process it fails and changes nothing.
\<close>
theorem sys_kill_delivers:
  assumes "sched_rep s qs" and "chain (\<lambda>p. p_next (procs s p)) (process_list s) ps"
    and "0 < pid" and "0 < sig" and "sig < 32" and "\<forall>q \<in> in_queues qs. p_state (procs s q) = READY"
  shows "((\<forall>q \<in> set ps. p_pid (procs s q) \<noteq> word_of_int pid) \<longrightarrow> sys_kill pid sig s = Some (s, - 1)) \<and>
    (\<forall>p. p \<in> set ps \<longrightarrow> p_pid (procs s p) = word_of_int pid \<longrightarrow>
      (\<forall>q \<in> set ps. p_pid (procs s q) = word_of_int pid \<longrightarrow> q = p) \<longrightarrow>
      (\<exists>s'. sys_kill pid sig s = Some (s', 0) \<and> bit (p_pending_signals (procs s' p)) (nat sig) \<and>
        p_state (procs s' p) = (if p_state (procs s p) = BLOCKED then READY else p_state (procs s p)) \<and>
        sched_rep s' (if p_state (procs s p) = BLOCKED
          then list_enqueue (procs s p) (\<lambda>q. p_vruntime (procs s q)) p qs else qs) \<and>
        (\<forall>q. q \<noteq> p \<longrightarrow> unlinked (procs s' q) = unlinked (procs s q))))"
proof (intro conjI impI allI)
  assume "\<forall>q \<in> set ps. p_pid (procs s q) \<noteq> word_of_int pid"
  then have "get_process_by_pid pid s = Some 0" using get_process_by_pid_none [OF assms(2)] by blast
  then show "sys_kill pid sig s = Some (s, - 1)" using assms(3) by (simp add: sys_kill_def)
next
  fix p assume p: "p \<in> set ps" "p_pid (procs s p) = word_of_int pid"
    and u: "\<forall>q \<in> set ps. p_pid (procs s q) = word_of_int pid \<longrightarrow> q = p"
  let ?s1 = "upd_proc p (\<lambda>x. x\<lparr>p_pending_signals := p_pending_signals x OR push_bit (nat sig) 1\<rparr>) s"
  have g: "get_process_by_pid pid s = Some p" "p \<noteq> 0" using get_process_by_pid_found [OF assms(2) p] u by blast+
  then have k: "sys_kill pid sig s = map_option (\<lambda>s'. (s', 0)) (signal_process p sig s)"
    using assms(3-5) by (simp add: sys_kill_def)
  have "nat sig < 32" using assms(4,5) by simp
  then have b: "bit (x OR push_bit (nat sig) 1) (nat sig)" for x :: u32 by (simp add: bit_simps)
  have r1: "sched_rep ?s1 qs" by (rule sched_rep_cong [OF assms(1)]) simp_all
  show "\<exists>s'. sys_kill pid sig s = Some (s', 0) \<and> bit (p_pending_signals (procs s' p)) (nat sig) \<and>
      p_state (procs s' p) = (if p_state (procs s p) = BLOCKED then READY else p_state (procs s p)) \<and>
      sched_rep s' (if p_state (procs s p) = BLOCKED
        then list_enqueue (procs s p) (\<lambda>q. p_vruntime (procs s q)) p qs else qs) \<and>
      (\<forall>q. q \<noteq> p \<longrightarrow> unlinked (procs s' q) = unlinked (procs s q))"
  proof (cases "p_state (procs s p) = BLOCKED")
    case True
    let ?s2 = "upd_proc p (\<lambda>x. x\<lparr>p_state := READY\<rparr>) ?s1"
    have out: "p \<notin> in_queues qs" using True assms(6) by auto
    have r2: "sched_rep ?s2 qs" by (rule sched_rep_outside [OF r1 out])
    have vr: "(\<lambda>q. p_vruntime (procs ?s2 q)) = (\<lambda>q. p_vruntime (procs s q))" by auto
    obtain s' where s': "enqueue_process p ?s2 = Some s'"
      "sched_rep s' (list_enqueue (procs ?s2 p) (\<lambda>q. p_vruntime (procs s q)) p qs)"
      "\<And>q. unlinked (procs s' q) = unlinked (procs ?s2 q)"
      using enqueue_process_rep [OF r2 g(2) out] unfolding vr by auto
    have "list_enqueue (procs ?s2 p) vr p qs = list_enqueue (procs s p) vr p qs" for vr
      by (simp add: list_enqueue_def split: sched_class.split)
    with s' True k b unlinked_pending [OF s'(3) [of p]] show ?thesis by (simp add: signal_process_def)
  next
    case False
    with k b r1 show ?thesis by (simp add: signal_process_def)
  qed
qed

section \<open>Witnesses\<close>

lemma apart_below:
  assumes "unat a + n \<le> unat b" and "unat b + k < 2 ^ 64"
  shows "apart a n b k" and "apart b k a n"
proof -
  have "a + of_nat i \<noteq> b + of_nat j" if "i < n" "j < k" for i j
  proof -
    have "unat (of_nat i :: u64) = i" "unat (of_nat j :: u64) = j" using assms that by (intro unat_of_nat_small; simp)+
    then have "unat (a + of_nat i) = unat a + i" "unat (b + of_nat j) = unat b + j"
      using assms that by (subst unat_add_no_wrap; simp)+
    then show ?thesis using assms that by auto
  qed
  then show "apart a n b k" by (simp add: apart_def)
  then show "apart b k a n" by (rule apart_sym)
qed

definition demo_frame :: bytes where
  "demo_frame = store64 (store64 (\<lambda>_. 0) 0x5070 42) 0x50A0 0x9000"

lemma demo_sig_stack: "sig_stack demo_frame 0x5000 = 0x8F40"
  by (simp add: sig_stack_def demo_frame_def frame_defs)

theorem sigreturn_roundtrip_witness:
  "snd (sys_sigreturn 0x6000 (store64 (setup_frame 2 0x400000 0x5000 demo_frame) 0x60A0 0x8F40)) = 42"
proof -
  have ap: "apart 0x5000 176 (0x8F40 - 8) 192" by (rule apart_below) simp_all
  have ap2: "apart (0x8F40 + 8) 176 0x6000 176" by (rule apart_below) simp_all
  have keep: "store64 M 0x60A0 w (0x8F40 + 8 + of_nat i) = M (0x8F40 + 8 + of_nat i)" if "i < 176" for M w i
  proof (rule store64_outside)
    fix k :: nat assume "k < 8"
    have "apart (0x8F40 + 8) 176 0x60A0 8" by (rule apart_below) simp_all
    from apartD [OF this that \<open>k < 8\<close>] show "(0x8F40 + 8 + of_nat i :: u64) \<noteq> 0x60A0 + of_nat k" .
  qed
  have "load64 (store64 M 0x60A0 0x8F40) (0x6000 + frame_rsp) = 0x8F40" for M by (simp add: frame_defs)
  from sigreturn_roundtrip [OF demo_sig_stack [symmetric] ap keep this ap2, of 0 2 "0x400000"]
  have "snd (sys_sigreturn 0x6000 (store64 (setup_frame 2 0x400000 0x5000 demo_frame) 0x60A0 0x8F40)) =
      load64 demo_frame (0x5000 + frame_rax)" by simp
  also have "\<dots> = 42" by (simp add: demo_frame_def frame_defs load64_store64_other)
  finally show ?thesis .
qed

theorem sys_kill_delivers_witness:
  "\<exists>s'. sys_kill 7 9 (demo_kernel\<lparr>procs := (procs demo_kernel)(0x300 := (procs demo_kernel 0x300)\<lparr>p_pid := 7\<rparr>)\<rparr>) = Some (s', 0) \<and>
    bit (p_pending_signals (procs s' 0x300)) 9"
proof -
  let ?s = "demo_kernel\<lparr>procs := (procs demo_kernel)(0x300 := (procs demo_kernel 0x300)\<lparr>p_pid := 7\<rparr>)\<rparr>"
  have "sched_rep ?s ((\<lambda>_. [])(2 := [0x100]))"
    by (rule sched_rep_cong [OF demo_kernel_rep]) (auto simp: demo_in_queues)
  moreover have "chain (\<lambda>p. p_next (procs ?s p)) (process_list ?s) [0x300]"
    by (simp add: demo_kernel_def zero_process_def)
  moreover have "\<forall>q \<in> in_queues ((\<lambda>_. [])(2 := [0x100])). p_state (procs ?s q) = READY"
    by (simp add: demo_in_queues demo_kernel_def demo_sched_def zero_process_def)
  ultimately show ?thesis using sys_kill_delivers [of ?s _ "[0x300]" 7 9] by fastforce
qed

end
