(* ===== verification/Process.thy ===== *)
theory Process
  imports Signal
begin

text \<open>
  Creating processes, sleeping, waiting and the timer tick, of \<^verbatim>\<open>kernel/process/process.c\<close>. A process is a typed
  object at the address that \<open>kmalloc\<close> returns; its kernel stack is a page of raw memory. The memory of the new process is
  cleared before it is filled in, so it is \<open>zero_process\<close> with fields set.
\<close>

section \<open>Creation\<close>

definition sizeof_process :: u64 where "sizeof_process = 1752"

definition MAX_FILES :: nat where "MAX_FILES = 128"

text \<open>The common part: a process of the feedback class, in the directory and name spaces of its creator.\<close>

definition new_process :: "'a kernel_scheme \<Rightarrow> process" where
  "new_process s =
     zero_process\<lparr>p_pid := next_pid s, p_state := READY, p_policy := SCHED_OTHER, p_sched_class := Mlfq_class,
       p_priority := 0, p_base_priority := 0, p_quantum := mlfq_quantums s 0, p_time_slice := mlfq_quantums s 0,
       p_rlimits := (\<lambda>_. \<lparr>rlim_cur = 0, rlim_max = 0\<rparr>)
         (RLIMIT_CPU := \<lparr>rlim_cur = - 1, rlim_max = - 1\<rparr>, RLIMIT_NOFILE := \<lparr>rlim_cur = of_nat MAX_FILES, rlim_max = 0\<rparr>),
       p_name := ''kthread'',
       p_cwd := (if current_process s \<noteq> 0 then p_cwd (current s) else root_dentry s),
       p_cwd_mnt := (if current_process s \<noteq> 0 then p_cwd_mnt (current s) else root_mnt s),
       p_nsproxy := (if current_process s \<noteq> 0 then p_nsproxy (current s) else init_nsproxy s)\<rparr>"

definition append_process :: "u64 \<Rightarrow> 'a kernel_scheme \<Rightarrow> ('a kernel_scheme \<times> u64) option" where
  "append_process p s =
     map_option (\<lambda>(curr, _). (upd_proc curr (\<lambda>x. x\<lparr>p_next := p\<rparr>) s, curr))
       (walk (\<lambda>_. False) (\<lambda>q. p_next (procs s q)) 0 (process_list s))"

definition process_create :: "u64 \<Rightarrow> 'a kernel_scheme \<Rightarrow> ('a kernel_scheme \<times> u64) option" where
  "process_create entry_point s =
     (case kmalloc sizeof_process (k_heap s) of
        None \<Rightarrow> None
      | Some (h, p) \<Rightarrow>
          if p = 0 then Some (s\<lparr>k_heap := h\<rparr>, 0)
          else
            (let s1 = upd_proc p (\<lambda>_. new_process s) (s\<lparr>k_heap := h, next_pid := next_pid s + 1\<rparr>);
                 ns = p_nsproxy (procs s1 p);
                 s2 = (if current_process s \<noteq> 0 then s1\<lparr>nsproxy_refs := (nsproxy_refs s1)(ns := nsproxy_refs s1 ns + 1)\<rparr> else s1);
                 (pm', stack_phys) = pmm_alloc_page (pm (k_vm s2));
                 s3 = s2\<lparr>k_vm := (k_vm s2)\<lparr>pm := pm'\<rparr>\<rparr>
             in if stack_phys = 0 then Some (s3, 0)
                else
                  (let stack_top = stack_phys + 4096;
                       (m, sp) = push_words (k_mem s3) stack_top [entry_point, 0, 0, 0, 0, 0, 0];
                       s4 = upd_proc p (\<lambda>x. x\<lparr>p_kernel_stack := stack_top, p_cr3 := p_cr3 (current s), p_rsp := sp\<rparr>) (set_mem m s3)
                   in case append_process p s4 of
                        None \<Rightarrow> None
                      | Some (s5, tail) \<Rightarrow>
                          map_option (\<lambda>s6. (s6, p)) (enqueue_process p (upd_proc p (\<lambda>x. x\<lparr>p_prev := tail\<rparr>) s5)))))"

definition process_create_kthread :: "u64 \<Rightarrow> u64 \<Rightarrow> 'a kernel_scheme \<Rightarrow> ('a kernel_scheme \<times> u64) option" where
  "process_create_kthread entry_point arg s =
     (case kmalloc sizeof_process (k_heap s) of
        None \<Rightarrow> None
      | Some (h, p) \<Rightarrow>
          if p = 0 then Some (s\<lparr>k_heap := h\<rparr>, 0)
          else
            (let s1 = upd_proc p (\<lambda>_. new_process s) (s\<lparr>k_heap := h, next_pid := next_pid s + 1\<rparr>);
                 ns = p_nsproxy (procs s1 p);
                 s2 = (if current_process s \<noteq> 0 \<and> ns \<noteq> 0 then s1\<lparr>nsproxy_refs := (nsproxy_refs s1)(ns := nsproxy_refs s1 ns + 1)\<rparr> else s1);
                 (pm', stack_phys) = pmm_alloc_page (pm (k_vm s2));
                 s3 = s2\<lparr>k_vm := (k_vm s2)\<lparr>pm := pm'\<rparr>\<rparr>
             in if stack_phys = 0 then Some (s3, 0)
                else
                  (let stack_top = stack_phys + 4096;
                       cr3 = (if current_process s \<noteq> 0 then p_cr3 (current s) else 0);
                       cr3' = (if cr3 = 0 then k_cr3 s else cr3);
                       (m, sp) = push_words (k_mem s3) stack_top [sym_kernel_thread_helper s, 0, 0, arg, entry_point, 0, 0];
                       s4 = upd_proc p (\<lambda>x. x\<lparr>p_kernel_stack := stack_top, p_cr3 := cr3', p_rsp := sp\<rparr>) (set_mem m s3)
                   in case append_process p s4 of
                        None \<Rightarrow> None
                      | Some (s5, tail) \<Rightarrow>
                          map_option (\<lambda>s6. (s6, p)) (enqueue_process p (upd_proc p (\<lambda>x. x\<lparr>p_prev := tail\<rparr>) s5)))))"

text \<open>A null name is the argument \<open>None\<close>.\<close>

definition process_create_kernel_thread :: "u64 \<Rightarrow> string option \<Rightarrow> 'a kernel_scheme \<Rightarrow> ('a kernel_scheme \<times> u64) option" where
  "process_create_kernel_thread entry_fn name s =
     map_option (\<lambda>(s', p).
       case name of
         None \<Rightarrow> (s', p)
       | Some nm \<Rightarrow> if p \<noteq> 0 then (upd_proc p (\<lambda>x. x\<lparr>p_name := take 63 nm\<rparr>) s', p) else (s', p))
       (process_create entry_fn s)"

text \<open>The first instructions of a kernel thread.\<close>

definition kernel_thread_helper :: "cpu \<Rightarrow> cpu" where
  "kernel_thread_helper c = c\<lparr>c_rdi := c_r12 c, c_rip := c_r13 c\<rparr>"

definition process_fork :: "'a kernel_scheme \<Rightarrow> ('a kernel_scheme \<times> int) option" where
  "process_fork s =
     (case kmalloc sizeof_process (k_heap s) of
        None \<Rightarrow> None
      | Some (h, child) \<Rightarrow>
          if child = 0 then Some (s\<lparr>k_heap := h\<rparr>, - 1)
          else
            (let s1 = upd_proc child (\<lambda>_. (current s)\<lparr>p_pid := next_pid s, p_parent := current_process s, p_state := READY,
                    p_next := 0, p_next_ready := 0, p_cpu_time := 0, p_time_slice := p_quantum (current s)\<rparr>)
                  (s\<lparr>k_heap := h, next_pid := next_pid s + 1\<rparr>);
                 (pm', stack_phys) = pmm_alloc_page (pm (k_vm s1));
                 s2 = s1\<lparr>k_vm := (k_vm s1)\<lparr>pm := pm'\<rparr>\<rparr>
             in if stack_phys = 0 then Some (s2, - 1)
                else
                  (let stack_top = stack_phys + 4096;
                       parent_frame = p_kernel_stack (current s2) - sizeof_interrupt_frame;
                       child_frame = stack_top - sizeof_interrupt_frame;
                       m1 = for_upto (\<lambda>i m. m(child_frame + i := m (parent_frame + i))) 0 sizeof_interrupt_frame (k_mem s2);
                       m2 = store64 m1 (child_frame + frame_rax) 0;
                       (m3, sp) = push_words m2 child_frame [sym_fork_trampoline s, 0, 0, 0, 0, 0, 0];
                       s3 = upd_proc child (\<lambda>x. x\<lparr>p_kernel_stack := stack_top, p_rsp := sp\<rparr>) (set_mem m3 s2)
                   in case append_process child s3 of
                        None \<Rightarrow> None
                      | Some (s4, _) \<Rightarrow>
                          map_option (\<lambda>s5. (s5, sint (ucast (p_pid (procs s5 child)) :: u32))) (enqueue_process child s4))))"

section \<open>Sleeping and the timer tick\<close>

definition process_sleep :: "int \<Rightarrow> 'a kernel_scheme \<Rightarrow> 'a kernel_scheme option" where
  "process_sleep ticks s =
     (let cur = current_process s;
          s1 = upd_proc cur (\<lambda>x. x\<lparr>p_state := SLEEPING, p_waiting_on := global_ticks s + word_of_int ticks\<rparr>) s
      in case (if sleep_queue s1 = 0 then Some (s1\<lparr>sleep_queue := cur\<rparr>)
               else map_option (\<lambda>(tail, _). upd_proc tail (\<lambda>x. x\<lparr>p_next_ready := cur\<rparr>) s1)
                      (walk (\<lambda>_. False) (next_ready s1) 0 (sleep_queue s1))) of
           None \<Rightarrow> None
         | Some s2 \<Rightarrow> process_schedule (upd_proc cur (\<lambda>x. x\<lparr>p_next_ready := 0\<rparr>) s2))"

partial_function (option) wake_sleepers :: "u64 \<Rightarrow> u64 \<Rightarrow> 'a kernel_scheme \<Rightarrow> 'a kernel_scheme option" where
  "wake_sleepers p prev s =
     (if p \<noteq> 0 then
        (if p_waiting_on (procs s p) \<le> global_ticks s then
           (let nx = next_ready s p;
                s1 = (if prev \<noteq> 0 then upd_proc prev (\<lambda>x. x\<lparr>p_next_ready := nx\<rparr>) s else s\<lparr>sleep_queue := nx\<rparr>);
                s2 = upd_proc p (\<lambda>x. x\<lparr>p_state := READY, p_waiting_on := 0\<rparr>) s1
            in Option.bind (enqueue_process p s2) (\<lambda>s3. wake_sleepers nx prev s3))
         else wake_sleepers (next_ready s p) p s)
      else Some s)"

declare wake_sleepers.simps [code]

text \<open>The accounting for the process that was running; a tick over its limit of processor time sends a signal.\<close>

definition tick_account :: "'a kernel_scheme \<Rightarrow> 'a kernel_scheme option" where
  "tick_account s =
     (let s1 = upd_current (\<lambda>x. x\<lparr>p_cpu_time := p_cpu_time x + 1, p_time_slice := p_time_slice x - 1\<rparr>) s;
          s2 = (if p_policy (current s1) = SCHED_CFS then upd_current (\<lambda>x. x\<lparr>p_vruntime := p_vruntime x + 1\<rparr>) s1 else s1)
      in if check_rlimit (int RLIMIT_CPU) (p_cpu_time (current s2)) s2 \<noteq> 0
         then map_option fst (sys_kill (sint (ucast (p_pid (current s2)) :: u32)) 24 s2) else Some s2)"

definition scheduler_tick ::
  "(u64 \<Rightarrow> u64 \<Rightarrow> hrtimers \<times> 'a kernel_scheme \<Rightarrow> hrtimers \<times> 'a kernel_scheme) \<Rightarrow> u64 \<Rightarrow> 'a kernel_scheme \<Rightarrow> 'a kernel_scheme option" where
  "scheduler_tick call tsc s =
     (case hrtimer_run_queues call tsc (k_hr s, s) of
        None \<Rightarrow> None
      | Some (hr, s0) \<Rightarrow>
          (let s1 = s0\<lparr>k_hr := hr, global_ticks := global_ticks s0 + 1\<rparr>
           in if current_process s1 = 0 then Some s1
              else
                (case tick_account s1 of
                   None \<Rightarrow> None
                 | Some s2 \<Rightarrow>
                     (case wake_sleepers (sleep_queue s2) 0 s2 of
                        None \<Rightarrow> None
                      | Some s3 \<Rightarrow>
                          if p_time_slice (current s3) \<le> 0 \<and> p_policy (current s3) \<noteq> SCHED_FIFO
                          then process_schedule s3 else Some s3))))"

text \<open>
  One round of the loop of \<open>process_wait\<close>: the result if the process is found to have ended or not to exist, otherwise the
  state in which the caller sleeps for a tick.
\<close>

definition process_wait_round :: "int \<Rightarrow> 'a kernel_scheme \<Rightarrow> ('a kernel_scheme \<times> (int \<times> int option) option) option" where
  "process_wait_round pid s =
     (case get_process_by_pid pid s of
        None \<Rightarrow> None
      | Some p \<Rightarrow>
          if p = 0 then Some (s, Some (- 1, None))
          else if p_state (procs s p) = TERMINATED then Some (s, Some (pid, Some (p_exit_code (procs s p))))
          else map_option (\<lambda>s'. (s', None)) (process_sleep 1 s))"

section \<open>New threads\<close>

text \<open>Queueing a process touches nothing but links and its state.\<close>

lemma enqueue_process_more:
  assumes "enqueue_process p s = Some s'"
  shows "sched.more s' = sched.more s" and "p_rsp (procs s' q) = p_rsp (procs s q)"
    and "p_kernel_stack (procs s' q) = p_kernel_stack (procs s q)"
  using assms unfolding enqueue_process_def enqueue_task_mlfq_def enqueue_task_fair_def Let_def
  by (auto split: if_splits sched_class.splits option.splits)

lemma append_process_keeps:
  assumes "append_process p s = Some (s', t)"
  shows "k_vm s' = k_vm s" and "p_rsp (procs s' q) = p_rsp (procs s q)" and "p_kernel_stack (procs s' q) = p_kernel_stack (procs s q)"
  using assms by (auto simp: append_process_def)

lemma process_create_kthread_stack:
  assumes "process_create_kthread entry_point arg s = Some (s', p)" and "p \<noteq> 0"
  obtains m0 where "push_words m0 (p_kernel_stack (procs s' p))
    [sym_kernel_thread_helper s, 0, 0, arg, entry_point, 0, 0] = (k_mem s', p_rsp (procs s' p))"
proof -
  obtain h where k: "kmalloc sizeof_process (k_heap s) = Some (h, p)"
    using assms unfolding process_create_kthread_def by (auto split: option.splits if_splits prod.splits simp: Let_def)
  define s1 where "s1 = upd_proc p (\<lambda>_. new_process s) (s\<lparr>k_heap := h, next_pid := next_pid s + 1\<rparr>)"
  define s2 where "s2 = (if current_process s \<noteq> 0 \<and> p_nsproxy (procs s1 p) \<noteq> 0
    then s1\<lparr>nsproxy_refs := (nsproxy_refs s1)(p_nsproxy (procs s1 p) := nsproxy_refs s1 (p_nsproxy (procs s1 p)) + 1)\<rparr> else s1)"
  obtain pm' phys where a: "pmm_alloc_page (pm (k_vm s2)) = (pm', phys)" by fastforce
  define s3 where "s3 = s2\<lparr>k_vm := (k_vm s2)\<lparr>pm := pm'\<rparr>\<rparr>"
  obtain m sp where w: "push_words (k_mem s3) (phys + 4096) [sym_kernel_thread_helper s, 0, 0, arg, entry_point, 0, 0] = (m, sp)"
    by fastforce
  let ?cr3 = "if current_process s \<noteq> 0 then p_cr3 (current s) else 0"
  define s4 where "s4 = upd_proc p (\<lambda>x. x\<lparr>p_kernel_stack := phys + 4096, p_cr3 := if ?cr3 = 0 then k_cr3 s else ?cr3, p_rsp := sp\<rparr>) (set_mem m s3)"
  have "(if phys = 0 then Some (s3, 0) else case append_process p s4 of None \<Rightarrow> None | Some (s5, tail) \<Rightarrow>
      map_option (\<lambda>s6. (s6, p)) (enqueue_process p (upd_proc p (\<lambda>x. x\<lparr>p_prev := tail\<rparr>) s5))) = Some (s', p)"
    using assms(1) unfolding process_create_kthread_def k option.case prod.case if_not_P [OF assms(2)] Let_def
    unfolding s1_def [symmetric] unfolding s2_def [symmetric] a prod.case unfolding s3_def [symmetric] w prod.case
    unfolding s4_def [symmetric] .
  then obtain s5 tail where "append_process p s4 = Some (s5, tail)"
    "enqueue_process p (upd_proc p (\<lambda>x. x\<lparr>p_prev := tail\<rparr>) s5) = Some s'"
    using assms(2) by (auto split: if_splits option.splits)
  note ap = append_process_keeps [OF this(1)] and en = enqueue_process_more [OF this(2)]
  have "k_mem s' = m" using same_more(8) [OF en(1)] ap(1) by (simp add: s4_def set_mem_def)
  moreover have "p_rsp (procs s' p) = sp" "p_kernel_stack (procs s' p) = phys + 4096"
    using en(2,3) ap(2,3) [of p] by (simp_all add: s4_def)
  ultimately show thesis using that w by metis
qed

text \<open>
  C35. A new kernel thread runs its function. Whoever is switched from, the first switch to a thread that
  \<open>process_create_kthread\<close> made, with its stack as it was made, continues at \<open>kernel_thread_helper\<close> on an empty kernel
  stack, and the helper calls the given function with the given argument.
\<close>
theorem kthread_starts:
  assumes "process_create_kthread entry_point arg s = Some (s', p)" and "p \<noteq> 0" and "p \<noteq> c"
    and "p_rsp (procs s1 p) = p_rsp (procs s' p)"
    and "\<And>i. i < 56 \<Longrightarrow> k_mem (switch_to_task c p s1) (p_rsp (procs s' p) + of_nat i) = k_mem s' (p_rsp (procs s' p) + of_nat i)"
  shows "c_rip (k_cpu (switch_to_task c p s1)) = sym_kernel_thread_helper s \<and>
    c_rsp (k_cpu (switch_to_task c p s1)) = p_kernel_stack (procs s' p) \<and>
    c_rdi (kernel_thread_helper (k_cpu (switch_to_task c p s1))) = arg \<and>
    c_rip (kernel_thread_helper (k_cpu (switch_to_task c p s1))) = entry_point"
proof -
  let ?top = "p_kernel_stack (procs s' p)" and ?sp = "p_rsp (procs s' p)"
  obtain m0 where w: "push_words m0 ?top [sym_kernel_thread_helper s, 0, 0, arg, entry_point, 0, 0] = (k_mem s', ?sp)"
    by (rule process_create_kthread_stack [OF assms(1,2)])
  note spec = push_words_spec [OF w]
  have sp: "?sp = ?top - 56" using spec by simp
  have ld: "load64 (k_mem s') (?top - of_nat (8 * i + 8)) = [sym_kernel_thread_helper s, 0, 0, arg, entry_point, 0, 0] ! i" if "i < 7" for i
    using spec that by simp
  have "saved_context (k_mem s') ?sp \<lparr>c_rbx = 0, c_rbp = 0, c_r12 = arg, c_r13 = entry_point, c_r14 = 0, c_r15 = 0,
      c_rdi = 0, c_rsp = ?top, c_rip = sym_kernel_thread_helper s\<rparr>"
    unfolding saved_context_def sp
    using ld [of 0] ld [of 1] ld [of 2] ld [of 3] ld [of 4] ld [of 5] ld [of 6] by simp
  from switch_loads [OF this assms(4,3,5)] show ?thesis by (simp add: kernel_thread_helper_def)
qed

section \<open>Waking sleepers\<close>

lemma enqueue_process_frame:
  assumes rep: "sched_rep s qs" and e: "enqueue_process p s = Some s'" and q: "q \<noteq> p" "q \<notin> in_queues qs"
  shows "procs s' q = procs s q"
proof (cases "p_state (procs s p) \<noteq> READY \<or> p_sched_class (procs s p) = No_class")
  case True
  then show ?thesis using e by (auto simp: enqueue_process_def split: sched_class.splits)
next
  case False
  then consider "p_sched_class (procs s p) = Mlfq_class" | "p_sched_class (procs s p) = Fair_class"
    by (cases "p_sched_class (procs s p)") auto
  then show ?thesis
  proof cases
    case 1
    let ?l = "mlfq_level (p_priority (procs s p))"
    have l: "?l < 4" by (rule mlfq_level_less)
    note f = sched_rep_fifo [OF rep l]
    have t: "mlfq_tails s ?l \<noteq> q" if "mlfq_queues s ?l \<noteq> 0"
      using fifo_tail(2) [OF f] fifo_last [OF f] that q(2) in_queuesI [of ?l _ qs] l by auto
    have "s' = enqueue_task_mlfq p s" using e 1 False by (simp add: enqueue_process_def)
    then show ?thesis using q(1) t by (auto simp: enqueue_task_mlfq_def Let_def)
  next
    case 2
    let ?s1 = "upd_proc p (\<lambda>x. x\<lparr>p_state := READY\<rparr>) s"
    have c: "chain (next_ready ?s1) (cfs_queue ?s1) (qs 4)"
      using sched_rep_chain [OF rep] by (subst chain_cong [where nxt = "next_ready s"]) auto
    have e': "enqueue_task_fair p s = Some s'" using e 2 False by (simp add: enqueue_process_def)
    obtain prv cur where w: "walk (\<lambda>q. \<not> p_vruntime (procs ?s1 q) \<le> p_vruntime (procs ?s1 p)) (next_ready ?s1) 0 (cfs_queue ?s1) = Some (prv, cur)"
      using walk_returns [OF c] by fastforce
    have "prv = 0 \<or> prv \<in> set (qs 4)"
      using w unfolding walk_chain [OF c] by (auto split: if_splits dest!: last_in_set set_takeWhileD)
    then have "prv = 0 \<or> prv \<noteq> q" using in_queuesI [of 4 prv qs] q(2) by auto
    with e' q(1) show ?thesis unfolding enqueue_task_fair_def Let_def w by (auto split: if_splits)
  qed
qed

lemma unlinked_sched:
  assumes "unlinked x = unlinked y"
  shows "p_sched_class x = p_sched_class y" "p_priority x = p_priority y" "p_vruntime x = p_vruntime y"
    "p_waiting_on x = p_waiting_on y" "p_state x = p_state y"
    "p_time_slice x = p_time_slice y" "p_policy x = p_policy y"
proof -
  have "f (unlinked x) = f (unlinked y)" for f :: "process \<Rightarrow> 'b" using assms by (rule arg_cong)
  note f = this
  show "p_sched_class x = p_sched_class y" using f [of p_sched_class] by (simp add: unlinked_def)
  show "p_priority x = p_priority y" using arg_cong [OF assms, of p_priority] by (simp add: unlinked_def)
  show "p_vruntime x = p_vruntime y" using arg_cong [OF assms, of p_vruntime] by (simp add: unlinked_def)
  show "p_waiting_on x = p_waiting_on y" using arg_cong [OF assms, of p_waiting_on] by (simp add: unlinked_def)
  show "p_state x = p_state y" using arg_cong [OF assms, of p_state] by (simp add: unlinked_def)
  show "p_time_slice x = p_time_slice y" using arg_cong [OF assms, of p_time_slice] by (simp add: unlinked_def)
  show "p_policy x = p_policy y" using arg_cong [OF assms, of p_policy] by (simp add: unlinked_def)
qed

lemma list_enqueue_cong:
  "p_sched_class x = p_sched_class y \<Longrightarrow> p_priority x = p_priority y \<Longrightarrow> p_vruntime x = p_vruntime y \<Longrightarrow>
    list_enqueue x vr p qs = list_enqueue y vr p qs"
  by (simp add: list_enqueue_def split: sched_class.split)

definition due :: "'a kernel_scheme \<Rightarrow> u64 \<Rightarrow> bool" where
  "due s q \<longleftrightarrow> p_waiting_on (procs s q) \<le> global_ticks s"

text \<open>The ready lists after the given processes have been queued one after the other.\<close>

definition enqueue_all :: "'a kernel_scheme \<Rightarrow> u64 list \<Rightarrow> (nat \<Rightarrow> u64 list) \<Rightarrow> nat \<Rightarrow> u64 list" where
  "enqueue_all s ps qs = fold (\<lambda>p. list_enqueue (procs s p) (\<lambda>q. p_vruntime (procs s q)) p) ps qs"

lemma wake_one:
  assumes c: "chain (next_ready s) (sleep_queue s) (as @ p # bs)" and rep: "sched_rep s qs"
    and dis: "set (as @ p # bs) \<inter> in_queues qs = {}"
  defines "s1 \<equiv> (if as \<noteq> [] then upd_proc (last as) (\<lambda>x. x\<lparr>p_next_ready := hd0 bs\<rparr>) s else s\<lparr>sleep_queue := hd0 bs\<rparr>)"
  shows "\<exists>s3. enqueue_process p (upd_proc p (\<lambda>x. x\<lparr>p_state := READY, p_waiting_on := 0\<rparr>) s1) = Some s3 \<and>
    chain (next_ready s3) (sleep_queue s3) (as @ bs) \<and> sched_rep s3 (list_enqueue (procs s p) (\<lambda>q. p_vruntime (procs s q)) p qs) \<and>
    (\<forall>q. unlinked (procs s3 q) = unlinked (if q = p then (procs s p)\<lparr>p_state := READY, p_waiting_on := 0\<rparr> else procs s q)) \<and>
    global_ticks s3 = global_ticks s \<and> current_process s3 = current_process s"
proof -
  define s2 where "s2 = upd_proc p (\<lambda>x. x\<lparr>p_state := READY, p_waiting_on := 0\<rparr>) s1"
  have d: "distinct (as @ p # bs)" by (rule chain_distinct [OF c])
  have p: "p \<noteq> 0" "p \<notin> in_queues qs" using chain_nonzero [OF c] dis by auto
  have nx: "next_ready s p = hd0 bs" by (rule chain_next [OF c])
  have la: "last as \<noteq> p" "last as \<notin> in_queues qs" if "as \<noteq> []"
  proof -
    have l: "last as \<in> set as" using that by simp
    then show "last as \<noteq> p" using d by auto
    from l have "last as \<in> set (as @ p # bs)" unfolding set_append by blast
    then show "last as \<notin> in_queues qs" using dis by blast
  qed
  have pr: "procs s2 q = (if q = p then (procs s p)\<lparr>p_state := READY, p_waiting_on := 0\<rparr>
      else if as \<noteq> [] \<and> q = last as then (procs s q)\<lparr>p_next_ready := hd0 bs\<rparr> else procs s q)" for q
    using la(1) by (simp add: s2_def s1_def)
  have nr: "next_ready s2 = (if as = [] then next_ready s else (next_ready s)(last as := next_ready s p))"
    unfolding pr using la(1) nx by auto
  have c2: "chain (next_ready s2) (sleep_queue s2) (as @ bs)"
    unfolding nr using chain_remove [OF c] nx by (simp add: s2_def s1_def)
  have rep2: "sched_rep s2 qs"
    by (rule sched_rep_cong [OF rep]) (use la p in \<open>auto simp: pr\<close>, auto simp: s2_def s1_def)
  have vr: "(\<lambda>q. p_vruntime (procs s2 q)) = (\<lambda>q. p_vruntime (procs s q))" unfolding pr by auto
  have "p_state (procs s2 p) = READY" by (simp add: pr)
  then obtain s3 where s3: "enqueue_process p s2 = Some s3"
    "sched_rep s3 (list_enqueue (procs s2 p) (\<lambda>q. p_vruntime (procs s q)) p qs)"
    "\<forall>q. unlinked (procs s3 q) = unlinked (procs s2 q)" "sched.more s3 = sched.more s2"
    using enqueue_process_rep [OF rep2 p] unfolding vr by metis
  have keep: "next_ready s3 q = next_ready s2 q" if "q \<in> set (as @ bs)" for q
  proof -
    have "q \<noteq> p" using that d by auto
    moreover have "q \<notin> in_queues qs" using that dis by auto
    ultimately show ?thesis using enqueue_process_frame [OF rep2 s3(1)] by simp
  qed
  have "chain (next_ready s3) (sleep_queue s3) (as @ bs)"
    using c2 keep same_more(4) [OF s3(4)] by (subst chain_cong [where nxt = "next_ready s2"]) auto
  moreover have "list_enqueue (procs s2 p) vr p qs = list_enqueue (procs s p) vr p qs" for vr
    by (rule list_enqueue_cong) (simp_all add: pr)
  moreover have "unlinked (procs s2 q) = unlinked (if q = p then (procs s p)\<lparr>p_state := READY, p_waiting_on := 0\<rparr> else procs s q)" for q
    unfolding pr by (simp add: unlinked_def)
  moreover have "global_ticks s3 = global_ticks s" "current_process s3 = current_process s"
    using same_more [OF s3(4)] by (simp_all add: s2_def s1_def)
  ultimately show ?thesis using s3(1) s3(2,3) unfolding s2_def by (intro exI [of _ s3] conjI allI) (simp_all only:)
qed

lemma wake_sleepers_rep:
  assumes "chain (next_ready s) (sleep_queue s) (as @ bs)" and "sched_rep s qs" and "set (as @ bs) \<inter> in_queues qs = {}"
  shows "\<exists>s'. wake_sleepers (hd0 bs) (last0 as) s = Some s' \<and>
    chain (next_ready s') (sleep_queue s') (as @ filter (\<lambda>q. \<not> due s q) bs) \<and>
    sched_rep s' (enqueue_all s (filter (due s) bs) qs) \<and>
    (\<forall>q. unlinked (procs s' q) = unlinked (if q \<in> set bs \<and> due s q
       then (procs s q)\<lparr>p_state := READY, p_waiting_on := 0\<rparr> else procs s q)) \<and>
    global_ticks s' = global_ticks s \<and> current_process s' = current_process s"
  using assms
proof (induction bs arbitrary: s as qs)
  case Nil
  then show ?case by (simp add: wake_sleepers.simps enqueue_all_def)
next
  case (Cons p bs)
  have d: "distinct (as @ p # bs)" by (rule chain_distinct [OF Cons.prems(1)])
  have p0: "p \<noteq> 0" using chain_nonzero [OF Cons.prems(1)] by auto
  have nx: "next_ready s p = hd0 bs" by (rule chain_next [OF Cons.prems(1)])
  show ?case
  proof (cases "due s p")
    case False
    then have "wake_sleepers p (last0 as) s = wake_sleepers (hd0 bs) (last0 (as @ [p])) s"
      using p0 nx by (subst wake_sleepers.simps) (simp add: due_def)
    moreover have "(q \<in> set (p # bs) \<and> due s q) = (q \<in> set bs \<and> due s q)" for q using False by auto
    moreover have "filter (\<lambda>q. \<not> due s q) (p # bs) = p # filter (\<lambda>q. \<not> due s q) bs" "filter (due s) (p # bs) = filter (due s) bs"
      using False by simp_all
    ultimately show ?thesis
      using Cons.IH [of s "as @ [p]" qs] Cons.prems by (simp only: append_assoc append_Cons append_Nil hd0_simps)
  next
    case True
    let ?s1 = "if as \<noteq> [] then upd_proc (last as) (\<lambda>x. x\<lparr>p_next_ready := hd0 bs\<rparr>) s else s\<lparr>sleep_queue := hd0 bs\<rparr>"
    obtain s3 where s3: "enqueue_process p (upd_proc p (\<lambda>x. x\<lparr>p_state := READY, p_waiting_on := 0\<rparr>) ?s1) = Some s3"
      "chain (next_ready s3) (sleep_queue s3) (as @ bs)"
      "sched_rep s3 (list_enqueue (procs s p) (\<lambda>q. p_vruntime (procs s q)) p qs)"
      "\<And>q. unlinked (procs s3 q) = unlinked (if q = p then (procs s p)\<lparr>p_state := READY, p_waiting_on := 0\<rparr> else procs s q)"
      "global_ticks s3 = global_ticks s" "current_process s3 = current_process s"
      using wake_one [OF Cons.prems] by (elim exE conjE) (rule that, assumption+, erule spec, assumption+)
    have "0 \<notin> set as" using chain_nonzero [OF Cons.prems(1)] by simp
    then have l0: "last0 as \<noteq> 0 \<longleftrightarrow> as \<noteq> []" "as \<noteq> [] \<Longrightarrow> last0 as = last as"
      by (cases as rule: rev_cases; auto simp: last0_def)+
    have step: "wake_sleepers p (last0 as) s = wake_sleepers (hd0 bs) (last0 as) s3"
      using True p0 nx s3(1) l0 by (subst wake_sleepers.simps) (auto simp: due_def Let_def)
    have other: "unlinked (procs s3 q) = unlinked (procs s q)" if "q \<noteq> p" for q using s3(4) [of q] that by simp
    have due3: "due s3 q = due s q" if "q \<in> set bs" for q
    proof -
      have "q \<noteq> p" using that d by auto
      from unlinked_sched(4) [OF other [OF this]] s3(5) show ?thesis by (simp add: due_def)
    qed
    have "p_vruntime (procs s3 q) = p_vruntime (procs s q)" for q
      using unlinked_sched(3) [OF s3(4) [of q]] by (simp split: if_splits)
    then have vr: "(\<lambda>q. p_vruntime (procs s3 q)) = (\<lambda>q. p_vruntime (procs s q))" by simp
    have "enqueue_all s3 (filter (due s3) bs) qs' = enqueue_all s (filter (due s) bs) qs'" for qs'
    proof -
      have "filter (due s3) bs = filter (due s) bs" by (rule filter_cong) (simp_all add: due3)
      moreover have "list_enqueue (procs s3 q) (\<lambda>q. p_vruntime (procs s q)) q = list_enqueue (procs s q) (\<lambda>q. p_vruntime (procs s q)) q"
        if "q \<in> set (filter (due s) bs)" for q
      proof -
        have "q \<noteq> p" using that d by auto
        from unlinked_sched [OF other [OF this]] show ?thesis by (intro ext list_enqueue_cong)
      qed
      ultimately show ?thesis unfolding enqueue_all_def vr by (intro fold_cong) simp_all
    qed
    then have eq: "enqueue_all s3 (filter (due s3) bs) (list_enqueue (procs s p) (\<lambda>q. p_vruntime (procs s q)) p qs) =
        enqueue_all s (filter (due s) (p # bs)) qs" using True by (simp add: enqueue_all_def)
    have fl: "filter (\<lambda>q. \<not> due s3 q) bs = filter (\<lambda>q. \<not> due s q) bs" by (rule filter_cong) (simp_all add: due3)
    have "set (as @ bs) \<inter> in_queues (list_enqueue (procs s p) (\<lambda>q. p_vruntime (procs s q)) p qs) = {}"
      using Cons.prems(3) d by (auto simp: in_queues_enqueue)
    from Cons.IH [OF s3(2,3) this, unfolded eq fl] obtain s' where s': "wake_sleepers (hd0 bs) (last0 as) s3 = Some s'"
      "chain (next_ready s') (sleep_queue s') (as @ filter (\<lambda>q. \<not> due s q) bs)"
      "sched_rep s' (enqueue_all s (filter (due s) (p # bs)) qs)"
      "\<And>q. unlinked (procs s' q) = unlinked (if q \<in> set bs \<and> due s3 q
        then (procs s3 q)\<lparr>p_state := READY, p_waiting_on := 0\<rparr> else procs s3 q)"
      "global_ticks s' = global_ticks s3" "current_process s' = current_process s3"
      by (elim exE conjE) (rule that, assumption+, erule spec, assumption+)
    have "unlinked (procs s' q) = unlinked (if q \<in> set (p # bs) \<and> due s q
        then (procs s q)\<lparr>p_state := READY, p_waiting_on := 0\<rparr> else procs s q)" for q
    proof (cases "q = p")
      case True
      then show ?thesis using s'(4) [of q] s3(4) [of q] d \<open>due s p\<close> by simp
    next
      case False
      have "unlinked (x\<lparr>p_state := READY, p_waiting_on := 0\<rparr>) = (unlinked x)\<lparr>p_state := READY, p_waiting_on := 0\<rparr>" for x
        by (simp add: unlinked_def)
      moreover have "(q \<in> set bs \<and> due s3 q) = (q \<in> set bs \<and> due s q)" using due3 by blast
      ultimately show ?thesis using s'(4) [of q] other [OF False] False by simp
    qed
    moreover have "filter (\<lambda>q. \<not> due s q) (p # bs) = filter (\<lambda>q. \<not> due s q) bs" using True by simp
    ultimately show ?thesis
      unfolding hd0_simps step using s'(1,2,3,5,6) s3(5,6) by (intro exI [of _ s']) simp
  qed
qed

lemma enqueue_all_cong:
  assumes "\<And>q. p_sched_class (procs s' q) = p_sched_class (procs s q) \<and> p_priority (procs s' q) = p_priority (procs s q) \<and>
    p_vruntime (procs s' q) = p_vruntime (procs s q)"
  shows "enqueue_all s' ps qs = enqueue_all s ps qs"
proof -
  have "(\<lambda>q. p_vruntime (procs s' q)) = (\<lambda>q. p_vruntime (procs s q))" using assms by simp
  moreover have "list_enqueue (procs s' p) vr p = list_enqueue (procs s p) vr p" for p vr
    using assms by (intro ext list_enqueue_cong) auto
  ultimately show ?thesis by (simp add: enqueue_all_def)
qed

section \<open>Properties\<close>


section \<open>Witnesses\<close>

definition demo_kthread :: "(kernel \<times> u64) option" where
  "demo_kthread = process_create_kthread 0x20000 0x777 demo_kernel"

lemma demo_kthread: "map_option snd demo_kthread = Some 0x1000028"
  by code_simp

definition demo_threaded :: kernel where
  "demo_threaded = fst (the demo_kthread)"

lemma demo_threaded: "process_create_kthread 0x20000 0x777 demo_kernel = Some (demo_threaded, 0x1000028)"
  using demo_kthread by (auto simp: demo_kthread_def demo_threaded_def)

lemma demo_thread_sp: "p_rsp (procs demo_threaded 0x1000028) = 0x4FC8" "c_rsp (k_cpu demo_threaded) = 0x8000"
  by code_simp+

theorem kthread_starts_witness:
  "c_rdi (kernel_thread_helper (k_cpu (switch_to_task 0x300 0x1000028 demo_threaded))) = 0x777 \<and>
   c_rip (kernel_thread_helper (k_cpu (switch_to_task 0x300 0x1000028 demo_threaded))) = 0x20000"
proof -
  have "k_mem (switch_to_task 0x300 0x1000028 demo_threaded) (p_rsp (procs demo_threaded 0x1000028) + of_nat i) =
      k_mem demo_threaded (p_rsp (procs demo_threaded 0x1000028) + of_nat i)" if "i < 56" for i
  proof (rule switch_saves(3) [OF refl])
    have "p_rsp (procs demo_threaded 0x1000028) + of_nat i - (c_rsp (k_cpu demo_threaded) - 48) = of_nat (0xFFFFFFFFFFFFCFF8 + i)"
      by (simp add: demo_thread_sp)
    moreover have "(48 :: u64) \<le> of_nat (0xFFFFFFFFFFFFCFF8 + i)" using that
      by (simp add: word_le_nat_alt unat_of_nat_small del: of_nat_add)
    ultimately show "48 \<le> p_rsp (procs demo_threaded 0x1000028) + of_nat i - (c_rsp (k_cpu demo_threaded) - 48)" by (simp only:)
  qed
  from kthread_starts [OF demo_threaded _ _ refl this] show ?thesis by simp
qed

text \<open>The process at \<open>0x400\<close> sleeps until the first tick.\<close>

definition demo_asleep :: kernel where
  "demo_asleep = demo_kernel\<lparr>sleep_queue := 0x400, procs := (procs demo_kernel)
     (0x400 := zero_process\<lparr>p_state := SLEEPING, p_waiting_on := 1, p_sched_class := Mlfq_class, p_priority := 2\<rparr>,
      0x300 := (procs demo_kernel 0x300)\<lparr>p_time_slice := 9, p_rlimits := (\<lambda>_. \<lparr>rlim_cur = RLIM_INFINITY, rlim_max = 0\<rparr>)\<rparr>)\<rparr>"


end
