(* ===== verification/Waitqueue.thy ===== *)
theory Waitqueue
  imports Spinlock Process
begin

text \<open>
  Wait queues: the first part of \<^verbatim>\<open>kernel/sync/waitqueue.c\<close>. The entry of a sleeping process is a
  local variable of \<open>sleep_on\<close>, on the stack of that process; its address is an argument here, as the compiler
  chooses it, and the entries are a typed store beside the state of the kernel.
  A queue is part of the structure that it belongs to, so the operations take and return it.
\<close>

section \<open>Wait queues\<close>

record wait_entry =
  we_task :: u64
  we_next :: u64

record wait_queue =
  wq_head :: u64
  wq_tail :: u64
  wq_lock :: spinlock

record sync = kernel +
  wait_entries :: "u64 \<Rightarrow> wait_entry"

definition wait_queue_init :: "wait_queue \<Rightarrow> wait_queue" where
  "wait_queue_init wq = wq\<lparr>wq_head := 0, wq_tail := 0, wq_lock := spinlock_init (wq_lock wq)\<rparr>"

definition wq_append :: "u64 \<Rightarrow> wait_queue \<Rightarrow> 'a sync_scheme \<Rightarrow> wait_queue \<times> 'a sync_scheme" where
  "wq_append e wq s =
     (let s1 = s\<lparr>wait_entries := (wait_entries s)(e := \<lparr>we_task = current_process s, we_next = 0\<rparr>)\<rparr>
      in if wq_tail wq \<noteq> 0
         then (wq\<lparr>wq_tail := e\<rparr>,
               s1\<lparr>wait_entries := (wait_entries s1)(wq_tail wq := (wait_entries s1 (wq_tail wq))\<lparr>we_next := e\<rparr>)\<rparr>)
         else (wq\<lparr>wq_head := e, wq_tail := e\<rparr>, s1))"

definition sleep_on :: "u64 \<Rightarrow> wait_queue \<Rightarrow> 'a sync_scheme \<Rightarrow> (wait_queue \<times> 'a sync_scheme) option" where
  "sleep_on e wq s =
     (let (lock1, s1) = spinlock_acquire (wq_lock wq) s;
          (wq2, s2) = wq_append e (wq\<lparr>wq_lock := lock1\<rparr>) s1;
          s3 = upd_current (\<lambda>x. x\<lparr>p_state := BLOCKED\<rparr>) s2;
          (lock2, s4) = spinlock_release (wq_lock wq2) s3
      in map_option (\<lambda>s5. (wq2\<lparr>wq_lock := lock2\<rparr>, s5)) (process_schedule s4))"

text \<open>Taking the first entry out and making its task ready.\<close>

definition wake_head :: "wait_queue \<Rightarrow> 'a sync_scheme \<Rightarrow> (wait_queue \<times> 'a sync_scheme) option" where
  "wake_head wq s =
     (let x = wait_entries s (wq_head wq);
          wq1 = wq\<lparr>wq_head := we_next x\<rparr>;
          wq2 = (if wq_head wq1 = 0 then wq1\<lparr>wq_tail := 0\<rparr> else wq1)
      in map_option (\<lambda>s2. (wq2, s2)) (enqueue_process (we_task x) (upd_proc (we_task x) (\<lambda>x. x\<lparr>p_state := READY\<rparr>) s)))"

definition wake_up :: "wait_queue \<Rightarrow> 'a sync_scheme \<Rightarrow> (wait_queue \<times> 'a sync_scheme) option" where
  "wake_up wq s =
     (let (lock1, s1) = spinlock_acquire (wq_lock wq) s;
          wq1 = wq\<lparr>wq_lock := lock1\<rparr>
      in case (if wq_head wq1 \<noteq> 0 then wake_head wq1 s1 else Some (wq1, s1)) of
           None \<Rightarrow> None
         | Some (wq2, s2) \<Rightarrow>
             (let (lock2, s3) = spinlock_release (wq_lock wq2) s2 in Some (wq2\<lparr>wq_lock := lock2\<rparr>, s3)))"

partial_function (option) wake_loop :: "wait_queue \<Rightarrow> 'a sync_scheme \<Rightarrow> (wait_queue \<times> 'a sync_scheme) option" where
  "wake_loop wq s =
     (if wq_head wq \<noteq> 0 then Option.bind (wake_head wq s) (\<lambda>r. wake_loop (fst r) (snd r)) else Some (wq, s))"

declare wake_loop.simps [code]

definition wake_up_all :: "wait_queue \<Rightarrow> 'a sync_scheme \<Rightarrow> (wait_queue \<times> 'a sync_scheme) option" where
  "wake_up_all wq s =
     (let (lock1, s1) = spinlock_acquire (wq_lock wq) s
      in case wake_loop (wq\<lparr>wq_lock := lock1\<rparr>) s1 of
           None \<Rightarrow> None
         | Some (wq2, s2) \<Rightarrow>
             (let (lock2, s3) = spinlock_release (wq_lock wq2) s2 in Some (wq2\<lparr>wq_lock := lock2\<rparr>, s3)))"

section \<open>The waiting processes\<close>

lemma release_after_acquire:
  "k_rflags s' = k_rflags (cli s) \<Longrightarrow>
     spinlock_release \<lparr>locked = v, sl_rflags = k_rflags s, owner_pid = p, owner_cpu = owner_cpu lock\<rparr> s' =
       (free_lock (k_rflags s) lock, s'\<lparr>k_rflags := k_rflags s\<rparr>)"
  using cli_sti_flags [of "k_rflags s"] by (auto simp: spinlock_release_eq sti_def cli_def)

lemma sync_more: "kernel.more s' = kernel.more s \<Longrightarrow> wait_entries s' = wait_entries s" for s s' :: "'a sync_scheme"
  by (cases s rule: sync.cases_scheme; cases s' rule: sync.cases_scheme; simp)

lemma upd_proc_sync [simp]: "wait_entries (upd_proc p f s) = wait_entries s" "k_rflags (upd_proc p f s) = k_rflags s"
  by (simp_all add: upd_proc_def)

lemma cli_simps [simp]:
  "procs (cli s) = procs s" "current_process (cli s) = current_process s" "wait_entries (cli s') = wait_entries s'"
  "process_list (cli s) = process_list s"
  by (simp_all add: cli_def)

lemma sched_rep_cli [simp]: "sched_rep (cli s) qs = sched_rep s qs"
  by (auto simp: cli_def intro: sched_rep_cong)

lemma sched_rep_rflags [simp]: "sched_rep (s\<lparr>k_rflags := f\<rparr>) qs = sched_rep s qs"
  by (auto intro: sched_rep_cong)

lemma sched_rep_entries [simp]: "sched_rep (s\<lparr>wait_entries := w\<rparr>) qs = sched_rep s qs"
  by (auto intro: sched_rep_cong)

text \<open>The tasks of a queue of entries, and a queue whose tasks are blocked and not in the ready queues.\<close>

definition waiters :: "'a sync_scheme \<Rightarrow> u64 list \<Rightarrow> u64 list" where
  "waiters s es = map (\<lambda>e. we_task (wait_entries s e)) es"

definition wq_state :: "'a sync_scheme \<Rightarrow> wait_queue \<Rightarrow> (nat \<Rightarrow> u64 list) \<Rightarrow> u64 list \<Rightarrow> bool" where
  "wq_state s wq qs es \<longleftrightarrow>
     sched_rep s qs \<and> fifo (\<lambda>e. we_next (wait_entries s e)) (wq_head wq) (wq_tail wq) es \<and>
     distinct (waiters s es) \<and> 0 \<notin> set (waiters s es) \<and> set (waiters s es) \<inter> in_queues qs = {} \<and>
     (\<forall>t\<in>set (waiters s es). p_state (procs s t) = BLOCKED \<and> p_sched_class (procs s t) \<noteq> No_class)"

lemma wq_state_cong:
  assumes "wait_entries s' = wait_entries s" and "wq_head wq' = wq_head wq" and "wq_tail wq' = wq_tail wq"
    and "sched_rep s' qs" and "\<And>t. t \<in> set (waiters s es) \<Longrightarrow> unlinked (procs s' t) = unlinked (procs s t)"
    and "wq_state s wq qs es"
  shows "wq_state s' wq' qs es"
proof -
  have "p_state (procs s' t) = BLOCKED \<and> p_sched_class (procs s' t) \<noteq> No_class" if "t \<in> set (waiters s es)" for t
    using unlinked_sched [OF assms(5) [OF that]] assms(6) that by (simp add: wq_state_def)
  then show ?thesis using assms(1-4,6) by (simp add: wq_state_def waiters_def)
qed

lemma wake_head_state:
  assumes st: "wq_state s wq qs (e # es)" and t: "t = we_task (wait_entries s e)"
  shows "\<exists>wq' s'. wake_head wq s = Some (wq', s') \<and>
    wq_state s' wq' (list_enqueue (procs s t) (\<lambda>q. p_vruntime (procs s q)) t qs) es \<and>
    wq_lock wq' = wq_lock wq \<and> sched.more s' = sched.more s \<and>
    (\<forall>q. unlinked (procs s' q) = unlinked (if q = t then (procs s t)\<lparr>p_state := READY\<rparr> else procs s q))"
proof -
  let ?s1 = "upd_proc t (\<lambda>x. x\<lparr>p_state := READY\<rparr>) s" and ?nxt = "\<lambda>e. we_next (wait_entries s e)"
  have f: "fifo ?nxt (wq_head wq) (wq_tail wq) (e # es)" and rep: "sched_rep s qs" using st by (simp_all add: wq_state_def)
  have tp: "t \<noteq> 0" "t \<notin> in_queues qs" "t \<notin> set (waiters s es)" "p_sched_class (procs s t) \<noteq> No_class"
    using st t by (auto simp: wq_state_def waiters_def)
  have vr: "(\<lambda>q. p_vruntime (procs ?s1 q)) = (\<lambda>q. p_vruntime (procs s q))" by auto
  have le: "list_enqueue (procs ?s1 t) vr' t qs = list_enqueue (procs s t) vr' t qs" for vr'
    by (rule list_enqueue_cong) simp_all
  let ?qs = "list_enqueue (procs s t) (\<lambda>q. p_vruntime (procs s q)) t qs"
  obtain s' where s': "enqueue_process t ?s1 = Some s'" "sched_rep s' ?qs"
    "\<forall>q. unlinked (procs s' q) = unlinked (procs ?s1 q)" "sched.more s' = sched.more ?s1"
    using enqueue_process_rep [OF sched_rep_outside [OF rep tp(2), where f = "\<lambda>x. x\<lparr>p_state := READY\<rparr>"] tp(1,2)]
    unfolding vr le by auto
  have m: "sched.more s' = sched.more s" using s'(4) by simp
  have w: "wait_entries s' = wait_entries s" by (rule sync_more [OF same_more(1) [OF m]])
  define wq' where "wq' = (if ?nxt e = 0 then wq\<lparr>wq_head := ?nxt e, wq_tail := 0\<rparr> else wq\<lparr>wq_head := ?nxt e\<rparr>)"
  have wq': "wake_head wq s = Some (wq', s')" "wq_lock wq' = wq_lock wq"
    "wq_head wq' = ?nxt e" "wq_tail wq' = (if ?nxt e = 0 then 0 else wq_tail wq)"
    using s'(1) fifo_pop(1) [OF f] t by (simp_all add: wake_head_def Let_def wq'_def)
  have same: "unlinked (procs s' q) = unlinked (procs s q)" if "q \<noteq> t" for q using s'(3) that by simp
  have "wq_state s' wq' ?qs es" unfolding wq_state_def
  proof (intro conjI ballI)
    show "fifo (\<lambda>e. we_next (wait_entries s' e)) (wq_head wq') (wq_tail wq') es" using fifo_pop(2) [OF f] wq'(3,4) w by simp
    have ws: "waiters s' es = waiters s es" by (simp add: waiters_def w)
    show "distinct (waiters s' es)" "0 \<notin> set (waiters s' es)" using st unfolding ws by (auto simp: wq_state_def waiters_def)
    show "set (waiters s' es) \<inter> in_queues ?qs = {}"
      using st tp unfolding ws by (auto simp: wq_state_def waiters_def in_queues_enqueue)
    fix q assume "q \<in> set (waiters s' es)"
    then have q: "q \<in> set (waiters s es)" "q \<noteq> t" using ws tp(3) by auto
    have "p_state (procs s q) = BLOCKED \<and> p_sched_class (procs s q) \<noteq> No_class" using st q(1) by (auto simp: wq_state_def waiters_def)
    with unlinked_sched(1,5) [OF same [OF q(2)]]
    show "p_state (procs s' q) = BLOCKED" "p_sched_class (procs s' q) \<noteq> No_class" by simp_all
  qed (fact s'(2))
  with wq'(1,2) m s'(3) show ?thesis by (intro exI [of _ wq'] exI [of _ s'] conjI) simp_all
qed

lemma wq_state_acquire:
  "wq_state s wq qs es \<Longrightarrow> wq_state (cli s) (wq\<lparr>wq_lock := l\<rparr>) qs es"
  by (simp add: wq_state_def waiters_def)

lemma wq_state_release:
  "wq_state s wq qs es \<Longrightarrow> wq_state (s\<lparr>k_rflags := f\<rparr>) (wq\<lparr>wq_lock := l\<rparr>) qs es"
  by (simp add: wq_state_def waiters_def)

lemma more_rflags: "sched.more s2 = sched.more (cli s) \<Longrightarrow> sched.more (s2\<lparr>k_rflags := k_rflags s\<rparr>) = sched.more s"
  by (cases s rule: kernel.cases_scheme; cases s2 rule: kernel.cases_scheme) (simp add: cli_def)

lemma ready_unlinked: "unlinked x = unlinked y \<Longrightarrow> unlinked (x\<lparr>p_state := READY\<rparr>) = unlinked (y\<lparr>p_state := READY\<rparr>)"
proof -
  have "unlinked (z\<lparr>p_state := READY\<rparr>) = (unlinked z)\<lparr>p_state := READY\<rparr>" for z by (simp add: unlinked_def)
  then show "unlinked x = unlinked y \<Longrightarrow> unlinked (x\<lparr>p_state := READY\<rparr>) = unlinked (y\<lparr>p_state := READY\<rparr>)" by simp
qed

lemma wake_up_state:
  assumes st: "wq_state s wq qs (e # es)" and t: "t = we_task (wait_entries s e)"
  shows "\<exists>wq' s'. wake_up wq s = Some (wq', s') \<and>
    wq_state s' wq' (list_enqueue (procs s t) (\<lambda>q. p_vruntime (procs s q)) t qs) es \<and> sched.more s' = sched.more s \<and>
    (\<forall>q. unlinked (procs s' q) = unlinked (if q = t then (procs s t)\<lparr>p_state := READY\<rparr> else procs s q))"
proof -
  define l where "l = \<lparr>locked = 1, sl_rflags = k_rflags s, owner_pid = running_pid s, owner_cpu = owner_cpu (wq_lock wq)\<rparr>"
  have h: "wq_head wq \<noteq> 0" using st by (auto simp: wq_state_def fifo_def)
  obtain wq2 s2 where w: "wake_head (wq\<lparr>wq_lock := l\<rparr>) (cli s) = Some (wq2, s2)" "wq_lock wq2 = l"
    "wq_state s2 wq2 (list_enqueue (procs s t) (\<lambda>q. p_vruntime (procs s q)) t qs) es" "sched.more s2 = sched.more (cli s)"
    "\<forall>q. unlinked (procs s2 q) = unlinked (if q = t then (procs s t)\<lparr>p_state := READY\<rparr> else procs s q)"
    using wake_head_state [OF wq_state_acquire [OF st, of l], of t] t by auto
  have "k_rflags s2 = k_rflags (cli s)" by (rule same_more(12) [OF w(4)])
  then have r: "spinlock_release l s2 = (free_lock (k_rflags s) (wq_lock wq), s2\<lparr>k_rflags := k_rflags s\<rparr>)"
    unfolding l_def by (rule release_after_acquire)
  have "wake_up wq s = Some (wq2\<lparr>wq_lock := free_lock (k_rflags s) (wq_lock wq)\<rparr>, s2\<lparr>k_rflags := k_rflags s\<rparr>)"
    using h w(1,2) r by (simp add: wake_up_def spinlock_acquire_eq l_def)
  moreover have "sched.more (s2\<lparr>k_rflags := k_rflags s\<rparr>) = sched.more s" by (rule more_rflags [OF w(4)])
  ultimately show ?thesis using wq_state_release [OF w(3)] w(5) by auto
qed

lemma wake_loop_state:
  assumes "wq_state s wq qs es"
  shows "\<exists>wq' s'. wake_loop wq s = Some (wq', s') \<and> wq_state s' wq' (enqueue_all s (waiters s es) qs) [] \<and>
    wq_lock wq' = wq_lock wq \<and> sched.more s' = sched.more s \<and>
    (\<forall>q. unlinked (procs s' q) = unlinked (if q \<in> set (waiters s es) then (procs s q)\<lparr>p_state := READY\<rparr> else procs s q))"
  using assms
proof (induction es arbitrary: s wq qs)
  case Nil
  then have "wq_head wq = 0" by (simp add: wq_state_def fifo_def)
  then show ?case using Nil by (subst wake_loop.simps) (simp add: waiters_def enqueue_all_def)
next
  case (Cons e es)
  define t where "t = we_task (wait_entries s e)"
  have h: "wq_head wq \<noteq> 0" using Cons.prems by (auto simp: wq_state_def fifo_def)
  obtain wq1 s1 where w: "wake_head wq s = Some (wq1, s1)" "wq_lock wq1 = wq_lock wq"
    "wq_state s1 wq1 (list_enqueue (procs s t) (\<lambda>q. p_vruntime (procs s q)) t qs) es" "sched.more s1 = sched.more s"
    "\<forall>q. unlinked (procs s1 q) = unlinked (if q = t then (procs s t)\<lparr>p_state := READY\<rparr> else procs s q)"
    using wake_head_state [OF Cons.prems t_def] by (elim exE conjE) (rule that, assumption+)
  have ws: "waiters s1 es = waiters s es" using sync_more [OF same_more(1) [OF w(4)]] by (simp add: waiters_def)
  have wt: "waiters s (e # es) = t # waiters s es" "t \<notin> set (waiters s es)"
    using Cons.prems by (simp_all add: waiters_def t_def wq_state_def)
  have "p_sched_class (procs s1 q) = p_sched_class (procs s q) \<and> p_priority (procs s1 q) = p_priority (procs s q) \<and>
    p_vruntime (procs s1 q) = p_vruntime (procs s q)" for q
    using unlinked_sched(1-3) [OF w(5) [rule_format, of q]] by (simp split: if_splits)
  then have en: "enqueue_all s1 ps qs' = enqueue_all s ps qs'" for ps qs' by (rule enqueue_all_cong)
  obtain wq' s' where w': "wake_loop wq1 s1 = Some (wq', s')" "wq_lock wq' = wq_lock wq1" "sched.more s' = sched.more s1"
    "wq_state s' wq' (enqueue_all s (waiters s es) (list_enqueue (procs s t) (\<lambda>q. p_vruntime (procs s q)) t qs)) []"
    "\<forall>q. unlinked (procs s' q) = unlinked (if q \<in> set (waiters s es) then (procs s1 q)\<lparr>p_state := READY\<rparr> else procs s1 q)"
    using Cons.IH [OF w(3)] unfolding ws en by (elim exE conjE) (rule that, assumption+)
  have "wake_loop wq s = Some (wq', s')" using h w(1) w'(1) by (subst wake_loop.simps) simp
  moreover have "unlinked (procs s' q) =
      unlinked (if q \<in> set (waiters s (e # es)) then (procs s q)\<lparr>p_state := READY\<rparr> else procs s q)" for q
    using ready_unlinked [OF w(5) [rule_format, of q]] w(5) [rule_format, of q] w'(5) [rule_format, of q] wt
    by (auto split: if_splits)
  ultimately show ?case using w'(2-4) w(2,4) wt(1) by (simp add: enqueue_all_def)
qed

lemma wake_up_all_state:
  assumes st: "wq_state s wq qs es"
  shows "\<exists>wq' s'. wake_up_all wq s = Some (wq', s') \<and> wq_state s' wq' (enqueue_all s (waiters s es) qs) [] \<and>
    sched.more s' = sched.more s \<and>
    (\<forall>q. unlinked (procs s' q) = unlinked (if q \<in> set (waiters s es) then (procs s q)\<lparr>p_state := READY\<rparr> else procs s q))"
proof -
  define l where "l = \<lparr>locked = 1, sl_rflags = k_rflags s, owner_pid = running_pid s, owner_cpu = owner_cpu (wq_lock wq)\<rparr>"
  have c: "waiters (cli s) es = waiters s es" "enqueue_all (cli s) ps qs = enqueue_all s ps qs" for ps
    by (simp_all add: waiters_def enqueue_all_def)
  obtain wq2 s2 where w: "wake_loop (wq\<lparr>wq_lock := l\<rparr>) (cli s) = Some (wq2, s2)" "wq_lock wq2 = l"
    "wq_state s2 wq2 (enqueue_all s (waiters s es) qs) []" "sched.more s2 = sched.more (cli s)"
    "\<forall>q. unlinked (procs s2 q) = unlinked (if q \<in> set (waiters s es) then (procs s q)\<lparr>p_state := READY\<rparr> else procs s q)"
    using wake_loop_state [OF wq_state_acquire [OF st, of l]] unfolding c by auto
  have "k_rflags s2 = k_rflags (cli s)" by (rule same_more(12) [OF w(4)])
  then have r: "spinlock_release l s2 = (free_lock (k_rflags s) (wq_lock wq), s2\<lparr>k_rflags := k_rflags s\<rparr>)"
    unfolding l_def by (rule release_after_acquire)
  have "wake_up_all wq s = Some (wq2\<lparr>wq_lock := free_lock (k_rflags s) (wq_lock wq)\<rparr>, s2\<lparr>k_rflags := k_rflags s\<rparr>)"
    using w(1,2) r by (simp add: wake_up_all_def spinlock_acquire_eq l_def)
  moreover have "sched.more (s2\<lparr>k_rflags := k_rflags s\<rparr>) = sched.more s" by (rule more_rflags [OF w(4)])
  ultimately show ?thesis using wq_state_release [OF w(3)] w(5) by auto
qed

text \<open>Appending the entry of the running process.\<close>

lemma wq_append_fifo:
  assumes f: "fifo (\<lambda>e. we_next (wait_entries s e)) (wq_head wq) (wq_tail wq) es" and e: "e \<noteq> 0" "e \<notin> set es"
    and a: "wq_append e wq s = (wq', s')"
  shows "fifo (\<lambda>e. we_next (wait_entries s' e)) (wq_head wq') (wq_tail wq') (es @ [e])"
    and "waiters s' (es @ [e]) = waiters s es @ [current_process s]" and "wq_lock wq' = wq_lock wq"
    and "s'\<lparr>wait_entries := wait_entries s\<rparr> = s"
proof -
  let ?n1 = "(\<lambda>e. we_next (wait_entries s e))(e := 0)"
  have f1: "fifo ?n1 (wq_head wq) (wq_tail wq) es" by (subst fifo_cong [OF _ ]) (use f e in auto)
  have n: "(\<lambda>x. we_next (((wait_entries s)(e := \<lparr>we_task = v, we_next = 0\<rparr>)) x)) = ?n1" for v by auto
  have t: "wq_tail wq = 0 \<longleftrightarrow> es = []" "es \<noteq> [] \<longrightarrow> wq_tail wq \<in> set es" using fifo_tail [OF f] f by (auto simp: fifo_def last0_def)
  show "fifo (\<lambda>e. we_next (wait_entries s' e)) (wq_head wq') (wq_tail wq') (es @ [e])"
  proof (cases "es = []")
    case True
    then show ?thesis using a e t by (auto simp: wq_append_def fifo_def)
  next
    case False
    have "(\<lambda>x. we_next (wait_entries s' x)) = ?n1(wq_tail wq := e)" using a t False by (auto simp: wq_append_def)
    moreover have "wq_head wq' = wq_head wq" "wq_tail wq' = e" using a t False by (auto simp: wq_append_def)
    ultimately show ?thesis using fifo_push(2) [OF f1 e _ False] by simp
  qed
  show "waiters s' (es @ [e]) = waiters s es @ [current_process s]"
    using a e t by (cases "es = []") (auto simp: wq_append_def waiters_def)
  show "wq_lock wq' = wq_lock wq" "s'\<lparr>wait_entries := wait_entries s\<rparr> = s"
    using a by (auto simp: wq_append_def Let_def split: if_splits)
qed

lemma settled_sched:
  assumes "settled x = settled y"
  shows "p_state x = p_state y" "p_sched_class x = p_sched_class y"
  using arg_cong [OF assms, of p_state] arg_cong [OF assms, of p_sched_class] by (simp_all add: settled_def)

lemma sleep_on_state:
  assumes st: "wq_state s wq qs es" and e: "e \<noteq> 0" "e \<notin> set es"
    and cur: "current_process s \<noteq> 0" "current_process s \<notin> in_queues qs" "current_process s \<notin> set (waiters s es)"
      "p_sched_class (current s) \<noteq> No_class"
    and lp: "list_pick qs = (qs', nxt)"
  shows "\<exists>wq' s'. sleep_on e wq s = Some (wq', s') \<and> wq_state s' wq' qs' (es @ [e]) \<and>
    waiters s' (es @ [e]) = waiters s es @ [current_process s] \<and>
    current_process s' = (if nxt = 0 then current_process s else nxt)"
proof -
  let ?c = "current_process s"
  define l where "l = \<lparr>locked = 1, sl_rflags = k_rflags s, owner_pid = running_pid s, owner_cpu = owner_cpu (wq_lock wq)\<rparr>"
  obtain wq2 s2 where a: "wq_append e (wq\<lparr>wq_lock := l\<rparr>) (cli s) = (wq2, s2)" by fastforce
  have f: "fifo (\<lambda>e. we_next (wait_entries (cli s) e)) (wq_head (wq\<lparr>wq_lock := l\<rparr>)) (wq_tail (wq\<lparr>wq_lock := l\<rparr>)) es"
    using st by (simp add: wq_state_def)
  note ap = wq_append_fifo [OF f e a]
  have wc: "waiters (cli s) es = waiters s es" by (simp add: waiters_def)
  have s2: "procs s2 = procs s" "current_process s2 = ?c" "k_rflags s2 = k_rflags (cli s)" "sched_rep s2 qs"
    using arg_cong [OF ap(4), of procs] arg_cong [OF ap(4), of current_process] arg_cong [OF ap(4), of k_rflags]
      arg_cong [OF ap(4), of "\<lambda>s. sched_rep s qs"] st sched_rep_entries by (simp_all add: wq_state_def)
  define s4 where "s4 = (upd_current (\<lambda>x. x\<lparr>p_state := BLOCKED\<rparr>) s2)\<lparr>k_rflags := k_rflags s\<rparr>"
  have r: "spinlock_release l (upd_current (\<lambda>x. x\<lparr>p_state := BLOCKED\<rparr>) s2) = (free_lock (k_rflags s) (wq_lock wq), s4)"
    unfolding l_def s4_def by (rule release_after_acquire) (simp add: s2(3))
  have s4: "current_process s4 = ?c" "procs s4 = (procs s)(?c := (current s)\<lparr>p_state := BLOCKED\<rparr>)"
    "wait_entries s4 = wait_entries s2" "sched_rep s4 qs"
    using s2 cur(2) by (simp_all add: s4_def sched_rep_outside)
  have rq: "requeued s4 qs = qs" by (simp add: requeued_def s4)
  have bl: "p_state (procs s4 ?c) = BLOCKED" by (simp add: s4)
  obtain s5 where s5: "process_schedule s4 = Some s5" "sched_rep s5 qs'" "current_process s5 = (if nxt = 0 then ?c else nxt)"
    "kernel.more s5 = kernel.more s4" "settled (procs s5 ?c) = settled (procs s4 ?c)"
    "\<forall>q. q \<noteq> ?c \<longrightarrow> nxt = 0 \<or> q \<noteq> nxt \<longrightarrow> settled (procs s5 q) = settled (procs s4 q)"
    using process_schedule_rep [OF s4(4), unfolded rq s4(1), OF cur(1,2) lp] bl
    by (elim exE conjE) (rule that, assumption+, simp, assumption)
  let ?wq = "wq2\<lparr>wq_lock := free_lock (k_rflags s) (wq_lock wq)\<rparr>"
  have w5: "wait_entries s5 = wait_entries s2" using sync_more [OF s5(4)] s4(3) by simp
  have ws: "waiters s5 (es @ [e]) = waiters s es @ [?c]" using ap(2) wc by (simp add: waiters_def w5)
  have q': "in_queues qs' \<subseteq> in_queues qs" "nxt \<noteq> 0 \<Longrightarrow> nxt \<in> in_queues qs"
    using in_queues_pick [OF s4(4) lp] by auto
  have keep: "settled (procs s5 q) = settled (procs s4 q)" if "q \<in> set (waiters s5 (es @ [e]))" for q
    using that s5(5,6) q'(2) st cur(2) by (cases "q = ?c") (auto simp: ws wq_state_def)
  have "wq_state s5 ?wq qs' (es @ [e])" unfolding wq_state_def
  proof (intro conjI ballI)
    show "fifo (\<lambda>e. we_next (wait_entries s5 e)) (wq_head ?wq) (wq_tail ?wq) (es @ [e])" using ap(1) by (simp add: w5)
    show "distinct (waiters s5 (es @ [e]))" "0 \<notin> set (waiters s5 (es @ [e]))" "set (waiters s5 (es @ [e])) \<inter> in_queues qs' = {}"
      using st cur q'(1) unfolding ws by (auto simp: wq_state_def)
    fix q assume q: "q \<in> set (waiters s5 (es @ [e]))"
    have "p_state (procs s4 q) = BLOCKED \<and> p_sched_class (procs s4 q) \<noteq> No_class"
      using q st cur(4) unfolding ws s4(2) by (auto simp: wq_state_def)
    with settled_sched [OF keep [OF q]] show "p_state (procs s5 q) = BLOCKED" "p_sched_class (procs s5 q) \<noteq> No_class" by simp_all
  qed (fact s5(2))
  moreover have "sleep_on e wq s = Some (?wq, s5)"
    using a r ap(3) s5(1) by (simp add: sleep_on_def spinlock_acquire_eq l_def)
  ultimately show ?thesis using s5(3) ws by blast
qed

section \<open>Properties\<close>


section \<open>Witnesses\<close>

definition demo_lock :: spinlock where
  "demo_lock = \<lparr>locked = 0, sl_rflags = 0, owner_pid = - 1, owner_cpu = 0\<rparr>"

definition demo_wq :: wait_queue where
  "demo_wq = \<lparr>wq_head = 0, wq_tail = 0, wq_lock = demo_lock\<rparr>"

definition demo_sync :: sync where
  "demo_sync = kernel.extend demo_kernel \<lparr>wait_entries = (\<lambda>_. \<lparr>we_task = 0, we_next = 0\<rparr>)\<rparr>"

lemma demo_sync_fields:
  "procs demo_sync = procs demo_kernel" "mlfq_queues demo_sync = mlfq_queues demo_kernel"
  "mlfq_tails demo_sync = mlfq_tails demo_kernel" "cfs_queue demo_sync = cfs_queue demo_kernel"
  "current_process demo_sync = 0x300" "process_list demo_sync = 0x300" "k_rflags demo_sync = 0x202"
  "k_heap demo_sync = demo_kheap"
  by (simp_all add: demo_sync_def kernel.defs demo_kernel_def)

lemma demo_sync_state: "wq_state demo_sync demo_wq ((\<lambda>_. [])(2 := [0x100])) []"
proof -
  have "sched_rep demo_sync ((\<lambda>_. [])(2 := [0x100]))"
    by (rule sched_rep_cong [OF demo_kernel_rep]) (simp_all add: demo_sync_fields)
  then show ?thesis by (simp add: wq_state_def waiters_def demo_wq_def fifo_empty)
qed


end
