(* ===== verification/Input.thy ===== *)
theory Input
  imports Waitqueue
begin

text \<open>
  The input subsystem and the PS/2 mouse: \<^verbatim>\<open>kernel/drivers/input/input.c\<close> and
  \<^verbatim>\<open>kernel/drivers/input/mouse.c\<close>. Devices and handlers are typed objects, linked into two lists through
  \<^verbatim>\<open>struct list_head\<close> fields at fixed offsets. The functions of the handlers are a parameter, and so are the bytes that
  the controller delivers. The messages on the console are left out.
\<close>

section \<open>Devices and handlers\<close>

record input_event =
  ev_timestamp :: u64
  ev_type :: u16
  ev_code :: u16
  ev_value :: int

record input_dev =
  id_name :: string
  id_evbit :: u64
  id_keybit :: "nat \<Rightarrow> u64"
  id_relbit :: u64
  id_absbit :: u64
  id_private_data :: u64

record inputs = sync +
  in_links :: links
  dev_objs :: "u64 \<Rightarrow> input_dev"
  handler_event :: "u64 \<Rightarrow> u64"
  input_dev_list :: u64
  input_handler_list :: u64
  input_lock :: spinlock

definition EV_SYN :: u16 where "EV_SYN = 0"
definition EV_KEY :: u16 where "EV_KEY = 1"
definition EV_REL :: u16 where "EV_REL = 2"
definition SYN_REPORT :: u16 where "SYN_REPORT = 0"
definition REL_X :: u16 where "REL_X = 0"
definition REL_Y :: u16 where "REL_Y = 1"

definition sizeof_input_dev :: u64 where "sizeof_input_dev = 136"

text \<open>The places of the \<open>list\<close> fields in a device and in a handler.\<close>

definition dev_node :: "u64 \<Rightarrow> u64" where "dev_node dev = dev + 96"
definition handler_node :: "u64 \<Rightarrow> u64" where "handler_node handler = handler + 8"
definition node_handler :: "u64 \<Rightarrow> u64" where "node_handler pos = pos - 8"

definition zero_dev :: input_dev where
  "zero_dev = \<lparr>id_name = [], id_evbit = 0, id_keybit = (\<lambda>_. 0), id_relbit = 0, id_absbit = 0, id_private_data = 0\<rparr>"

definition input_init :: "'a inputs_scheme \<Rightarrow> 'a inputs_scheme" where
  "input_init s = s\<lparr>input_lock := spinlock_init (input_lock s)\<rparr>"

definition input_allocate_device :: "'a inputs_scheme \<Rightarrow> ('a inputs_scheme \<times> u64) option" where
  "input_allocate_device s =
     (case kmalloc sizeof_input_dev (k_heap s) of
        None \<Rightarrow> None
      | Some (h, dev) \<Rightarrow>
          if dev = 0 then Some (s\<lparr>k_heap := h\<rparr>, 0)
          else Some (s\<lparr>k_heap := h, dev_objs := (dev_objs s)(dev := zero_dev)\<rparr>, dev))"

definition input_free_device :: "u64 \<Rightarrow> 'a inputs_scheme \<Rightarrow> 'a inputs_scheme" where
  "input_free_device dev s = s\<lparr>k_heap := kfree dev (k_heap s)\<rparr>"

text \<open>A change of the links under the lock.\<close>

definition input_locked :: "(links \<Rightarrow> links) \<Rightarrow> 'a inputs_scheme \<Rightarrow> 'a inputs_scheme" where
  "input_locked f s =
     (let (lock1, s1) = spinlock_acquire (input_lock s) s;
          s2 = s1\<lparr>input_lock := lock1, in_links := f (in_links s1)\<rparr>;
          (lock2, s3) = spinlock_release (input_lock s2) s2
      in s3\<lparr>input_lock := lock2\<rparr>)"

definition input_register_device :: "u64 \<Rightarrow> 'a inputs_scheme \<Rightarrow> 'a inputs_scheme \<times> int" where
  "input_register_device dev s =
     (if dev = 0 then (s, - 1) else (input_locked (list_add_tail (dev_node dev) (input_dev_list s)) s, 0))"

definition input_unregister_device :: "u64 \<Rightarrow> 'a inputs_scheme \<Rightarrow> 'a inputs_scheme" where
  "input_unregister_device dev s = (if dev = 0 then s else input_locked (list_del (dev_node dev)) s)"

definition input_register_handler :: "u64 \<Rightarrow> 'a inputs_scheme \<Rightarrow> 'a inputs_scheme \<times> int" where
  "input_register_handler handler s =
     (if handler = 0 then (s, - 1) else (input_locked (list_add_tail (handler_node handler) (input_handler_list s)) s, 0))"

definition input_unregister_handler :: "u64 \<Rightarrow> 'a inputs_scheme \<Rightarrow> 'a inputs_scheme" where
  "input_unregister_handler handler s = (if handler = 0 then s else input_locked (list_del (handler_node handler)) s)"

section \<open>Events\<close>

partial_function (option) report_loop ::
  "(u64 \<Rightarrow> u64 \<Rightarrow> u64 \<Rightarrow> input_event \<Rightarrow> 'a inputs_scheme \<Rightarrow> 'a inputs_scheme) \<Rightarrow> u64 \<Rightarrow> input_event \<Rightarrow> u64 \<Rightarrow>
     'a inputs_scheme \<Rightarrow> 'a inputs_scheme option" where
  "report_loop call dev ev pos s =
     (if pos = input_handler_list s then Some s
      else
        (let handler = node_handler pos;
             f = handler_event s handler;
             s1 = (if f \<noteq> 0 then call f handler dev ev s else s)
         in report_loop call dev ev (lh_next (in_links s1 pos)) s1))"

definition input_report_event ::
  "(u64 \<Rightarrow> u64 \<Rightarrow> u64 \<Rightarrow> input_event \<Rightarrow> 'a inputs_scheme \<Rightarrow> 'a inputs_scheme) \<Rightarrow> u64 \<Rightarrow> u16 \<Rightarrow> u16 \<Rightarrow> int \<Rightarrow>
     'a inputs_scheme \<Rightarrow> 'a inputs_scheme option" where
  "input_report_event call dev ty code v s =
     report_loop call dev \<lparr>ev_timestamp = 0, ev_type = ty, ev_code = code, ev_value = v\<rparr>
       (lh_next (in_links s (input_handler_list s))) s"

definition input_sync ::
  "(u64 \<Rightarrow> u64 \<Rightarrow> u64 \<Rightarrow> input_event \<Rightarrow> 'a inputs_scheme \<Rightarrow> 'a inputs_scheme) \<Rightarrow> u64 \<Rightarrow> 'a inputs_scheme \<Rightarrow> 'a inputs_scheme option" where
  "input_sync call dev s = input_report_event call dev EV_SYN SYN_REPORT 0 s"

definition input_report_key ::
  "(u64 \<Rightarrow> u64 \<Rightarrow> u64 \<Rightarrow> input_event \<Rightarrow> 'a inputs_scheme \<Rightarrow> 'a inputs_scheme) \<Rightarrow> u64 \<Rightarrow> u16 \<Rightarrow> int \<Rightarrow>
     'a inputs_scheme \<Rightarrow> 'a inputs_scheme option" where
  "input_report_key call dev code v s = input_report_event call dev EV_KEY code v s"

definition input_report_rel ::
  "(u64 \<Rightarrow> u64 \<Rightarrow> u64 \<Rightarrow> input_event \<Rightarrow> 'a inputs_scheme \<Rightarrow> 'a inputs_scheme) \<Rightarrow> u64 \<Rightarrow> u16 \<Rightarrow> int \<Rightarrow>
     'a inputs_scheme \<Rightarrow> 'a inputs_scheme option" where
  "input_report_rel call dev code v s = input_report_event call dev EV_REL code v s"

section \<open>The mouse\<close>

record mouse = inputs +
  mouse_dev :: u64
  mouse_byte :: "nat \<Rightarrow> u8"
  mouse_pkt_idx :: nat

datatype irqreturn = IRQ_NONE | IRQ_HANDLED | IRQ_WAKE_THREAD

text \<open>The movement that a packet reports: its second or third byte, a signed \<open>char\<close>, and a sign bit of the first.\<close>

definition rel_x :: "u8 \<Rightarrow> u8 \<Rightarrow> int" where
  "rel_x flags b = sint b - uint (push_bit 4 (ucast flags :: u32) AND 0x100)"

definition rel_y :: "u8 \<Rightarrow> u8 \<Rightarrow> int" where
  "rel_y flags b = sint b - uint (push_bit 3 (ucast flags :: u32) AND 0x100)"

text \<open>The events of a complete packet, in their order.\<close>

definition mouse_packet ::
  "(u64 \<Rightarrow> u64 \<Rightarrow> u64 \<Rightarrow> input_event \<Rightarrow> 'a mouse_scheme \<Rightarrow> 'a mouse_scheme) \<Rightarrow> 'a mouse_scheme \<Rightarrow> 'a mouse_scheme option" where
  "mouse_packet call s =
     (let flags = mouse_byte s 0; dev = mouse_dev s
      in if flags AND 0xC0 \<noteq> 0 then Some s
         else
           Option.bind (input_report_rel call dev REL_X (rel_x flags (mouse_byte s 1)) s) (\<lambda>s1.
           Option.bind (input_report_rel call dev REL_Y (- rel_y flags (mouse_byte s 2)) s1) (\<lambda>s2.
           Option.bind (input_report_key call dev 0x110 (uint (flags AND 1)) s2) (\<lambda>s3.
           Option.bind (input_report_key call dev 0x111 (uint (drop_bit 1 flags AND 1)) s3) (\<lambda>s4.
           Option.bind (input_report_key call dev 0x112 (uint (drop_bit 2 flags AND 1)) s4) (\<lambda>s5.
             input_sync call dev s5))))))"

text \<open>\<open>status\<close> and \<open>data\<close> are what the two ports give.\<close>

definition mouse_handler ::
  "(u64 \<Rightarrow> u64 \<Rightarrow> u64 \<Rightarrow> input_event \<Rightarrow> 'a mouse_scheme \<Rightarrow> 'a mouse_scheme) \<Rightarrow> u8 \<Rightarrow> u8 \<Rightarrow> 'a mouse_scheme \<Rightarrow>
     ('a mouse_scheme \<times> irqreturn) option" where
  "mouse_handler call status data s =
     (if status AND 0x20 = 0 then Some (s, IRQ_NONE)
      else
        (let s1 = s\<lparr>mouse_byte := (mouse_byte s)(mouse_pkt_idx s := data), mouse_pkt_idx := mouse_pkt_idx s + 1\<rparr>
         in if mouse_pkt_idx s1 = 3 then map_option (\<lambda>s2. (s2, IRQ_HANDLED)) (mouse_packet call (s1\<lparr>mouse_pkt_idx := 0\<rparr>))
            else Some (s1, IRQ_HANDLED)))"

section \<open>Delivery of events\<close>

text \<open>Handlers that leave the lists of the subsystem and the handlers alone.\<close>

definition quiet :: "(u64 \<Rightarrow> u64 \<Rightarrow> u64 \<Rightarrow> input_event \<Rightarrow> 'a inputs_scheme \<Rightarrow> 'a inputs_scheme) \<Rightarrow> bool" where
  "quiet call \<longleftrightarrow> (\<forall>f h d ev s. in_links (call f h d ev s) = in_links s \<and>
     input_handler_list (call f h d ev s) = input_handler_list s \<and> handler_event (call f h d ev s) = handler_event s)"

definition deliver ::
  "(u64 \<Rightarrow> u64 \<Rightarrow> u64 \<Rightarrow> input_event \<Rightarrow> 'a inputs_scheme \<Rightarrow> 'a inputs_scheme) \<Rightarrow> u64 \<Rightarrow> input_event \<Rightarrow> u64 list \<Rightarrow>
     'a inputs_scheme \<Rightarrow> 'a inputs_scheme" where
  "deliver call dev ev hs s = fold (\<lambda>h s. if handler_event s h \<noteq> 0 then call (handler_event s h) h dev ev s else s) hs s"

lemma report_loop_path:
  assumes q: "quiet call" and "path (in_links s) a (map handler_node hs) (input_handler_list s)"
    and "input_handler_list s \<notin> set (map handler_node hs)"
  shows "report_loop call dev ev (lh_next (in_links s a)) s = Some (deliver call dev ev hs s)"
  using assms(2,3)
proof (induction hs arbitrary: a s)
  case Nil
  then show ?case by (subst report_loop.simps) (simp add: deliver_def link_def)
next
  case (Cons h hs)
  define s1 where "s1 = (if handler_event s h \<noteq> 0 then call (handler_event s h) h dev ev s else s)"
  have s1: "in_links s1 = in_links s" "input_handler_list s1 = input_handler_list s" using q by (simp_all add: s1_def quiet_def)
  have n: "lh_next (in_links s a) = handler_node h" "node_handler (handler_node h) = h" "handler_node h \<noteq> input_handler_list s"
    using Cons.prems by (auto simp: link_def handler_node_def node_handler_def)
  have "report_loop call dev ev (lh_next (in_links s1 (handler_node h))) s1 = Some (deliver call dev ev hs s1)"
    using Cons.prems by (intro Cons.IH) (simp_all add: s1)
  then show ?case using n by (subst report_loop.simps) (simp add: s1_def [symmetric] deliver_def Let_def)
qed

lemma input_report_event_rep:
  assumes "quiet call" and "ring (in_links s) (input_handler_list s) (map handler_node hs)"
  shows "input_report_event call dev ty code v s =
    Some (deliver call dev \<lparr>ev_timestamp = 0, ev_type = ty, ev_code = code, ev_value = v\<rparr> hs s)"
  using report_loop_path [OF assms(1), of s "input_handler_list s" hs] assms(2) by (auto simp: input_report_event_def ring_def)

lemma deliver_keeps:
  assumes "quiet call"
  shows "in_links (deliver call dev ev hs s) = in_links s" "input_handler_list (deliver call dev ev hs s) = input_handler_list s"
  using assms by (induction hs arbitrary: s) (auto simp: deliver_def quiet_def)

text \<open>A sequence of events.\<close>

fun report_all ::
  "(u64 \<Rightarrow> u64 \<Rightarrow> u64 \<Rightarrow> input_event \<Rightarrow> 'a inputs_scheme \<Rightarrow> 'a inputs_scheme) \<Rightarrow> u64 \<Rightarrow> (u16 \<times> u16 \<times> int) list \<Rightarrow>
     'a inputs_scheme \<Rightarrow> 'a inputs_scheme option" where
  "report_all call dev [] s = Some s"
| "report_all call dev ((ty, code, v) # evs) s =
     Option.bind (input_report_event call dev ty code v s) (report_all call dev evs)"

lemma report_all_rep:
  assumes "quiet call" and "ring (in_links s) (input_handler_list s) (map handler_node hs)"
  shows "report_all call dev evs s =
    Some (fold (\<lambda>(ty, code, v). deliver call dev \<lparr>ev_timestamp = 0, ev_type = ty, ev_code = code, ev_value = v\<rparr> hs) evs s)"
  using assms(2)
proof (induction evs arbitrary: s)
  case (Cons ev evs)
  obtain ty code v where ev: "ev = (ty, code, v)" by (cases ev)
  note r = input_report_event_rep [OF assms(1) Cons.prems, of dev ty code v]
  show ?case unfolding ev report_all.simps r using Cons.prems by (simp add: Cons.IH deliver_keeps [OF assms(1)])
qed simp

text \<open>Registering and removing handlers.\<close>

lemma input_locked_links: "in_links (input_locked f s) = f (in_links s)" "input_handler_list (input_locked f s) = input_handler_list s"
  "input_dev_list (input_locked f s) = input_dev_list s" "handler_event (input_locked f s) = handler_event s"
  by (simp_all add: input_locked_def spinlock_acquire_eq spinlock_release_def Let_def cli_def sti_def)

lemma register_handler_rep:
  assumes "ring (in_links s) (input_handler_list s) (map handler_node hs)" and "h \<noteq> 0"
    and "handler_node h \<noteq> 0" and "handler_node h \<notin> insert (input_handler_list s) (set (map handler_node hs))"
  shows "ring (in_links (fst (input_register_handler h s))) (input_handler_list (fst (input_register_handler h s)))
    (map handler_node (hs @ [h]))"
  using assms ring_add_tail [OF assms(1), of "handler_node h"] by (simp add: input_register_handler_def input_locked_links)

section \<open>Motion\<close>

lemma and_exp: "(w :: 'a::len word) AND 2 ^ n = (if bit w n then 2 ^ n else 0)"
  by (rule bit_eqI) (auto simp: bit_and_iff bit_exp_iff)

lemma sign_mask: "uint ((push_bit n (ucast (b :: u8)) :: u32) AND 0x100) = (if bit b (8 - n) then 256 else 0)" if "n \<le> 8"
proof -
  let ?w = "push_bit n (ucast b) :: u32"
  have e: "(0x100 :: u32) = 2 ^ 8" by simp
  have b8: "bit ?w 8 = bit b (8 - n)" using that by (auto simp: bit_push_bit_iff bit_ucast_iff)
  show ?thesis unfolding e and_exp b8 by simp
qed

lemma sint_of_int_byte:
  assumes "- 256 \<le> v" and "v < 256"
  shows "sint (word_of_int v :: u8) = (if v < - 128 then v + 256 else if v < 128 then v else v - 256)"
proof -
  have s: "sint (word_of_int v :: u8) = (v + 128) mod 256 - 128" by (simp add: int_word_sint)
  have m: "(v + 128) mod 256 = (v + 384) mod 256" "(v + 128) mod 256 = (v - 128) mod 256"
    using mod_add_self2 [of "v + 128" "256 :: int"] mod_add_self2 [of "v - 128" "256 :: int"]
    by (simp_all add: add.commute)
  consider "v < - 128" | "- 128 \<le> v" "v < 128" | "128 \<le> v" by linarith
  then show ?thesis
  proof cases
    case 1
    then show ?thesis using assms mod_pos_pos_trivial [of "v + 384" 256] unfolding s m(1) by simp
  next
    case 2
    then show ?thesis using mod_pos_pos_trivial [of "v + 128" 256] unfolding s by simp
  next
    case 3
    then show ?thesis using assms mod_pos_pos_trivial [of "v - 128" 256] unfolding s m(2) by simp
  qed
qed

lemma mouse_handler_third:
  "status AND 0x20 \<noteq> 0 \<Longrightarrow> mouse_pkt_idx s = 2 \<Longrightarrow> mouse_handler call status d s =
     map_option (\<lambda>t. (t, IRQ_HANDLED)) (mouse_packet call (s\<lparr>mouse_byte := (mouse_byte s)(2 := d), mouse_pkt_idx := 0\<rparr>))"
  by (simp add: mouse_handler_def Let_def)

lemma report_all_fun:
  "report_all call dev [] = Some"
  "report_all call dev ((ty, code, v) # evs) = (\<lambda>s. Option.bind (input_report_event call dev ty code v s) (report_all call dev evs))"
  "input_sync call dev = input_report_event call dev EV_SYN SYN_REPORT 0"
  by (simp_all add: fun_eq_iff input_sync_def)

lemma bind_Some_id: "(\<lambda>s. Option.bind (f s) Some) = f"
  by (rule ext) (simp split: bind_split)

section \<open>Properties\<close>

text \<open>
  The mouse driver misreads motion. A packet gives a movement from -256 to 255 by its low byte and a sign bit. The
  driver keeps the byte as a signed number and subtracts 256 for the sign once more: the movement that it reports is
  the one in the packet exactly for movements from 0 to 127 and below -128, so every short movement to the left or
  down comes out as a long one.
\<close>

theorem mouse_motion_misread:
  assumes "- 256 \<le> v" and "v < 256" and "bit flags 4 \<longleftrightarrow> v < 0" and "- 256 \<le> w" and "w < 256" and "bit flags 5 \<longleftrightarrow> w < 0"
  shows "rel_x flags (word_of_int v) = (if v < - 128 \<or> 0 \<le> v \<and> v < 128 then v else v - 256) \<and>
    rel_y flags (word_of_int w) = (if w < - 128 \<or> 0 \<le> w \<and> w < 128 then w else w - 256)"
  using assms by (auto simp: rel_x_def rel_y_def sign_mask sint_of_int_byte)

text \<open>
  C14. Every handler sees every event. With handlers that leave the input subsystem alone, three interrupts of the mouse
  with the bytes of a packet that reports no overflow return, and deliver the two movements, the three buttons and a
  synchronisation, each to every registered handler in the order of registration.
\<close>

theorem mouse_packet_delivered:
  assumes "quiet call" and "ring (in_links s) (input_handler_list s) (map handler_node hs)"
    and "mouse_pkt_idx s = 0" and "status AND 0x20 \<noteq> 0" and "b0 AND 0xC0 = 0"
  shows "\<exists>s1 s2 s3. mouse_handler call status b0 s = Some (s1, IRQ_HANDLED) \<and>
    mouse_handler call status b1 s1 = Some (s2, IRQ_HANDLED) \<and> mouse_handler call status b2 s2 = Some (s3, IRQ_HANDLED) \<and>
    s3 = fold (\<lambda>(ty, code, v). deliver call (mouse_dev s) \<lparr>ev_timestamp = 0, ev_type = ty, ev_code = code, ev_value = v\<rparr> hs)
      [(EV_REL, REL_X, rel_x b0 b1), (EV_REL, REL_Y, - rel_y b0 b2), (EV_KEY, 0x110, uint (b0 AND 1)),
       (EV_KEY, 0x111, uint (drop_bit 1 b0 AND 1)), (EV_KEY, 0x112, uint (drop_bit 2 b0 AND 1)), (EV_SYN, SYN_REPORT, 0)]
      (s\<lparr>mouse_byte := (mouse_byte s)(0 := b0, 1 := b1, 2 := b2)\<rparr>)"
proof -
  let ?s1 = "s\<lparr>mouse_byte := (mouse_byte s)(0 := b0), mouse_pkt_idx := 1\<rparr>"
  let ?s2 = "s\<lparr>mouse_byte := (mouse_byte s)(0 := b0, 1 := b1), mouse_pkt_idx := 2\<rparr>"
  let ?s3 = "s\<lparr>mouse_byte := (mouse_byte s)(0 := b0, 1 := b1, 2 := b2)\<rparr>"
  have h: "mouse_handler call status b0 s = Some (?s1, IRQ_HANDLED)" "mouse_handler call status b1 ?s1 = Some (?s2, IRQ_HANDLED)"
    using assms(3,4) by (simp_all add: mouse_handler_def Let_def)
  have i0: "s\<lparr>mouse_pkt_idx := 0\<rparr> = s" using assms(3) by (cases s rule: mouse.cases_scheme) simp
  have "?s2\<lparr>mouse_byte := (mouse_byte ?s2)(2 := b2), mouse_pkt_idx := 0\<rparr> =
      (s\<lparr>mouse_pkt_idx := 0\<rparr>)\<lparr>mouse_byte := (mouse_byte s)(0 := b0, 1 := b1, 2 := b2)\<rparr>" by simp
  then have z: "?s2\<lparr>mouse_byte := (mouse_byte ?s2)(2 := b2), mouse_pkt_idx := 0\<rparr> = ?s3" unfolding i0 .
  let ?evs = "[(EV_REL, REL_X, rel_x b0 b1), (EV_REL, REL_Y, - rel_y b0 b2), (EV_KEY, 0x110, uint (b0 AND 1)),
       (EV_KEY, 0x111, uint (drop_bit 1 b0 AND 1)), (EV_KEY, 0x112, uint (drop_bit 2 b0 AND 1)), (EV_SYN, SYN_REPORT, 0)]"
  have "mouse_handler call status b2 ?s2 = map_option (\<lambda>t. (t, IRQ_HANDLED)) (mouse_packet call ?s3)"
    unfolding z [symmetric] by (rule mouse_handler_third [OF assms(4)]) simp
  also have "mouse_packet call ?s3 = report_all call (mouse_dev s) ?evs ?s3"
    using assms(5) by (simp add: mouse_packet_def Let_def input_report_rel_def input_report_key_def report_all_fun bind_Some_id
        del: report_all.simps)
  also have "report_all call (mouse_dev s) ?evs ?s3 = Some (fold (\<lambda>(ty, code, v). deliver call (mouse_dev s)
      \<lparr>ev_timestamp = 0, ev_type = ty, ev_code = code, ev_value = v\<rparr> hs) ?evs ?s3)"
    by (rule report_all_rep [OF assms(1)]) (use assms(2) in simp)
  finally have p: "mouse_handler call status b2 ?s2 = Some (fold (\<lambda>(ty, code, v). deliver call (mouse_dev s)
      \<lparr>ev_timestamp = 0, ev_type = ty, ev_code = code, ev_value = v\<rparr> hs) ?evs ?s3, IRQ_HANDLED)" by (simp only: option.map)
  show ?thesis by (intro exI conjI) (rule h(1), rule h(2), rule p, rule refl)
qed

section \<open>Witnesses\<close>

theorem mouse_motion_misread_witness: "rel_x 0x10 (word_of_int (- 1)) = - 257 \<and> rel_y 0x10 (word_of_int 5) = 5"
proof -
  have "bit (0x10 :: u8) 4 \<longleftrightarrow> (- 1 :: int) < 0" "bit (0x10 :: u8) 5 \<longleftrightarrow> (5 :: int) < 0" by simp_all
  from mouse_motion_misread [OF _ _ this(1) _ _ this(2)] show ?thesis by simp
qed

definition demo_mouse :: mouse where
  "demo_mouse = sync.extend demo_sync \<lparr>in_links = INIT_LIST_HEAD 0x900 (\<lambda>_. \<lparr>lh_next = 0, lh_prev = 0\<rparr>), dev_objs = (\<lambda>_. zero_dev),
     handler_event = (\<lambda>_. 0), input_dev_list = 0x800, input_handler_list = 0x900, input_lock = demo_lock, mouse_dev = 0xA00,
     mouse_byte = (\<lambda>_. 0), mouse_pkt_idx = 0\<rparr>"

theorem mouse_packet_delivered_witness:
  "\<exists>s1 s2. mouse_handler (\<lambda>_ _ _ _ s. s) 0x21 8 demo_mouse = Some (s1, IRQ_HANDLED) \<and>
     mouse_handler (\<lambda>_ _ _ _ s. s) 0x21 5 s1 = Some (s2, IRQ_HANDLED)"
proof -
  have "quiet (\<lambda>_ _ _ _ s :: mouse. s)" by (simp add: quiet_def)
  moreover have "ring (in_links demo_mouse) (input_handler_list demo_mouse) (map handler_node [])" "mouse_pkt_idx demo_mouse = 0"
    by (simp_all add: demo_mouse_def sync.defs ring_init)
  moreover have "(0x21 :: u8) AND 0x20 \<noteq> 0" "(8 :: u8) AND 0xC0 = 0" by simp_all
  ultimately show ?thesis using mouse_packet_delivered [where call = "\<lambda>_ _ _ _ s. s" and s = demo_mouse] by blast
qed

end
