(* ===== verification/Lock_Interfaces.thy ===== *)
theory Lock_Interfaces
  imports Prelude
begin

text \<open>
  The contract of a lock, as a locale: the regions of its operations that run without interruption, how a client may
  call them, what the clients hold, and an invariant that ties the two together. The theories of the locks interpret
  it on their own regions.
\<close>

section \<open>Protocols of locks\<close>

text \<open>
  A region runs on the lock and on the state of the kernel, which says who runs. It may refuse; its flag says whether
  the caller was granted what it asked for. Between two regions the kernel may do anything that leaves the lock alone,
  so each region of a run starts in a kernel state of its own.
\<close>

locale lock_protocol =
  fixes region :: "'o \<Rightarrow> 'l \<Rightarrow> 'k \<Rightarrow> ('l \<times> 'k \<times> bool) option"
    and who :: "'k \<Rightarrow> u64"
    and allowed :: "'o \<Rightarrow> u64 \<Rightarrow> 'g \<Rightarrow> bool"
    and account :: "'o \<Rightarrow> u64 \<Rightarrow> bool \<Rightarrow> 'g \<Rightarrow> 'g"
    and inv :: "'l \<Rightarrow> 'g \<Rightarrow> bool"
  assumes region_inv: "inv l g \<Longrightarrow> who s \<noteq> 0 \<Longrightarrow> allowed a (who s) g \<Longrightarrow> region a l s = Some (l', s', granted) \<Longrightarrow>
      inv l' (account a (who s) granted g)"
begin

inductive run :: "'l \<Rightarrow> 'g \<Rightarrow> 'l \<Rightarrow> 'g \<Rightarrow> bool" for l0 g0 where
  start: "run l0 g0 l0 g0"
| step: "run l0 g0 l g \<Longrightarrow> who s \<noteq> 0 \<Longrightarrow> allowed a (who s) g \<Longrightarrow> region a l s = Some (l', s', granted) \<Longrightarrow>
    run l0 g0 l' (account a (who s) granted g)"

lemma run_inv: "run l0 g0 l g \<Longrightarrow> inv l0 g0 \<Longrightarrow> inv l g"
  by (induction rule: run.induct) (auto intro: region_inv)

end

end
