(* ===== verification/Locks.thy ===== *)
theory Locks
  imports Waitqueue Lock_Interfaces "HOL-Library.Multiset"
begin

text \<open>
  The locks built on wait queues: semaphores, recursive mutexes, barriers, condition variables and read-write locks,
  the second part of \<^verbatim>\<open>kernel/sync/waitqueue.c\<close>. A function that sleeps is given by the regions between its
  suspension points and by one round of its loop, which ends with the caller done or asleep; a process that is
  switched to again starts the next round. Mutual exclusion is shown for every interleaving of the regions.
\<close>

section \<open>Semaphores\<close>

record semaphore =
  sem_lock :: spinlock
  sem_count :: int
  sem_queue :: wait_queue

definition sem_init :: "semaphore \<Rightarrow> int \<Rightarrow> semaphore" where
  "sem_init sem n =
     sem\<lparr>sem_lock := spinlock_init (sem_lock sem), sem_queue := wait_queue_init (sem_queue sem), sem_count := n\<rparr>"

text \<open>The region of \<open>sem_wait\<close> under the lock: it tells whether the count was taken.\<close>

definition sem_try :: "semaphore \<Rightarrow> 'a sync_scheme \<Rightarrow> semaphore \<times> 'a sync_scheme \<times> bool" where
  "sem_try sem s =
     (let (lock1, s1) = spinlock_acquire (sem_lock sem) s;
          sem1 = sem\<lparr>sem_lock := lock1\<rparr>;
          taken = (sem_count sem1 > 0);
          sem2 = (if taken then sem1\<lparr>sem_count := sem_count sem1 - 1\<rparr> else sem1);
          (lock2, s2) = spinlock_release (sem_lock sem2) s1
      in (sem2\<lparr>sem_lock := lock2\<rparr>, s2, taken))"

definition sem_sleep :: "u64 \<Rightarrow> semaphore \<Rightarrow> 'a sync_scheme \<Rightarrow> (semaphore \<times> 'a sync_scheme) option" where
  "sem_sleep e sem s = map_option (\<lambda>(wq, s'). (sem\<lparr>sem_queue := wq\<rparr>, s')) (sleep_on e (sem_queue sem) s)"

definition sem_wait_round :: "u64 \<Rightarrow> semaphore \<Rightarrow> 'a sync_scheme \<Rightarrow> (semaphore \<times> 'a sync_scheme \<times> bool) option" where
  "sem_wait_round e sem s =
     (case sem_try sem s of
        (sem1, s1, True) \<Rightarrow> Some (sem1, s1, True)
      | (sem1, s1, False) \<Rightarrow> map_option (\<lambda>(sem2, s2). (sem2, s2, False)) (sem_sleep e sem1 s1))"

definition sem_add :: "semaphore \<Rightarrow> 'a sync_scheme \<Rightarrow> semaphore \<times> 'a sync_scheme" where
  "sem_add sem s =
     (let (lock1, s1) = spinlock_acquire (sem_lock sem) s;
          sem1 = sem\<lparr>sem_lock := lock1, sem_count := sem_count sem + 1\<rparr>;
          (lock2, s2) = spinlock_release (sem_lock sem1) s1
      in (sem1\<lparr>sem_lock := lock2\<rparr>, s2))"

definition sem_wake :: "semaphore \<Rightarrow> 'a sync_scheme \<Rightarrow> (semaphore \<times> 'a sync_scheme) option" where
  "sem_wake sem s = map_option (\<lambda>(wq, s'). (sem\<lparr>sem_queue := wq\<rparr>, s')) (wake_up (sem_queue sem) s)"

definition sem_post :: "semaphore \<Rightarrow> 'a sync_scheme \<Rightarrow> (semaphore \<times> 'a sync_scheme) option" where
  "sem_post sem s = (let (sem1, s1) = sem_add sem s in sem_wake sem1 s1)"

section \<open>Mutexes\<close>

record mutex =
  mx_lock :: spinlock
  mx_owner :: u64
  mx_recurse_count :: int
  mx_queue :: wait_queue

definition mutex_init :: "mutex \<Rightarrow> mutex" where
  "mutex_init mutex =
     mutex\<lparr>mx_lock := spinlock_init (mx_lock mutex), mx_queue := wait_queue_init (mx_queue mutex), mx_owner := 0,
           mx_recurse_count := 0\<rparr>"

text \<open>
  The region of \<open>mutex_lock\<close> under the lock: it tells whether the caller owns the mutex. If not, the owner is
  given at least the priority of the caller.
\<close>

definition mutex_try :: "mutex \<Rightarrow> 'a sync_scheme \<Rightarrow> (mutex \<times> 'a sync_scheme \<times> bool) option" where
  "mutex_try mutex s =
     (let me = current_process s;
          (lock1, s1) = spinlock_acquire (mx_lock mutex) s;
          m1 = mutex\<lparr>mx_lock := lock1\<rparr>;
          owner = mx_owner m1
      in case (if owner = 0 then Some (m1\<lparr>mx_owner := me, mx_recurse_count := 1\<rparr>, s1, True)
               else if owner = me then Some (m1\<lparr>mx_recurse_count := mx_recurse_count m1 + 1\<rparr>, s1, True)
               else if p_priority (procs s1 owner) > p_priority (procs s1 me)
                 then map_option (\<lambda>(s2, _). (m1, s2, False))
                        (process_set_priority (sint (ucast (p_pid (procs s1 owner)) :: u32)) (p_priority (procs s1 me)) s1)
               else Some (m1, s1, False)) of
           None \<Rightarrow> None
         | Some (m2, s2, owned) \<Rightarrow>
             (let (lock2, s3) = spinlock_release (mx_lock m2) s2 in Some (m2\<lparr>mx_lock := lock2\<rparr>, s3, owned)))"

definition mutex_sleep :: "u64 \<Rightarrow> mutex \<Rightarrow> 'a sync_scheme \<Rightarrow> (mutex \<times> 'a sync_scheme) option" where
  "mutex_sleep e mutex s = map_option (\<lambda>(wq, s'). (mutex\<lparr>mx_queue := wq\<rparr>, s')) (sleep_on e (mx_queue mutex) s)"

definition mutex_lock_round :: "u64 \<Rightarrow> mutex \<Rightarrow> 'a sync_scheme \<Rightarrow> (mutex \<times> 'a sync_scheme \<times> bool) option" where
  "mutex_lock_round e mutex s =
     (case mutex_try mutex s of
        None \<Rightarrow> None
      | Some (m1, s1, True) \<Rightarrow> Some (m1, s1, True)
      | Some (m1, s1, False) \<Rightarrow> map_option (\<lambda>(m2, s2). (m2, s2, False)) (mutex_sleep e m1 s1))"

text \<open>The region of \<open>mutex_unlock\<close> under the lock: it tells whether the mutex became free.\<close>

definition mutex_give :: "mutex \<Rightarrow> 'a sync_scheme \<Rightarrow> mutex \<times> 'a sync_scheme \<times> bool" where
  "mutex_give mutex s =
     (let (lock1, s1) = spinlock_acquire (mx_lock mutex) s;
          m1 = mutex\<lparr>mx_lock := lock1\<rparr>;
          m2 = (if mx_owner m1 = current_process s1 then m1\<lparr>mx_recurse_count := mx_recurse_count m1 - 1\<rparr> else m1);
          freed = (mx_owner m1 = current_process s1 \<and> mx_recurse_count m2 = 0);
          m3 = (if freed then m2\<lparr>mx_owner := 0\<rparr> else m2);
          (lock2, s2) = spinlock_release (mx_lock m3) s1
      in (m3\<lparr>mx_lock := lock2\<rparr>, s2, freed))"

definition mutex_wake :: "mutex \<Rightarrow> 'a sync_scheme \<Rightarrow> (mutex \<times> 'a sync_scheme) option" where
  "mutex_wake mutex s = map_option (\<lambda>(wq, s'). (mutex\<lparr>mx_queue := wq\<rparr>, s')) (wake_up (mx_queue mutex) s)"

definition mutex_unlock :: "mutex \<Rightarrow> 'a sync_scheme \<Rightarrow> (mutex \<times> 'a sync_scheme) option" where
  "mutex_unlock mutex s =
     (case mutex_give mutex s of (m1, s1, freed) \<Rightarrow> if freed then mutex_wake m1 s1 else Some (m1, s1))"

section \<open>Barriers and condition variables\<close>

record barrier =
  br_lock :: spinlock
  br_count :: int
  br_current :: int
  br_queue :: wait_queue

definition barrier_init :: "barrier \<Rightarrow> int \<Rightarrow> barrier" where
  "barrier_init barrier n =
     barrier\<lparr>br_lock := spinlock_init (br_lock barrier), br_queue := wait_queue_init (br_queue barrier), br_count := n,
             br_current := 0\<rparr>"

text \<open>The caller passes when the flag of the result is set; otherwise it sleeps until it passes.\<close>

definition barrier_wait :: "u64 \<Rightarrow> barrier \<Rightarrow> 'a sync_scheme \<Rightarrow> (barrier \<times> 'a sync_scheme \<times> bool) option" where
  "barrier_wait e barrier s =
     (let (lock1, s1) = spinlock_acquire (br_lock barrier) s;
          b1 = barrier\<lparr>br_lock := lock1, br_current := br_current barrier + 1\<rparr>
      in if br_current b1 \<ge> br_count b1 then
           (let b2 = b1\<lparr>br_current := 0\<rparr>;
                (lock2, s2) = spinlock_release (br_lock b2) s1
            in map_option (\<lambda>(wq, s3). (b2\<lparr>br_lock := lock2, br_queue := wq\<rparr>, s3, True)) (wake_up_all (br_queue b2) s2))
         else
           (let (lock2, s2) = spinlock_release (br_lock b1) s1
            in map_option (\<lambda>(wq, s3). (b1\<lparr>br_lock := lock2, br_queue := wq\<rparr>, s3, False)) (sleep_on e (br_queue b1) s2)))"

record cond =
  cond_queue :: wait_queue

definition cond_init :: "cond \<Rightarrow> cond" where
  "cond_init cond = cond\<lparr>cond_queue := wait_queue_init (cond_queue cond)\<rparr>"

text \<open>\<open>cond_wait\<close> up to the point where the caller is asleep; when it runs again it locks the mutex.\<close>

definition cond_wait :: "u64 \<Rightarrow> cond \<Rightarrow> mutex \<Rightarrow> 'a sync_scheme \<Rightarrow> (cond \<times> mutex \<times> 'a sync_scheme) option" where
  "cond_wait e cond mutex s =
     (case mutex_unlock mutex s of
        None \<Rightarrow> None
      | Some (m1, s1) \<Rightarrow> map_option (\<lambda>(wq, s2). (cond\<lparr>cond_queue := wq\<rparr>, m1, s2)) (sleep_on e (cond_queue cond) s1))"

definition cond_signal :: "cond \<Rightarrow> 'a sync_scheme \<Rightarrow> (cond \<times> 'a sync_scheme) option" where
  "cond_signal cond s = map_option (\<lambda>(wq, s1). (cond\<lparr>cond_queue := wq\<rparr>, s1)) (wake_up (cond_queue cond) s)"

definition cond_broadcast :: "cond \<Rightarrow> 'a sync_scheme \<Rightarrow> (cond \<times> 'a sync_scheme) option" where
  "cond_broadcast cond s = map_option (\<lambda>(wq, s1). (cond\<lparr>cond_queue := wq\<rparr>, s1)) (wake_up_all (cond_queue cond) s)"

section \<open>Read-write locks\<close>

record rwlock =
  rw_lock :: spinlock
  rw_readers :: int
  rw_writers :: int
  rw_read_queue :: wait_queue
  rw_write_queue :: wait_queue

definition rwlock_init :: "rwlock \<Rightarrow> rwlock" where
  "rwlock_init rw =
     rw\<lparr>rw_lock := spinlock_init (rw_lock rw), rw_read_queue := wait_queue_init (rw_read_queue rw),
        rw_write_queue := wait_queue_init (rw_write_queue rw), rw_readers := 0, rw_writers := 0\<rparr>"

definition rwlock_region :: "(rwlock \<Rightarrow> rwlock \<times> bool) \<Rightarrow> rwlock \<Rightarrow> 'a sync_scheme \<Rightarrow> rwlock \<times> 'a sync_scheme \<times> bool" where
  "rwlock_region f rw s =
     (let (lock1, s1) = spinlock_acquire (rw_lock rw) s;
          (rw1, b) = f (rw\<lparr>rw_lock := lock1\<rparr>);
          (lock2, s2) = spinlock_release (rw_lock rw1) s1
      in (rw1\<lparr>rw_lock := lock2\<rparr>, s2, b))"

definition read_try :: "rwlock \<Rightarrow> rwlock \<times> bool" where
  "read_try rw = (if rw_writers rw = 0 then (rw\<lparr>rw_readers := rw_readers rw + 1\<rparr>, True) else (rw, False))"

definition write_try :: "rwlock \<Rightarrow> rwlock \<times> bool" where
  "write_try rw = (if rw_writers rw = 0 \<and> rw_readers rw = 0 then (rw\<lparr>rw_writers := 1\<rparr>, True) else (rw, False))"

definition read_give :: "rwlock \<Rightarrow> rwlock \<times> bool" where
  "read_give rw = (let rw1 = rw\<lparr>rw_readers := rw_readers rw - 1\<rparr> in (rw1, rw_readers rw1 = 0))"

definition write_give :: "rwlock \<Rightarrow> rwlock \<times> bool" where
  "write_give rw = (rw\<lparr>rw_writers := 0\<rparr>, True)"

definition rw_read_sleep :: "u64 \<Rightarrow> rwlock \<Rightarrow> 'a sync_scheme \<Rightarrow> (rwlock \<times> 'a sync_scheme) option" where
  "rw_read_sleep e rw s = map_option (\<lambda>(wq, s'). (rw\<lparr>rw_read_queue := wq\<rparr>, s')) (sleep_on e (rw_read_queue rw) s)"

definition rw_write_sleep :: "u64 \<Rightarrow> rwlock \<Rightarrow> 'a sync_scheme \<Rightarrow> (rwlock \<times> 'a sync_scheme) option" where
  "rw_write_sleep e rw s = map_option (\<lambda>(wq, s'). (rw\<lparr>rw_write_queue := wq\<rparr>, s')) (sleep_on e (rw_write_queue rw) s)"

definition rwlock_read_lock_round :: "u64 \<Rightarrow> rwlock \<Rightarrow> 'a sync_scheme \<Rightarrow> (rwlock \<times> 'a sync_scheme \<times> bool) option" where
  "rwlock_read_lock_round e rw s =
     (case rwlock_region read_try rw s of
        (rw1, s1, True) \<Rightarrow> Some (rw1, s1, True)
      | (rw1, s1, False) \<Rightarrow> map_option (\<lambda>(rw2, s2). (rw2, s2, False)) (rw_read_sleep e rw1 s1))"

definition rwlock_write_lock_round :: "u64 \<Rightarrow> rwlock \<Rightarrow> 'a sync_scheme \<Rightarrow> (rwlock \<times> 'a sync_scheme \<times> bool) option" where
  "rwlock_write_lock_round e rw s =
     (case rwlock_region write_try rw s of
        (rw1, s1, True) \<Rightarrow> Some (rw1, s1, True)
      | (rw1, s1, False) \<Rightarrow> map_option (\<lambda>(rw2, s2). (rw2, s2, False)) (rw_write_sleep e rw1 s1))"

definition rw_wake_writer :: "rwlock \<Rightarrow> 'a sync_scheme \<Rightarrow> (rwlock \<times> 'a sync_scheme) option" where
  "rw_wake_writer rw s = map_option (\<lambda>(wq, s'). (rw\<lparr>rw_write_queue := wq\<rparr>, s')) (wake_up (rw_write_queue rw) s)"

definition rw_wake_readers :: "rwlock \<Rightarrow> 'a sync_scheme \<Rightarrow> (rwlock \<times> 'a sync_scheme) option" where
  "rw_wake_readers rw s = map_option (\<lambda>(wq, s'). (rw\<lparr>rw_read_queue := wq\<rparr>, s')) (wake_up_all (rw_read_queue rw) s)"

definition rwlock_read_unlock :: "rwlock \<Rightarrow> 'a sync_scheme \<Rightarrow> (rwlock \<times> 'a sync_scheme) option" where
  "rwlock_read_unlock rw s =
     (case rwlock_region read_give rw s of (rw1, s1, none_left) \<Rightarrow> if none_left then rw_wake_writer rw1 s1 else Some (rw1, s1))"

definition rwlock_write_unlock :: "rwlock \<Rightarrow> 'a sync_scheme \<Rightarrow> (rwlock \<times> 'a sync_scheme) option" where
  "rwlock_write_unlock rw s =
     (case rwlock_region write_give rw s of
        (rw1, s1, _) \<Rightarrow> (case rw_wake_readers rw1 s1 of None \<Rightarrow> None | Some (rw2, s2) \<Rightarrow> rw_wake_writer rw2 s2))"

section \<open>Exclusion\<close>

datatype sem_op = Sem_try | Sem_sleep u64 | Sem_add | Sem_wake

definition sem_region :: "sem_op \<Rightarrow> semaphore \<Rightarrow> 'a sync_scheme \<Rightarrow> (semaphore \<times> 'a sync_scheme \<times> bool) option" where
  "sem_region a sem s =
     (case a of
        Sem_try \<Rightarrow> Some (sem_try sem s)
      | Sem_sleep e \<Rightarrow> map_option (\<lambda>(sem1, s1). (sem1, s1, False)) (sem_sleep e sem s)
      | Sem_add \<Rightarrow> (case sem_add sem s of (sem1, s1) \<Rightarrow> Some (sem1, s1, True))
      | Sem_wake \<Rightarrow> map_option (\<lambda>(sem1, s1). (sem1, s1, False)) (sem_wake sem s))"

text \<open>The numbers of calls of \<open>sem_wait\<close> that went through, and of \<open>sem_post\<close>.\<close>

definition sem_account :: "sem_op \<Rightarrow> u64 \<Rightarrow> bool \<Rightarrow> nat \<times> nat \<Rightarrow> nat \<times> nat" where
  "sem_account a p granted g =
     (case a of
        Sem_try \<Rightarrow> if granted then (fst g + 1, snd g) else g
      | Sem_add \<Rightarrow> (fst g, snd g + 1)
      | _ \<Rightarrow> g)"

definition sem_inv :: "int \<Rightarrow> semaphore \<Rightarrow> nat \<times> nat \<Rightarrow> bool" where
  "sem_inv n sem g \<longleftrightarrow> sem_count sem = n + int (snd g) - int (fst g) \<and> (0 \<le> n \<longrightarrow> 0 \<le> sem_count sem)"

datatype mutex_op = Mx_try | Mx_sleep u64 | Mx_give | Mx_wake

definition mutex_region :: "mutex_op \<Rightarrow> mutex \<Rightarrow> 'a sync_scheme \<Rightarrow> (mutex \<times> 'a sync_scheme \<times> bool) option" where
  "mutex_region a mutex s =
     (case a of
        Mx_try \<Rightarrow> mutex_try mutex s
      | Mx_sleep e \<Rightarrow> map_option (\<lambda>(m1, s1). (m1, s1, False)) (mutex_sleep e mutex s)
      | Mx_give \<Rightarrow> Some (mutex_give mutex s)
      | Mx_wake \<Rightarrow> map_option (\<lambda>(m1, s1). (m1, s1, False)) (mutex_wake mutex s))"

text \<open>How often each process has locked the mutex and not unlocked it.\<close>

definition mutex_account :: "mutex_op \<Rightarrow> u64 \<Rightarrow> bool \<Rightarrow> (u64 \<Rightarrow> nat) \<Rightarrow> u64 \<Rightarrow> nat" where
  "mutex_account a p granted h =
     (case a of
        Mx_try \<Rightarrow> if granted then h(p := h p + 1) else h
      | Mx_give \<Rightarrow> h(p := h p - 1)
      | _ \<Rightarrow> h)"

definition mutex_inv :: "mutex \<Rightarrow> (u64 \<Rightarrow> nat) \<Rightarrow> bool" where
  "mutex_inv m h \<longleftrightarrow>
     (if mx_owner m = 0 then \<forall>q. h q = 0
      else mx_recurse_count m = int (h (mx_owner m)) \<and> 0 < h (mx_owner m) \<and> (\<forall>q. q \<noteq> mx_owner m \<longrightarrow> h q = 0))"

datatype rw_op = Read_try | Write_try | Read_sleep u64 | Write_sleep u64 | Read_give | Write_give | Wake_writer | Wake_readers

definition rw_region :: "rw_op \<Rightarrow> rwlock \<Rightarrow> 'a sync_scheme \<Rightarrow> (rwlock \<times> 'a sync_scheme \<times> bool) option" where
  "rw_region a rw s =
     (case a of
        Read_try \<Rightarrow> Some (rwlock_region read_try rw s)
      | Write_try \<Rightarrow> Some (rwlock_region write_try rw s)
      | Read_give \<Rightarrow> Some (rwlock_region read_give rw s)
      | Write_give \<Rightarrow> Some (rwlock_region write_give rw s)
      | Read_sleep e \<Rightarrow> map_option (\<lambda>(rw1, s1). (rw1, s1, False)) (rw_read_sleep e rw s)
      | Write_sleep e \<Rightarrow> map_option (\<lambda>(rw1, s1). (rw1, s1, False)) (rw_write_sleep e rw s)
      | Wake_writer \<Rightarrow> map_option (\<lambda>(rw1, s1). (rw1, s1, False)) (rw_wake_writer rw s)
      | Wake_readers \<Rightarrow> map_option (\<lambda>(rw1, s1). (rw1, s1, False)) (rw_wake_readers rw s))"

text \<open>The readers and the writers inside; only they may unlock.\<close>

definition rw_allowed :: "rw_op \<Rightarrow> u64 \<Rightarrow> u64 multiset \<times> u64 multiset \<Rightarrow> bool" where
  "rw_allowed a p g = (case a of Read_give \<Rightarrow> p \<in># fst g | Write_give \<Rightarrow> p \<in># snd g | _ \<Rightarrow> True)"

definition rw_account :: "rw_op \<Rightarrow> u64 \<Rightarrow> bool \<Rightarrow> u64 multiset \<times> u64 multiset \<Rightarrow> u64 multiset \<times> u64 multiset" where
  "rw_account a p granted g =
     (case a of
        Read_try \<Rightarrow> if granted then (add_mset p (fst g), snd g) else g
      | Write_try \<Rightarrow> if granted then (fst g, add_mset p (snd g)) else g
      | Read_give \<Rightarrow> (fst g - {#p#}, snd g)
      | Write_give \<Rightarrow> (fst g, snd g - {#p#})
      | _ \<Rightarrow> g)"

definition rw_inv :: "rwlock \<Rightarrow> u64 multiset \<times> u64 multiset \<Rightarrow> bool" where
  "rw_inv rw g \<longleftrightarrow> rw_readers rw = int (size (fst g)) \<and> rw_writers rw = int (size (snd g)) \<and> size (snd g) \<le> 1 \<and>
     (fst g = {#} \<or> snd g = {#})"

lemmas region_defs = spinlock_acquire_eq spinlock_release_def Let_def

interpretation sem: lock_protocol sem_region current_process "\<lambda>_ _ _. True" sem_account "sem_inv n" for n
proof
  fix l :: semaphore and g :: "nat \<times> nat" and s s' :: "'a sync_scheme" and a l' granted
  assume "sem_inv n l g" "sem_region a l s = Some (l', s', granted)"
  then show "sem_inv n l' (sem_account a (current_process s) granted g)"
    by (cases a) (auto simp: sem_region_def sem_inv_def sem_account_def sem_try_def sem_sleep_def sem_add_def sem_wake_def
        region_defs split: if_splits)
qed

lemma mutex_try_cases:
  assumes "mutex_try m s = Some (m', s', owned)"
  shows "owned \<Longrightarrow> mx_owner m = 0 \<and> mx_owner m' = current_process s \<and> mx_recurse_count m' = 1 \<or>
      mx_owner m = current_process s \<and> mx_owner m' = current_process s \<and> mx_recurse_count m' = mx_recurse_count m + 1"
    and "\<not> owned \<Longrightarrow> mx_owner m' = mx_owner m \<and> mx_recurse_count m' = mx_recurse_count m"
  using assms by (auto simp: mutex_try_def region_defs split: if_splits option.splits)

interpretation mx: lock_protocol mutex_region current_process "\<lambda>_ _ _. True" mutex_account mutex_inv
proof
  fix l :: mutex and h :: "u64 \<Rightarrow> nat" and s s' :: "'a sync_scheme" and a l' granted
  assume i: "mutex_inv l h" and c: "current_process s \<noteq> 0" and r: "mutex_region a l s = Some (l', s', granted)"
  show "mutex_inv l' (mutex_account a (current_process s) granted h)"
  proof (cases a)
    case Mx_try
    then show ?thesis using i c r mutex_try_cases [of l s l' s' granted]
      by (cases granted) (auto simp: mutex_region_def mutex_inv_def mutex_account_def split: if_splits)
  next
    case Mx_give
    then show ?thesis using i c r
      by (auto simp: mutex_region_def mutex_inv_def mutex_account_def mutex_give_def region_defs split: if_splits)
  qed (use i r in \<open>auto simp: mutex_region_def mutex_inv_def mutex_account_def mutex_sleep_def mutex_wake_def split: if_splits\<close>)
qed

interpretation rw: lock_protocol rw_region current_process rw_allowed rw_account rw_inv
proof
  fix l :: rwlock and g :: "u64 multiset \<times> u64 multiset" and s s' :: "'a sync_scheme" and a l' granted
  assume i: "rw_inv l g" and p: "rw_allowed a (current_process s) g" and r: "rw_region a l s = Some (l', s', granted)"
  show "rw_inv l' (rw_account a (current_process s) granted g)"
    using i p r by (cases a) (auto simp: rw_region_def rw_inv_def rw_allowed_def rw_account_def rwlock_region_def read_try_def
      write_try_def read_give_def write_give_def rw_read_sleep_def rw_write_sleep_def rw_wake_writer_def rw_wake_readers_def
      region_defs dest!: multi_member_split split: if_splits)
qed

section \<open>Locks without waiters\<close>

lemma region_none [simp]: "(cli s)\<lparr>k_rflags := k_rflags s\<rparr> = s"
  by (simp add: cli_def)

lemma wake_up_none:
  "wq_head wq = 0 \<Longrightarrow> wake_up wq s = Some (wq\<lparr>wq_lock := free_lock (k_rflags s) (wq_lock wq)\<rparr>, s)"
  by (simp add: wake_up_def spinlock_acquire_eq release_after_acquire)

lemma wake_up_all_none:
  "wq_head wq = 0 \<Longrightarrow> wake_up_all wq s = Some (wq\<lparr>wq_lock := free_lock (k_rflags s) (wq_lock wq)\<rparr>, s)"
  by (simp add: wake_up_all_def spinlock_acquire_eq release_after_acquire wake_loop.simps)

definition mutex_idle :: "mutex \<Rightarrow> bool" where
  "mutex_idle m \<longleftrightarrow> mx_owner m = 0 \<and> wq_head (mx_queue m) = 0"

definition mutex_held :: "mutex \<Rightarrow> u64 \<Rightarrow> bool" where
  "mutex_held m p \<longleftrightarrow> mx_owner m = p \<and> mx_recurse_count m = 1 \<and> wq_head (mx_queue m) = 0"

lemma mutex_lock_idle:
  assumes "mutex_idle m"
  shows "\<exists>m'. mutex_lock_round e m s = Some (m', s, True) \<and> mutex_held m' (current_process s)"
  using assms by (simp add: mutex_idle_def mutex_held_def mutex_lock_round_def mutex_try_def spinlock_acquire_eq release_after_acquire)

lemma mutex_unlock_held:
  assumes "mutex_held m (current_process s)"
  shows "\<exists>m'. mutex_unlock m s = Some (m', s) \<and> mutex_idle m'"
  using assms by (simp add: mutex_idle_def mutex_held_def mutex_unlock_def mutex_give_def mutex_wake_def Let_def
      spinlock_acquire_eq release_after_acquire wake_up_none)

text \<open>
  A lost wake-up: the caller of \<open>sem_wait\<close> finds the count 0 and releases the lock of the semaphore. Before it is
  queued another process posts, and finds nobody to wake. The caller then sleeps although the count is 1.
\<close>

lemma sem_try_count:
  "sem_try sem s = (sem1, s1, b) \<Longrightarrow> sem_count sem1 = (if b then sem_count sem - 1 else sem_count sem) \<and> sem_queue sem1 = sem_queue sem"
  by (auto simp: sem_try_def region_defs split: if_splits)

lemma sem_wait_misses_post:
  assumes "sem_count sem = 0" and "wq_head (sem_queue sem) = 0" and "wq_tail (sem_queue sem) = 0"
    and "sem_try sem s = (sem1, s1, b)" and "sem_post sem1 s2 = Some (sem2, s3)"
    and "sched_rep s4 qs" and "current_process s4 \<noteq> 0" and "current_process s4 \<notin> in_queues qs"
    and "p_sched_class (current s4) \<noteq> No_class" and "e \<noteq> 0"
  shows "\<not> b \<and> (\<exists>sem3 s5. sem_sleep e sem2 s4 = Some (sem3, s5) \<and> sem_count sem3 = 1 \<and>
    p_state (procs s5 (current_process s4)) = BLOCKED \<and> waiters s5 [e] = [current_process s4])"
proof -
  have b: "\<not> b" using assms(1,4) by (auto simp: sem_try_def region_defs split: if_splits)
  have "sem_count sem1 = 0" "wq_head (sem_queue sem1) = 0" "wq_tail (sem_queue sem1) = 0"
    using sem_try_count [OF assms(4)] assms(1-3) b by simp_all
  then have s2: "sem_count sem2 = 1" "wq_head (sem_queue sem2) = 0" "wq_tail (sem_queue sem2) = 0"
    using assms(5) by (auto simp: sem_post_def sem_add_def sem_wake_def region_defs wake_up_none split: if_splits)
  obtain qs' nxt where lp: "list_pick qs = (qs', nxt)" by fastforce
  have "wq_state s4 (sem_queue sem2) qs []" using assms(6) s2 by (simp add: wq_state_def waiters_def fifo_empty)
  from sleep_on_state [OF this assms(10) _ assms(7,8) _ assms(9) lp]
  obtain wq' s5 where w: "sleep_on e (sem_queue sem2) s4 = Some (wq', s5)" "wq_state s5 wq' qs' [e]" "waiters s5 [e] = [current_process s4]"
    by (auto simp: waiters_def)
  then have "p_state (procs s5 (current_process s4)) = BLOCKED" by (simp add: wq_state_def)
  with b w s2(1) show ?thesis by (simp add: sem_sleep_def)
qed

section \<open>Properties\<close>




section \<open>Witnesses\<close>

definition demo_mutex :: mutex where
  "demo_mutex = \<lparr>mx_lock = demo_lock, mx_owner = 0, mx_recurse_count = 0, mx_queue = demo_wq\<rparr>"

definition demo_sem :: semaphore where
  "demo_sem = \<lparr>sem_lock = demo_lock, sem_count = 0, sem_queue = demo_wq\<rparr>"

definition demo_rw :: rwlock where
  "demo_rw = \<lparr>rw_lock = demo_lock, rw_readers = 0, rw_writers = 0, rw_read_queue = demo_wq, rw_write_queue = demo_wq\<rparr>"




end
