(* ===== verification/Irq.thy ===== *)
theory Irq
  imports Locks Input
begin

text \<open>
  The interrupt lines: \<^verbatim>\<open>kernel/drivers/core/irq.c\<close>. Each of the sixteen lines has a chain of actions, typed
  objects on the kernel heap. What the handlers do is a parameter. The thread of an action, which waits for the
  semaphore of the action, is left out, and so are the messages on the console.
\<close>

section \<open>Actions\<close>

record irqaction =
  ia_handler :: u64
  ia_thread_fn :: u64
  ia_thread :: u64
  ia_wake_sem :: semaphore
  ia_should_stop :: int
  ia_flags :: u64
  ia_name :: u64
  ia_dev_id :: u64
  ia_next :: u64

record irqs = sync +
  irq_desc :: "nat \<Rightarrow> u64"
  action_objs :: "u64 \<Rightarrow> irqaction"
  sym_irq_thread :: u64

definition NR_IRQS :: u32 where "NR_IRQS = 16"
definition IRQF_SHARED :: u64 where "IRQF_SHARED = 0x80"
definition sizeof_irqaction :: u64 where "sizeof_irqaction = 152"

definition upd_action :: "u64 \<Rightarrow> (irqaction \<Rightarrow> irqaction) \<Rightarrow> 'a irqs_scheme \<Rightarrow> 'a irqs_scheme" where
  "upd_action p f s = s\<lparr>action_objs := (action_objs s)(p := f (action_objs s p))\<rparr>"

abbreviation action_next :: "'a irqs_scheme \<Rightarrow> u64 \<Rightarrow> u64" where
  "action_next s p \<equiv> ia_next (action_objs s p)"

section \<open>Requesting a line\<close>

definition new_action :: "u64 \<Rightarrow> u64 \<Rightarrow> u64 \<Rightarrow> u64 \<Rightarrow> u64 \<Rightarrow> irqaction \<Rightarrow> irqaction" where
  "new_action handler thread_fn flags name dev a =
     a\<lparr>ia_handler := handler, ia_thread_fn := thread_fn, ia_flags := flags, ia_name := name, ia_dev_id := dev, ia_next := 0,
       ia_should_stop := 0\<rparr>"

text \<open>The thread of the action, or null for an action that cannot have one although it asks for it.\<close>

definition start_thread :: "u64 \<Rightarrow> u64 \<Rightarrow> 'a irqs_scheme \<Rightarrow> ('a irqs_scheme \<times> bool) option" where
  "start_thread thread_fn action s =
     (if thread_fn \<noteq> 0 then
        (let s1 = upd_action action (\<lambda>a. a\<lparr>ia_wake_sem := sem_init (ia_wake_sem a) 0\<rparr>) s
         in map_option (\<lambda>(s2, p). (upd_action action (\<lambda>a. a\<lparr>ia_thread := p\<rparr>) s2, p \<noteq> 0))
              (process_create_kthread (sym_irq_thread s1) action s1))
      else Some (upd_action action (\<lambda>a. a\<lparr>ia_thread := 0\<rparr>) s, True))"

definition chain_action :: "nat \<Rightarrow> u64 \<Rightarrow> u64 \<Rightarrow> 'a irqs_scheme \<Rightarrow> ('a irqs_scheme \<times> int) option" where
  "chain_action irq action flags s =
     (let first = irq_desc s irq
      in if first = 0 then Some (s\<lparr>irq_desc := (irq_desc s)(irq := action)\<rparr>, 0)
         else if ia_flags (action_objs s first) AND IRQF_SHARED \<noteq> 0 \<and> flags AND IRQF_SHARED \<noteq> 0
         then map_option (\<lambda>(_, curr). (upd_action curr (\<lambda>a. a\<lparr>ia_next := action\<rparr>) s, 0))
                (walk (\<lambda>p. action_next s p = 0) (action_next s) 0 first)
         else Some (s\<lparr>k_heap := kfree action (k_heap s)\<rparr>, - 1))"

definition request_threaded_irq ::
  "u32 \<Rightarrow> u64 \<Rightarrow> u64 \<Rightarrow> u64 \<Rightarrow> u64 \<Rightarrow> u64 \<Rightarrow> 'a irqs_scheme \<Rightarrow> ('a irqs_scheme \<times> int) option" where
  "request_threaded_irq irq handler thread_fn flags name dev s =
     (if irq \<ge> NR_IRQS then Some (s, - 1)
      else if handler = 0 \<and> thread_fn = 0 then Some (s, - 1)
      else
        (case kmalloc sizeof_irqaction (k_heap s) of
           None \<Rightarrow> None
         | Some (h, action) \<Rightarrow>
             if action = 0 then Some (s\<lparr>k_heap := h\<rparr>, - 1)
             else
               (case start_thread thread_fn action
                       (upd_action action (new_action handler thread_fn flags name dev) (s\<lparr>k_heap := h\<rparr>)) of
                  None \<Rightarrow> None
                | Some (s1, False) \<Rightarrow> Some (s1\<lparr>k_heap := kfree action (k_heap s1)\<rparr>, - 1)
                | Some (s1, True) \<Rightarrow> chain_action (unat irq) action flags s1)))"

definition request_irq :: "u32 \<Rightarrow> u64 \<Rightarrow> u64 \<Rightarrow> u64 \<Rightarrow> u64 \<Rightarrow> 'a irqs_scheme \<Rightarrow> ('a irqs_scheme \<times> int) option" where
  "request_irq irq handler flags name dev s = request_threaded_irq irq handler 0 flags name dev s"

section \<open>Giving a line back\<close>

text \<open>The place that holds the pointer to an action: the entry of the line, or the link in the action before.\<close>

definition set_link :: "nat \<Rightarrow> u64 \<Rightarrow> u64 \<Rightarrow> 'a irqs_scheme \<Rightarrow> 'a irqs_scheme" where
  "set_link irq prev p s =
     (if prev = 0 then s\<lparr>irq_desc := (irq_desc s)(irq := p)\<rparr> else upd_action prev (\<lambda>a. a\<lparr>ia_next := p\<rparr>) s)"

definition post_action :: "u64 \<Rightarrow> 'a irqs_scheme \<Rightarrow> 'a irqs_scheme option" where
  "post_action action s =
     map_option (\<lambda>(sem, s1). upd_action action (\<lambda>a. a\<lparr>ia_wake_sem := sem\<rparr>) s1) (sem_post (ia_wake_sem (action_objs s action)) s)"

definition free_irq :: "u32 \<Rightarrow> u64 \<Rightarrow> 'a irqs_scheme \<Rightarrow> 'a irqs_scheme option" where
  "free_irq irq dev s =
     (if irq \<ge> NR_IRQS then Some s
      else
        (case walk (\<lambda>p. ia_dev_id (action_objs s p) = dev) (action_next s) 0 (irq_desc s (unat irq)) of
           None \<Rightarrow> None
         | Some (prev, to_free) \<Rightarrow>
             if to_free = 0 then Some s
             else
               (let s1 = set_link (unat irq) prev (action_next s to_free) s
                in if ia_thread (action_objs s1 to_free) \<noteq> 0
                   then post_action to_free (upd_action to_free (\<lambda>a. a\<lparr>ia_should_stop := 1\<rparr>) s1)
                   else Some (s1\<lparr>k_heap := kfree to_free (k_heap s1)\<rparr>))))"

section \<open>An interrupt\<close>

text \<open>The parameter \<open>call\<close> runs the handler at an address with its two arguments; it need not return.\<close>

definition run_action ::
  "(u64 \<Rightarrow> u32 \<Rightarrow> u64 \<Rightarrow> 'a irqs_scheme \<Rightarrow> ('a irqs_scheme \<times> irqreturn) option) \<Rightarrow> u32 \<Rightarrow> u64 \<Rightarrow> 'a irqs_scheme \<Rightarrow>
     'a irqs_scheme option" where
  "run_action call irq action s =
     (let a = action_objs s action
      in Option.bind (if ia_handler a \<noteq> 0 then call (ia_handler a) irq (ia_dev_id a) s else Some (s, IRQ_WAKE_THREAD))
           (\<lambda>(s1, ret). if ret = IRQ_WAKE_THREAD \<and> ia_thread (action_objs s1 action) \<noteq> 0 then post_action action s1 else Some s1))"

partial_function (option) irq_loop ::
  "(u64 \<Rightarrow> u32 \<Rightarrow> u64 \<Rightarrow> 'a irqs_scheme \<Rightarrow> ('a irqs_scheme \<times> irqreturn) option) \<Rightarrow> u32 \<Rightarrow> u64 \<Rightarrow> 'a irqs_scheme \<Rightarrow>
     'a irqs_scheme option" where
  "irq_loop call irq action s =
     (if action = 0 then Some s
      else Option.bind (run_action call irq action s) (\<lambda>s1. irq_loop call irq (action_next s1 action) s1))"

definition generic_handle_irq ::
  "(u64 \<Rightarrow> u32 \<Rightarrow> u64 \<Rightarrow> 'a irqs_scheme \<Rightarrow> ('a irqs_scheme \<times> irqreturn) option) \<Rightarrow> u32 \<Rightarrow> 'a irqs_scheme \<Rightarrow>
     'a irqs_scheme option" where
  "generic_handle_irq call irq s = (if irq \<ge> NR_IRQS then Some s else irq_loop call irq (irq_desc s (unat irq)) s)"

section \<open>The chains of the lines\<close>

text \<open>Actions without a thread on every line.\<close>

definition irq_ok :: "'a irqs_scheme \<Rightarrow> (nat \<Rightarrow> u64 list) \<Rightarrow> bool" where
  "irq_ok s ch \<longleftrightarrow>
     heap_ok (k_heap s) \<and>
     (\<forall>i<16. chain (action_next s) (irq_desc s i) (ch i) \<and> set (ch i) \<subseteq> heap_live (k_heap s) \<and>
       (\<forall>a\<in>set (ch i). ia_thread (action_objs s a) = 0)) \<and>
     (\<forall>i<16. \<forall>j<16. i \<noteq> j \<longrightarrow> set (ch i) \<inter> set (ch j) = {})"

lemma unat_irq: "irq < NR_IRQS \<Longrightarrow> unat irq < 16"
  by (simp add: NR_IRQS_def word_less_nat_alt)

lemma upd_action_simps [simp]:
  "action_objs (upd_action p f s) = (action_objs s)(p := f (action_objs s p))" "irq_desc (upd_action p f s) = irq_desc s"
  "k_heap (upd_action p f s) = k_heap s"
  by (simp_all add: upd_action_def)

lemma action_next_upd: "(\<lambda>p. action_next (upd_action q (\<lambda>a. a\<lparr>ia_next := n\<rparr>) s) p) = (action_next s)(q := n)"
  by auto

lemma start_thread_none: "start_thread 0 action s = Some (upd_action action (\<lambda>a. a\<lparr>ia_thread := 0\<rparr>) s, True)"
  by (simp add: start_thread_def)

lemma irq_ok_outside:
  assumes "irq_ok s ch" and "\<forall>a. a \<in> heap_live (k_heap s) \<longrightarrow> action_objs s' a = action_objs s a" and "irq_desc s' = irq_desc s"
    and "heap_ok (k_heap s')" and "heap_live (k_heap s) \<subseteq> heap_live (k_heap s')"
  shows "irq_ok s' ch"
proof -
  have "chain (action_next s') (irq_desc s' i) (ch i) \<and> set (ch i) \<subseteq> heap_live (k_heap s') \<and>
      (\<forall>a\<in>set (ch i). ia_thread (action_objs s' a) = 0)" if i: "i < 16" for i
  proof -
    have l: "set (ch i) \<subseteq> heap_live (k_heap s)" "chain (action_next s) (irq_desc s i) (ch i)"
      "\<forall>a\<in>set (ch i). ia_thread (action_objs s a) = 0" using assms(1) i by (simp_all add: irq_ok_def)
    then have "action_objs s' a = action_objs s a" if "a \<in> set (ch i)" for a using assms(2) that by blast
    with l chain_cong [of "ch i" "action_next s'" "action_next s"] assms(3,5) show ?thesis by auto
  qed
  then show ?thesis using assms(1,4) by (simp add: irq_ok_def)
qed

text \<open>Putting an action that belongs to no line behind a chain.\<close>

lemma irq_ok_append:
  assumes ok: "irq_ok s ch" and i: "i < 16" and a: "a \<noteq> 0" "a \<in> heap_live (k_heap s)" "\<forall>j<16. a \<notin> set (ch j)"
    "action_next s a = 0" "ia_thread (action_objs s a) = 0"
  shows "irq_ok (set_link i (last0 (ch i)) a s) (ch(i := ch i @ [a]))"
proof -
  have c: "chain (action_next s) (irq_desc s j) (ch j)" if "j < 16" for j using ok that by (simp add: irq_ok_def)
  have dj: "set (ch i) \<inter> set (ch j) = {}" if "j < 16" "j \<noteq> i" for j using ok that i by (simp add: irq_ok_def)
  have f: "fifo (action_next s) (irq_desc s i) (last0 (ch i)) (ch i)" using c [OF i] by (simp add: fifo_def)
  let ?s = "set_link i (last0 (ch i)) a s"
  have "chain (action_next ?s) (irq_desc ?s j) ((ch(i := ch i @ [a])) j)" if j: "j < 16" for j
  proof (cases "ch i = []")
    case True
    then show ?thesis using c [OF j] a by (simp add: set_link_def)
  next
    case False
    have z: "last0 (ch i) \<noteq> 0" "last0 (ch i) \<in> set (ch i)"
      using chain_nonzero [OF c [OF i]] last_in_set [OF False] False by (metis last0_def)+
    then have n: "action_next ?s = (action_next s)(last0 (ch i) := a)" "irq_desc ?s = irq_desc s" by (auto simp: set_link_def)
    show ?thesis
    proof (cases "j = i")
      case True
      with fifo_push(2) [OF f a(1) _ a(4) False] a(3) i show ?thesis unfolding n by (simp add: fifo_def)
    next
      case False
      with dj [OF j False] z have "last0 (ch i) \<notin> set (ch j)" by blast
      with c [OF j] False show ?thesis unfolding n by simp
    qed
  qed
  moreover have "k_heap ?s = k_heap s" "ia_thread (action_objs ?s b) = ia_thread (action_objs s b)" for b by (simp_all add: set_link_def)
  ultimately show ?thesis using ok a i by (auto simp: irq_ok_def)
qed

lemma last0_chain_end:
  assumes "chain nxt p xs" and "xs \<noteq> []"
  shows "walk (\<lambda>q. nxt q = 0) nxt 0 p = Some (if butlast xs = [] then 0 else last (butlast xs), last0 xs)"
proof -
  obtain as b where xs: "xs = as @ [b]" using assms(2) by (cases xs rule: rev_cases) auto
  have nz: "nxt q \<noteq> 0" if q: "q \<in> set as" for q
  proof -
    obtain us vs where as: "as = us @ q # vs" using split_list [OF q] by blast
    have "nxt q = hd0 (vs @ [b])" using chain_next [of nxt p us q "vs @ [b]"] assms(1) xs as by simp
    moreover have "hd0 (vs @ [b]) \<in> set xs" using xs as by (cases vs) auto
    ultimately show ?thesis using chain_nonzero [OF assms(1)] by auto
  qed
  have e: "nxt b = 0" using chain_next [of nxt p as b "[]"] assms(1) xs by simp
  have "takeWhile (\<lambda>q. nxt q \<noteq> 0) xs = as" "dropWhile (\<lambda>q. nxt q \<noteq> 0) xs = [b]"
    using nz e xs by (auto simp: takeWhile_append dropWhile_append)
  with walk_chain [OF assms(1), of "\<lambda>q. nxt q = 0" 0] xs show ?thesis by (simp add: last0_def)
qed

section \<open>Requests\<close>

text \<open>The line takes the action when it is free, or shared by its first action and the new one.\<close>

definition line_open :: "'a irqs_scheme \<Rightarrow> u64 list \<Rightarrow> u64 \<Rightarrow> bool" where
  "line_open s as flags \<longleftrightarrow>
     as = [] \<or> ia_flags (action_objs s (hd as)) AND IRQF_SHARED \<noteq> 0 \<and> flags AND IRQF_SHARED \<noteq> 0"

lemma chain_action_rep:
  assumes "chain (action_next s) (irq_desc s i) as"
  shows "chain_action i action flags s =
    (if line_open s as flags then Some (set_link i (last0 as) action s, 0) else Some (s\<lparr>k_heap := kfree action (k_heap s)\<rparr>, - 1))"
proof (cases as)
  case Nil
  then show ?thesis using assms by (simp add: chain_action_def line_open_def set_link_def)
next
  case (Cons b bs)
  have z: "last0 as \<noteq> 0" using chain_nonzero [OF assms] Cons last_in_set [of as] by (metis last0_def list.distinct(1))
  have "irq_desc s i = b" "b \<noteq> 0" using assms Cons by simp_all
  with z Cons show ?thesis
    using last0_chain_end [OF assms] by (simp add: chain_action_def line_open_def set_link_def Let_def)
qed

text \<open>A new action is chained, or freed again.\<close>

lemma chain_new_action:
  assumes ok: "irq_ok s ch" and i: "i < 16" and a: "a \<noteq> 0" "a \<notin> heap_live (k_heap s)"
    and h: "heap_ok h" "heap_live h = insert a (heap_live (k_heap s))"
    and s1: "s1 = upd_action a (\<lambda>x. x\<lparr>ia_thread := 0\<rparr>) (upd_action a (new_action handler 0 flags name dev) (s\<lparr>k_heap := h\<rparr>))"
  shows "\<exists>s' r. chain_action i a flags s1 = Some (s', r) \<and>
    (r = - 1 \<and> irq_ok s' ch \<and> heap_live (k_heap s') = heap_live (k_heap s) \<or>
     r = 0 \<and> line_open s (ch i) flags \<and> irq_ok s' (ch(i := ch i @ [a])) \<and> ia_handler (action_objs s' a) = handler \<and>
       ia_dev_id (action_objs s' a) = dev \<and> ia_flags (action_objs s' a) = flags)"
proof -
  have f: "k_heap s1 = h" "irq_desc s1 = irq_desc s" "action_next s1 a = 0" "ia_thread (action_objs s1 a) = 0"
    "ia_handler (action_objs s1 a) = handler" "ia_dev_id (action_objs s1 a) = dev" "ia_flags (action_objs s1 a) = flags"
    by (simp_all add: s1 new_action_def)
  have keep: "\<forall>b. b \<in> heap_live (k_heap s) \<longrightarrow> action_objs s1 b = action_objs s b" using a(2) by (auto simp: s1)
  have ok1: "irq_ok s1 ch" by (rule irq_ok_outside [OF ok keep]) (use f h in auto)
  have out: "\<forall>j<16. a \<notin> set (ch j)" using ok a(2) by (auto simp: irq_ok_def)
  have c: "chain (action_next s1) (irq_desc s1 i) (ch i)" using ok1 i by (simp add: irq_ok_def)
  have lo: "line_open s1 (ch i) flags = line_open s (ch i) flags"
  proof (cases "ch i")
    case (Cons b bs)
    then have "action_objs s1 b = action_objs s b" using ok i keep by (auto simp: irq_ok_def)
    then show ?thesis by (simp add: line_open_def Cons)
  qed (simp add: line_open_def)
  show ?thesis
  proof (cases "line_open s (ch i) flags")
    case True
    have "irq_ok (set_link i (last0 (ch i)) a s1) (ch(i := ch i @ [a]))"
      by (rule irq_ok_append [OF ok1 i a(1) _ out f(3,4)]) (simp add: f h)
    then show ?thesis using chain_action_rep [OF c, of a flags] True lo f(5-7) by (auto simp: set_link_def)
  next
    case False
    have fr: "heap_ok (kfree a h)" "heap_live (kfree a h) = heap_live (k_heap s)" using kfree_ok [OF h(1), of a] h a by auto
    have "irq_ok (s1\<lparr>k_heap := kfree a (k_heap s1)\<rparr>) ch" by (rule irq_ok_outside [OF ok]) (use keep f fr in auto)
    then show ?thesis using chain_action_rep [OF c, of a flags] False lo fr(2) f(1) by auto
  qed
qed

lemma request_irq_ok:
  assumes ok: "irq_ok s ch" and irq: "irq < NR_IRQS" and hd: "handler \<noteq> 0" and i: "i = unat irq"
  shows "\<exists>s' r. request_irq irq handler flags name dev s = Some (s', r) \<and>
    (r = - 1 \<and> irq_ok s' ch \<and> heap_live (k_heap s') = heap_live (k_heap s) \<or>
     r = 0 \<and> line_open s (ch i) flags \<and>
     (\<exists>a. a \<notin> heap_live (k_heap s) \<and> irq_ok s' (ch(i := ch i @ [a])) \<and> ia_handler (action_objs s' a) = handler \<and>
       ia_dev_id (action_objs s' a) = dev \<and> ia_flags (action_objs s' a) = flags))"
proof -
  have hk: "heap_ok (k_heap s)" using ok by (simp add: irq_ok_def)
  obtain h a where k: "kmalloc sizeof_irqaction (k_heap s) = Some (h, a)" "heap_ok h"
    and ha: "a = 0 \<and> h = k_heap s \<or> a \<noteq> 0 \<and> a \<notin> heap_live (k_heap s) \<and> heap_live h = insert a (heap_live (k_heap s))"
    using kmalloc_step [OF hk, of sizeof_irqaction] by blast
  have q: "\<not> NR_IRQS \<le> irq" using irq by simp
  show ?thesis
  proof (cases "a = 0")
    case True
    then have "request_irq irq handler flags name dev s = Some (s\<lparr>k_heap := h\<rparr>, - 1)"
      using k(1) q hd by (simp add: request_irq_def request_threaded_irq_def)
    moreover have "irq_ok (s\<lparr>k_heap := h\<rparr>) ch" using ha True ok by (auto simp: irq_ok_def)
    ultimately show ?thesis using ha True by auto
  next
    case False
    then have a: "a \<notin> heap_live (k_heap s)" "heap_live h = insert a (heap_live (k_heap s))" using ha by auto
    let ?s1 = "upd_action a (\<lambda>x. x\<lparr>ia_thread := 0\<rparr>) (upd_action a (new_action handler 0 flags name dev) (s\<lparr>k_heap := h\<rparr>))"
    have "request_irq irq handler flags name dev s = chain_action i a flags ?s1"
      using k(1) q hd False by (simp add: request_irq_def request_threaded_irq_def start_thread_none i)
    moreover have "i < 16" using unat_irq irq i by simp
    ultimately show ?thesis
      using chain_new_action [OF ok _ False a(1) k(2) a(2) refl, of i flags handler name dev] a(1) by fastforce
  qed
qed

section \<open>Releases\<close>

lemma irq_ok_remove:
  assumes ok: "irq_ok s ch" and i: "i < 16" and ch: "ch i = as @ a # bs"
  shows "irq_ok ((set_link i (last0 as) (action_next s a) s)\<lparr>k_heap := kfree a (k_heap s)\<rparr>) (ch(i := as @ bs))"
    (is "irq_ok ?s _")
proof -
  have c: "chain (action_next s) (irq_desc s j) (ch j)" "set (ch j) \<subseteq> heap_live (k_heap s)" if "j < 16" for j
    using ok that by (simp_all add: irq_ok_def)
  have dj: "set (ch i) \<inter> set (ch j) = {}" if "j < 16" "j \<noteq> i" for j using ok that i by (simp add: irq_ok_def)
  have ci: "chain (action_next s) (irq_desc s i) (as @ a # bs)" using c(1) [OF i] ch by simp
  have d: "a \<notin> set (as @ bs)" using chain_distinct [OF ci] by simp
  have hl: "heap_ok (kfree a (k_heap s))" "heap_live (kfree a (k_heap s)) = heap_live (k_heap s) - {a}"
    using kfree_ok [of "k_heap s" a] ok c(2) [OF i] ch by (auto simp: irq_ok_def)
  have "chain (action_next ?s) (irq_desc ?s j) ((ch(i := as @ bs)) j)" if j: "j < 16" for j
  proof (cases "as = []")
    case True
    then show ?thesis using c(1) [OF j] chain_remove(1) [OF ci] by (simp add: set_link_def)
  next
    case False
    have "last as \<in> set as" using False by simp
    moreover from this have "last as \<noteq> 0" using chain_nonzero [OF ci] by force
    ultimately have z: "last0 as = last as" "last as \<noteq> 0" "last as \<in> set as" using False by (simp_all add: last0_def)
    then have n: "action_next ?s = (action_next s)(last as := action_next s a)" "irq_desc ?s = irq_desc s" by (auto simp: set_link_def)
    show ?thesis
    proof (cases "j = i")
      case True
      then show ?thesis unfolding n using chain_remove(2) [OF ci False] by simp
    next
      case ne: False
      with dj [OF j ne] z ch have "last as \<notin> set (ch j)" by auto
      with c(1) [OF j] ne show ?thesis unfolding n by simp
    qed
  qed
  moreover have th: "ia_thread (action_objs ?s b) = ia_thread (action_objs s b)" for b by (simp add: set_link_def)
  moreover have sub: "set ((ch(i := as @ bs)) j) \<subseteq> set (ch j)" for j using ch by auto
  moreover have "set ((ch(i := as @ bs)) j) \<subseteq> heap_live (k_heap ?s)" if "j < 16" for j
    using c(2) [OF that] sub [of j] dj [OF that] d ch hl(2) by (cases "j = i") auto
  moreover have "ia_thread (action_objs ?s b) = 0" if "j < 16" "b \<in> set ((ch(i := as @ bs)) j)" for j b
    using th sub [of j] that ok by (auto simp: irq_ok_def)
  moreover have "set ((ch(i := as @ bs)) j) \<inter> set ((ch(i := as @ bs)) l) = {}" if "j < 16" "l < 16" "j \<noteq> l" for j l
    using sub [of j] sub [of l] that ok unfolding irq_ok_def by blast
  moreover have "heap_ok (k_heap ?s)" using hl(1) by simp
  ultimately show ?thesis unfolding irq_ok_def by blast
qed

definition drop_dev :: "'a irqs_scheme \<Rightarrow> u64 \<Rightarrow> u64 list \<Rightarrow> u64 list" where
  "drop_dev s dev as =
     takeWhile (\<lambda>a. ia_dev_id (action_objs s a) \<noteq> dev) as @ tl (dropWhile (\<lambda>a. ia_dev_id (action_objs s a) \<noteq> dev) as)"

lemma free_irq_ok:
  assumes ok: "irq_ok s ch" and irq: "irq < NR_IRQS" and i: "i = unat irq"
  shows "\<exists>s'. free_irq irq dev s = Some s' \<and> irq_ok s' (ch(i := drop_dev s dev (ch i))) \<and>
    heap_live (k_heap s') = heap_live (k_heap s) - (set (ch i) - set (drop_dev s dev (ch i)))"
proof -
  let ?P = "\<lambda>a. ia_dev_id (action_objs s a) \<noteq> dev"
  have i16: "i < 16" using unat_irq irq i by simp
  have q: "\<not> NR_IRQS \<le> irq" using irq by simp
  have c: "chain (action_next s) (irq_desc s i) (ch i)" using ok i16 by (simp add: irq_ok_def)
  note w = walk_chain [OF c, of "\<lambda>a. ia_dev_id (action_objs s a) = dev" 0]
  have sp: "ch i = takeWhile ?P (ch i) @ dropWhile ?P (ch i)" by simp
  show ?thesis
  proof (cases "dropWhile ?P (ch i)")
    case Nil
    then have "drop_dev s dev (ch i) = ch i" using sp unfolding drop_dev_def Nil by simp
    then show ?thesis using w Nil q ok by (simp add: free_irq_def i [symmetric])
  next
    case (Cons a bs)
    define as where "as = takeWhile ?P (ch i)"
    have ch: "ch i = as @ a # bs" "drop_dev s dev (ch i) = as @ bs" using sp Cons by (simp_all add: as_def drop_dev_def)
    have a: "a \<noteq> 0" "a \<in> heap_live (k_heap s)" "ia_thread (action_objs s a) = 0" "a \<notin> set (as @ bs)"
      using chain_nonzero [OF c] chain_distinct [OF c] ok i16 ch by (auto simp: irq_ok_def)
    have w': "walk (\<lambda>a. ia_dev_id (action_objs s a) = dev) (action_next s) 0 (irq_desc s i) = Some (last0 as, a)"
      unfolding w Cons as_def [symmetric] by (simp add: last0_def)
    let ?s1 = "set_link i (last0 as) (action_next s a) s"
    have "ia_thread (action_objs ?s1 a) = 0" "k_heap ?s1 = k_heap s" using a(3) by (auto simp: set_link_def)
    then have "free_irq irq dev s = Some (?s1\<lparr>k_heap := kfree a (k_heap s)\<rparr>)"
      using w' q a(1) by (simp add: free_irq_def i [symmetric] Let_def)
    moreover have "heap_live (kfree a (k_heap s)) = heap_live (k_heap s) - {a}"
      using kfree_ok(2) [of "k_heap s" a] ok a(2) by (simp add: irq_ok_def)
    ultimately show ?thesis using irq_ok_remove [OF ok i16 ch(1)] ch a(4) by auto
  qed
qed

section \<open>Dispatch\<close>

text \<open>Handlers that return and leave the chains alone.\<close>

definition steady :: "(u64 \<Rightarrow> u32 \<Rightarrow> u64 \<Rightarrow> 'a irqs_scheme \<Rightarrow> ('a irqs_scheme \<times> irqreturn) option) \<Rightarrow> bool" where
  "steady call \<longleftrightarrow> (\<forall>f irq d s. \<exists>s' r. call f irq d s = Some (s', r) \<and> action_objs s' = action_objs s)"

definition handled ::
  "(u64 \<Rightarrow> u32 \<Rightarrow> u64 \<Rightarrow> 'a irqs_scheme \<Rightarrow> ('a irqs_scheme \<times> irqreturn) option) \<Rightarrow> u32 \<Rightarrow> u64 \<Rightarrow> 'a irqs_scheme \<Rightarrow> 'a irqs_scheme" where
  "handled call irq a s =
     (if ia_handler (action_objs s a) \<noteq> 0 then fst (the (call (ia_handler (action_objs s a)) irq (ia_dev_id (action_objs s a)) s)) else s)"

lemma irq_loop_chain:
  assumes "steady call" and "chain (action_next s) p as" and "\<forall>a\<in>set as. ia_thread (action_objs s a) = 0"
  shows "irq_loop call irq p s = Some (fold (handled call irq) as s)"
  using assms(2,3)
proof (induction as arbitrary: p s)
  case Nil
  then show ?case by (subst irq_loop.simps) simp
next
  case (Cons a as)
  obtain s' r where c: "call (ia_handler (action_objs s a)) irq (ia_dev_id (action_objs s a)) s = Some (s', r)" "action_objs s' = action_objs s"
    using assms(1) unfolding steady_def by blast
  then have "run_action call irq a s = Some (handled call irq a s)" "action_objs (handled call irq a s) = action_objs s"
    using Cons.prems(2) by (simp_all add: run_action_def handled_def)
  then show ?case using Cons by (subst irq_loop.simps) simp
qed

section \<open>Properties\<close>


section \<open>A witness\<close>

definition demo_irqs :: irqs where
  "demo_irqs = sync.extend demo_sync \<lparr>irq_desc = (\<lambda>_. 0), action_objs = (\<lambda>_. \<lparr>ia_handler = 0, ia_thread_fn = 0, ia_thread = 0,
     ia_wake_sem = demo_sem, ia_should_stop = 0, ia_flags = 0, ia_name = 0, ia_dev_id = 0, ia_next = 0\<rparr>), sym_irq_thread = 0x4000\<rparr>"


end
