(* ===== verification/Keyboard.thy ===== *)
theory Keyboard
  imports Input
begin

text \<open>
  The keyboard driver: \<^verbatim>\<open>kernel/drivers/char/keyboard.c\<close>. Its ring interprets the contract of a bounded buffer.
  The scan code that the controller delivers is an argument of the interrupt handler. A reader that finds the ring empty
  sleeps; when it runs again it looks for signals first.
\<close>

section \<open>Keys\<close>

text \<open>The characters of the keys without and with shift; the rest of each table is zero.\<close>

definition kbd_us :: "u8 list" where
  "kbd_us =
     [0, 27, 49, 50, 51, 52, 53, 54, 55, 56, 57, 48, 45, 61, 8, 9, 113, 119, 101, 114, 116, 121, 117, 105, 111, 112,
      91, 93, 10, 0, 97, 115, 100, 102, 103, 104, 106, 107, 108, 59, 39, 96, 0, 92, 122, 120, 99, 118, 98, 110, 109,
      44, 46, 47, 0, 42, 0, 32, 0, 0, 0, 0, 0, 0, 0, 0, 0, 0, 0, 0, 0, 0, 0, 0, 45, 0, 0, 0, 43, 0, 0, 0, 0, 0, 0, 0,
      0, 0, 0, 0]"

definition kbd_us_shift :: "u8 list" where
  "kbd_us_shift =
     [0, 27, 33, 64, 35, 36, 37, 94, 38, 42, 40, 41, 95, 43, 8, 9, 81, 87, 69, 82, 84, 89, 85, 73, 79, 80, 123, 125,
      10, 0, 65, 83, 68, 70, 71, 72, 74, 75, 76, 58, 34, 126, 0, 124, 90, 88, 67, 86, 66, 78, 77, 60, 62, 63, 0, 42,
      0, 32, 0, 0, 0, 0, 0, 0, 0, 0, 0, 0, 0, 0, 0, 0, 0, 0, 45, 0, 0, 0, 43, 0, 0, 0, 0, 0, 0, 0, 0, 0, 0, 0]"

definition table_char :: "u8 list \<Rightarrow> u8 \<Rightarrow> u8" where
  "table_char tbl scancode = (if unat scancode < length tbl then tbl ! unat scancode else 0)"

section \<open>The ring\<close>

definition KBD_BUFFER_SIZE :: int where "KBD_BUFFER_SIZE = 256"
definition EINTR :: int where "EINTR = 4"
definition SIGINT :: nat where "SIGINT = 2"

record kbd_ring =
  kbd_buffer :: "int \<Rightarrow> u8"
  kbd_write_idx :: int
  kbd_read_idx :: int

record kbd = kbd_ring +
  shift_pressed :: bool
  ctrl_pressed :: bool
  kbd_input_dev :: u64
  kbd_wq :: wait_queue

record keyboard = inputs +
  kb :: kbd

definition kbd_put :: "u8 \<Rightarrow> 'a kbd_ring_scheme \<Rightarrow> 'a kbd_ring_scheme \<times> bool" where
  "kbd_put c k =
     (let next_write = (kbd_write_idx k + 1) mod KBD_BUFFER_SIZE
      in if next_write \<noteq> kbd_read_idx k
         then (k\<lparr>kbd_buffer := (kbd_buffer k)(kbd_write_idx k := c), kbd_write_idx := next_write\<rparr>, True) else (k, False))"

definition kbd_get :: "'a kbd_ring_scheme \<Rightarrow> 'a kbd_ring_scheme \<times> u8 option" where
  "kbd_get k =
     (if kbd_read_idx k = kbd_write_idx k then (k, None)
      else (k\<lparr>kbd_read_idx := (kbd_read_idx k + 1) mod KBD_BUFFER_SIZE\<rparr>, Some (kbd_buffer k (kbd_read_idx k))))"

section \<open>The interrupt handler\<close>

text \<open>The character of a key that is pressed, or 0; with control only the interrupt character is known.\<close>

definition kbd_char :: "'a kbd_scheme \<Rightarrow> u8 \<Rightarrow> u8" where
  "kbd_char k scancode =
     (if ctrl_pressed k then (if scancode = 0x2E then 3 else 0)
      else if shift_pressed k then table_char kbd_us_shift scancode else table_char kbd_us scancode)"

definition kbd_report ::
  "(u64 \<Rightarrow> u64 \<Rightarrow> u64 \<Rightarrow> input_event \<Rightarrow> 'a keyboard_scheme \<Rightarrow> 'a keyboard_scheme) \<Rightarrow> u8 \<Rightarrow> 'a keyboard_scheme \<Rightarrow>
     'a keyboard_scheme option" where
  "kbd_report call scancode s =
     (let dev = kbd_input_dev (kb s)
      in if dev = 0 then Some s
         else Option.bind (input_report_event call dev EV_KEY (ucast (scancode AND 0x7F)) (if scancode AND 0x80 \<noteq> 0 then 0 else 1) s)
                (input_sync call dev))"

definition keyboard_handler ::
  "(u64 \<Rightarrow> u64 \<Rightarrow> u64 \<Rightarrow> input_event \<Rightarrow> 'a keyboard_scheme \<Rightarrow> 'a keyboard_scheme) \<Rightarrow> u8 \<Rightarrow> 'a keyboard_scheme \<Rightarrow>
     ('a keyboard_scheme \<times> irqreturn) option" where
  "keyboard_handler call scancode s =
     (case kbd_report call scancode s of
        None \<Rightarrow> None
      | Some s1 \<Rightarrow>
          if scancode = 0x2A \<or> scancode = 0x36 then Some (s1\<lparr>kb := (kb s1)\<lparr>shift_pressed := True\<rparr>\<rparr>, IRQ_HANDLED)
          else if scancode = 0xAA \<or> scancode = 0xB6 then Some (s1\<lparr>kb := (kb s1)\<lparr>shift_pressed := False\<rparr>\<rparr>, IRQ_HANDLED)
          else if scancode = 0x1D then Some (s1\<lparr>kb := (kb s1)\<lparr>ctrl_pressed := True\<rparr>\<rparr>, IRQ_HANDLED)
          else if scancode = 0x9D then Some (s1\<lparr>kb := (kb s1)\<lparr>ctrl_pressed := False\<rparr>\<rparr>, IRQ_HANDLED)
          else if scancode AND 0x80 \<noteq> 0 then Some (s1, IRQ_HANDLED)
          else
            (let c = kbd_char (kb s1) scancode;
                 s2 = (if ctrl_pressed (kb s1) \<and> scancode = 0x2E \<and> current_process s1 \<noteq> 0
                       then upd_current (\<lambda>x. x\<lparr>p_pending_signals := p_pending_signals x OR push_bit SIGINT 1\<rparr>) s1 else s1)
             in if c = 0 then Some (s2, IRQ_HANDLED)
                else
                  (case kbd_put c (kb s2) of
                     (_, False) \<Rightarrow> Some (s2, IRQ_HANDLED)
                   | (k, True) \<Rightarrow>
                       map_option (\<lambda>(wq, s3). (s3\<lparr>kb := k\<lparr>kbd_wq := wq\<rparr>\<rparr>, IRQ_HANDLED)) (wake_up (kbd_wq k) s2))))"

section \<open>Reading\<close>

datatype kbd_call = Kbd_returns int | Kbd_sleeps

text \<open>A reader asleep has read nothing yet.\<close>

function kbd_read_loop :: "u64 \<Rightarrow> u64 \<Rightarrow> int \<Rightarrow> int \<Rightarrow> 'a keyboard_scheme \<Rightarrow> ('a keyboard_scheme \<times> kbd_call) option" where
  "kbd_read_loop e buf n done s =
     (if done < n then
        (case kbd_get (kb s) of
           (_, None) \<Rightarrow>
             if done > 0 then Some (s, Kbd_returns done)
             else map_option (\<lambda>(wq, s1). (s1\<lparr>kb := (kb s1)\<lparr>kbd_wq := wq\<rparr>\<rparr>, Kbd_sleeps)) (sleep_on e (kbd_wq (kb s)) s)
         | (k, Some c) \<Rightarrow>
             (let s1 = s\<lparr>kb := k\<rparr>
              in kbd_read_loop e buf n (done + 1) (set_mem ((k_mem s1)(buf + of_int done := c)) s1)))
      else Some (s, Kbd_returns done))"
  by pat_completeness auto
termination by (relation "measure (\<lambda>(_, _, n, d, _). nat (n - d))") auto

declare kbd_read_loop.simps [simp del]

definition kbd_read :: "u64 \<Rightarrow> u64 \<Rightarrow> int \<Rightarrow> 'a keyboard_scheme \<Rightarrow> ('a keyboard_scheme \<times> kbd_call) option" where
  "kbd_read e buf n s = kbd_read_loop e buf n 0 s"

text \<open>What a reader does when it runs again.\<close>

definition kbd_read_resume :: "u64 \<Rightarrow> u64 \<Rightarrow> int \<Rightarrow> 'a keyboard_scheme \<Rightarrow> ('a keyboard_scheme \<times> kbd_call) option" where
  "kbd_read_resume e buf n s =
     (if current_process s \<noteq> 0 \<and> p_pending_signals (current s) \<noteq> 0 then Some (s, Kbd_returns (- EINTR))
      else kbd_read_loop e buf n 0 s)"

section \<open>The ring is a bounded buffer\<close>

definition kbd_rep :: "'a kbd_ring_scheme \<Rightarrow> u8 list \<Rightarrow> bool" where
  "kbd_rep k xs \<longleftrightarrow>
     ring_rep KBD_BUFFER_SIZE (kbd_buffer k) (kbd_read_idx k) xs \<and>
     kbd_write_idx k = (kbd_read_idx k + int (length xs)) mod KBD_BUFFER_SIZE \<and> int (length xs) < KBD_BUFFER_SIZE"

definition same_kbd :: "'a kbd_ring_scheme \<Rightarrow> 'a kbd_ring_scheme \<Rightarrow> bool" where
  "same_kbd k l \<longleftrightarrow> kbd_buffer k = kbd_buffer l \<and> kbd_write_idx k = kbd_write_idx l \<and> kbd_read_idx k = kbd_read_idx l"

lemma ring_distance:
  assumes "0 \<le> r" and "r < n" and "0 \<le> d" and "d < n"
  shows "(r + d) mod n = r \<longleftrightarrow> d = (0 :: int)"
proof
  assume "(r + d) mod n = r"
  then have "(r + d) mod n = (r + 0) mod n" using assms by simp
  then have "n dvd (r + d) - (r + 0)" by (metis mod_eq_dvd_iff)
  then show "d = 0" using assms zdvd_imp_le [of n d] by (cases "d = 0") auto
qed (use assms in simp)

interpretation kbq: bounded_buffer kbd_put kbd_get kbd_rep same_kbd 255
proof
  fix s :: "'a kbd_ring_scheme" and xs x
  assume r: "kbd_rep s xs"
  then have l: "0 \<le> kbd_read_idx s" "kbd_read_idx s < 256" "int (length xs) < 256"
    and w: "kbd_write_idx s = (kbd_read_idx s + int (length xs)) mod 256"
    by (auto simp: kbd_rep_def ring_rep_def KBD_BUFFER_SIZE_def)
  then show "length xs \<le> 255" by simp
  have nw: "(kbd_write_idx s + 1) mod 256 = (kbd_read_idx s + (1 + int (length xs))) mod 256"
    unfolding w by (simp add: mod_simps algebra_simps)
  show "\<exists>s'. kbd_put x s = (s', length xs < 255) \<and> kbd_rep s' (if length xs < 255 then xs @ [x] else xs)"
  proof (cases "length xs < 255")
    case True
    then have "(kbd_write_idx s + 1) mod 256 \<noteq> kbd_read_idx s"
      using ring_distance [OF l(1,2), of "1 + int (length xs)"] unfolding nw by simp
    moreover have "ring_rep 256 ((kbd_buffer s)(kbd_write_idx s := x)) (kbd_read_idx s) (xs @ [x])"
      using ring_push [of 256 "kbd_buffer s" "kbd_read_idx s" xs x] r l w by (simp add: kbd_rep_def KBD_BUFFER_SIZE_def)
    ultimately show ?thesis using True nw by (simp add: kbd_put_def kbd_rep_def KBD_BUFFER_SIZE_def add.commute)
  next
    case False
    then have "int (length xs) = 255" using l by simp
    then have "(kbd_write_idx s + 1) mod 256 = kbd_read_idx s" using l unfolding nw by simp
    then show ?thesis using False r by (simp add: kbd_put_def KBD_BUFFER_SIZE_def)
  qed
  have e: "kbd_read_idx s = kbd_write_idx s \<longleftrightarrow> xs = []"
    using ring_distance [OF l(1,2), of "int (length xs)"] l(3) unfolding w by auto
  show "\<exists>s'. kbd_get s = (s', case xs of [] \<Rightarrow> None | x # _ \<Rightarrow> Some x) \<and> kbd_rep s' (tl xs)"
  proof (cases xs)
    case (Cons y ys)
    have p: "kbd_buffer s (kbd_read_idx s) = y" "ring_rep 256 (kbd_buffer s) ((kbd_read_idx s + 1) mod 256) ys"
      using ring_pop [of 256 "kbd_buffer s" "kbd_read_idx s" y ys] r Cons by (simp_all add: kbd_rep_def KBD_BUFFER_SIZE_def)
    have "kbd_write_idx s = ((kbd_read_idx s + 1) mod 256 + int (length ys)) mod 256"
      unfolding w Cons by (simp add: mod_simps algebra_simps)
    then show ?thesis using p e l Cons by (simp add: kbd_get_def kbd_rep_def KBD_BUFFER_SIZE_def)
  qed (use e r in \<open>simp add: kbd_get_def\<close>)
qed (simp add: kbd_rep_def same_kbd_def)

lemma kbd_rep_same: "kbd_rep k xs \<Longrightarrow> same_kbd k l \<Longrightarrow> kbd_rep l xs"
  by (rule kbq.same_rep)

section \<open>A key press\<close>

lemma wq_state_pending:
  "wq_state s wq qs es \<Longrightarrow> wq_state (upd_proc p (\<lambda>x. x\<lparr>p_pending_signals := f x\<rparr>) s) wq qs es"
  by (auto simp: wq_state_def waiters_def intro: sched_rep_cong)

lemma wake_up_any:
  assumes "wq_state s wq qs es"
  shows "\<exists>wq' s' qs'. wake_up wq s = Some (wq', s') \<and> wq_state s' wq' qs' (tl es)"
proof (cases es)
  case Nil
  then have "wq_head wq = 0" using assms by (simp add: wq_state_def fifo_def)
  with assms Nil have "wq_state s (wq\<lparr>wq_lock := l\<rparr>) qs []" for l by (simp add: wq_state_def)
  with \<open>wq_head wq = 0\<close> Nil show ?thesis
    by (auto simp: wake_up_def spinlock_acquire_eq release_after_acquire cli_def)
next
  case (Cons e es')
  then show ?thesis using wake_up_state [of s wq qs e es'] assms by auto
qed

definition key_press :: "u8 \<Rightarrow> bool" where
  "key_press scancode \<longleftrightarrow> scancode AND 0x80 = 0 \<and> scancode \<notin> {0x2A, 0x36, 0x1D}"

lemma key_press_codes: "key_press scancode \<Longrightarrow> scancode \<noteq> 0xAA \<and> scancode \<noteq> 0xB6 \<and> scancode \<noteq> 0x9D"
  by (auto simp: key_press_def)

lemma keyboard_handler_press:
  assumes "kbd_report call scancode s = Some s1" and "key_press scancode"
  shows "\<exists>s2. keyboard_handler call scancode s =
      (if kbd_char (kb s1) scancode = 0 then Some (s2, IRQ_HANDLED)
       else (case kbd_put (kbd_char (kb s1) scancode) (kb s1) of
               (_, False) \<Rightarrow> Some (s2, IRQ_HANDLED)
             | (k, True) \<Rightarrow> map_option (\<lambda>(wq, s3). (s3\<lparr>kb := k\<lparr>kbd_wq := wq\<rparr>\<rparr>, IRQ_HANDLED)) (wake_up (kbd_wq k) s2))) \<and>
    kb s2 = kb s1 \<and> (\<forall>wq qs es. wq_state s1 wq qs es \<longrightarrow> wq_state s2 wq qs es)"
proof -
  define s2 where "s2 = (if ctrl_pressed (kb s1) \<and> scancode = 0x2E \<and> current_process s1 \<noteq> 0
    then upd_current (\<lambda>x. x\<lparr>p_pending_signals := p_pending_signals x OR push_bit SIGINT 1\<rparr>) s1 else s1)"
  have k: "kb s2 = kb s1" by (simp add: s2_def upd_proc_def)
  have "wq_state s2 wq qs es" if "wq_state s1 wq qs es" for wq qs es using wq_state_pending [OF that] that by (simp add: s2_def)
  moreover have "scancode AND 0x80 = 0" "scancode \<noteq> 0x2A" "scancode \<noteq> 0x36" "scancode \<noteq> 0x1D"
    using assms(2) by (simp_all add: key_press_def)
  ultimately show ?thesis using key_press_codes [OF assms(2)]
    by (intro exI [of _ s2]) (simp only: keyboard_handler_def assms(1) option.case Let_def s2_def [symmetric] k simp_thms if_False, blast)
qed

lemma keyboard_press:
  assumes rep: "kbd_rep (kb s1) xs" and rp: "kbd_report call scancode s = Some s1" and kp: "key_press scancode"
    and wq: "wq_state s1 (kbd_wq (kb s1)) qs es"
    and c: "c = kbd_char (kb s1) scancode" and st: "st \<longleftrightarrow> c \<noteq> 0 \<and> length xs < 255"
  shows "\<exists>s' qs'. keyboard_handler call scancode s = Some (s', IRQ_HANDLED) \<and>
    kbd_rep (kb s') (if st then xs @ [c] else xs) \<and> wq_state s' (kbd_wq (kb s')) qs' (if st then tl es else es)"
proof -
  obtain s2 where h: "keyboard_handler call scancode s =
      (if c = 0 then Some (s2, IRQ_HANDLED)
       else (case kbd_put c (kb s1) of
               (_, False) \<Rightarrow> Some (s2, IRQ_HANDLED)
             | (k, True) \<Rightarrow> map_option (\<lambda>(wq, s3). (s3\<lparr>kb := k\<lparr>kbd_wq := wq\<rparr>\<rparr>, IRQ_HANDLED)) (wake_up (kbd_wq k) s2)))"
    and s2: "kb s2 = kb s1" "wq_state s2 (kbd_wq (kb s1)) qs es"
    using keyboard_handler_press [OF rp kp] wq unfolding c by blast
  obtain k where k: "kbd_put c (kb s1) = (k, length xs < 255)" "kbd_rep k (if length xs < 255 then xs @ [c] else xs)"
    using kbq.put_spec [OF rep, of c] by blast
  show ?thesis
  proof (cases st)
    case True
    have kw: "kbd_wq k = kbd_wq (kb s1)" using k(1) by (auto simp: kbd_put_def Let_def split: if_splits)
    obtain wq' s3 qs' where w: "wake_up (kbd_wq k) s2 = Some (wq', s3)" "wq_state s3 wq' qs' (tl es)"
      using wake_up_any [OF s2(2)] unfolding kw by blast
    have "kbd_rep (k\<lparr>kbd_wq := wq'\<rparr>) (xs @ [c])" using k(2) True st by (auto intro: kbd_rep_same simp: same_kbd_def)
    moreover have "wq_state (s3\<lparr>kb := k'\<rparr>) wq' qs' (tl es)" for k'
      using w(2) by (auto simp: wq_state_def waiters_def intro: sched_rep_cong)
    ultimately show ?thesis using h k(1) w(1) True st by auto
  next
    case False
    then show ?thesis using h k(1) st s2 rep by (auto split: if_splits)
  qed
qed

section \<open>Reading\<close>

lemma kbd_read_loop_rep:
  assumes "kbd_rep (kb s) xs" and "xs \<noteq> [] \<or> 0 < d" and "0 \<le> d" and "d \<le> n" and "l = min (n - d) (int (length xs))"
  shows "\<exists>s'. kbd_read_loop e buf n d s = Some (s', Kbd_returns (d + l)) \<and> kbd_rep (kb s') (drop (nat l) xs) \<and>
    (\<forall>i<nat l. k_mem s' (buf + of_int d + of_nat i) = xs ! i) \<and>
    (\<forall>a. (\<forall>i<nat l. a \<noteq> buf + of_int d + of_nat i) \<longrightarrow> k_mem s' a = k_mem s a)"
  using assms
proof (induction xs arbitrary: d s l)
  case Nil
  then show ?case using kbq.get_spec [OF Nil.prems(1)] by (subst kbd_read_loop.simps) auto
next
  case (Cons x xs)
  show ?case
  proof (cases "d < n")
    case True
    obtain k where k: "kbd_get (kb s) = (k, Some x)" "kbd_rep k xs" using kbq.get_spec [OF Cons.prems(1)] by auto
    define s1 where "s1 = set_mem ((k_mem s)(buf + of_int d := x)) (s\<lparr>kb := k\<rparr>)"
    have s1: "kb s1 = k" "k_mem s1 = (k_mem s)(buf + of_int d := x)" by (simp_all add: s1_def set_mem_def)
    define l' where "l' = min (n - (d + 1)) (int (length xs))"
    obtain s' where s': "kbd_read_loop e buf n (d + 1) s1 = Some (s', Kbd_returns (d + 1 + l'))" "kbd_rep (kb s') (drop (nat l') xs)"
      "\<And>i. i < nat l' \<Longrightarrow> k_mem s' (buf + of_int (d + 1) + of_nat i) = xs ! i"
      "\<And>a. (\<forall>i<nat l'. a \<noteq> buf + of_int (d + 1) + of_nat i) \<Longrightarrow> k_mem s' a = k_mem s1 a"
      using Cons.IH [of s1 "d + 1" l'] k(2) s1(1) Cons.prems(3) True by (auto simp: l'_def)
    have l: "l = l' + 1" "0 \<le> l'" "nat l' < 256" using Cons.prems(1,4,5) True
      by (auto simp: l'_def kbd_rep_def KBD_BUFFER_SIZE_def)
    have a: "buf + of_int d + of_nat (Suc i) = buf + of_int (d + 1) + of_nat i" for i by simp
    have z: "buf + of_int d \<noteq> buf + of_int (d + 1) + of_nat i" if "i < nat l'" for i
    proof -
      have "unat (of_nat (Suc i) :: u64) = Suc i" using that l(3) by (intro unat_of_nat_small) simp
      then have "(of_nat (Suc i) :: u64) \<noteq> 0" by (metis Suc_neq_Zero unat_0)
      then show ?thesis unfolding a [symmetric] by (simp del: of_nat_Suc)
    qed
    have st: "kbd_read_loop e buf n d s = Some (s', Kbd_returns (d + l))"
      using s'(1) k(1) True l(1) by (subst kbd_read_loop.simps) (simp add: s1_def Let_def add.assoc add.commute)
    have m: "k_mem s' (buf + of_int d + of_nat i) = (x # xs) ! i" if "i < nat l" for i
    proof (cases i)
      case 0
      then show ?thesis using s'(4) [of "buf + of_int d"] z s1(2) by auto
    next
      case (Suc j)
      then show ?thesis using s'(3) [of j] that l unfolding Suc a by simp
    qed
    have o: "k_mem s' b = k_mem s b" if b: "\<forall>i<nat l. b \<noteq> buf + of_int d + of_nat i" for b
    proof -
      have "b \<noteq> buf + of_int (d + 1) + of_nat i" if "i < nat l'" for i
        using b [rule_format, of "Suc i"] that l unfolding a by simp
      moreover have "b \<noteq> buf + of_int d" using b l by (auto dest: spec [of _ 0])
      ultimately show ?thesis using s'(4) [of b] s1(2) by simp
    qed
    show ?thesis using st s'(2) m o l by (intro exI [of _ s']) (simp add: nat_add_distrib)
  next
    case False
    then have "l = 0" "d = n" using Cons.prems(4,5) by auto
    then show ?thesis using Cons.prems(1) by (subst kbd_read_loop.simps) simp
  qed
qed

lemma kbd_read_empty:
  assumes rep: "kbd_rep (kb s) []" and n: "0 < n" and st: "wq_state s (kbd_wq (kb s)) qs es" and e: "e \<noteq> 0" "e \<notin> set es"
    and cur: "current_process s \<noteq> 0" "current_process s \<notin> in_queues qs" "current_process s \<notin> set (waiters s es)"
      "p_sched_class (current s) \<noteq> No_class"
  shows "\<exists>s' qs'. kbd_read e buf n s = Some (s', Kbd_sleeps) \<and> wq_state s' (kbd_wq (kb s')) qs' (es @ [e]) \<and>
    waiters s' (es @ [e]) = waiters s es @ [current_process s]"
proof -
  obtain k where k: "kbd_get (kb s) = (k, None)" using kbq.get_spec [OF rep] by auto
  obtain qs' nxt where lp: "list_pick qs = (qs', nxt)" by fastforce
  obtain wq' s1 where w: "sleep_on e (kbd_wq (kb s)) s = Some (wq', s1)" "wq_state s1 wq' qs' (es @ [e])"
    "waiters s1 (es @ [e]) = waiters s es @ [current_process s]"
    using sleep_on_state [OF st e cur lp] by blast
  have "wq_state (s1\<lparr>kb := k'\<rparr>) wq' qs' (es @ [e])" for k'
    using w(2) by (auto simp: wq_state_def waiters_def intro: sched_rep_cong)
  moreover have "kbd_read e buf n s = Some (s1\<lparr>kb := (kb s1)\<lparr>kbd_wq := wq'\<rparr>\<rparr>, Kbd_sleeps)"
    unfolding kbd_read_def by (subst kbd_read_loop.simps) (simp add: n k w(1))
  ultimately show ?thesis using w(3)
    by (intro exI [of _ "s1\<lparr>kb := (kb s1)\<lparr>kbd_wq := wq'\<rparr>\<rparr>"] exI [of _ qs']) (simp add: waiters_def)
qed

section \<open>Properties\<close>

text \<open>
  C32. The keyboard hands over what was typed. Let the ring hold the characters \<open>xs\<close>. The handler returns on every key
  press, once the input events are reported, and puts the character of the key, if it has one and fewer than 255 are
  waiting, behind \<open>xs\<close> and wakes the first waiting reader. A read of \<open>n\<close> bytes returns the first \<open>n\<close> characters, or all
  if there are fewer, stores them at the buffer and nothing elsewhere, and leaves the rest. When there are none the
  reader is queued behind the other waiting ones.
\<close>

theorem keyboard_in_order:
  assumes "kbd_rep (kb s) xs"
  shows "(\<forall>call scancode s0 qs es. kbd_report call scancode s0 = Some s \<and> key_press scancode \<and> wq_state s (kbd_wq (kb s)) qs es \<longrightarrow>
      (let c = kbd_char (kb s) scancode; stored = (c \<noteq> 0 \<and> length xs < 255)
       in \<exists>s' qs'. keyboard_handler call scancode s0 = Some (s', IRQ_HANDLED) \<and>
            kbd_rep (kb s') (if stored then xs @ [c] else xs) \<and>
            wq_state s' (kbd_wq (kb s')) qs' (if stored then tl es else es))) \<and>
    (\<forall>e buf n. 0 < n \<and> xs \<noteq> [] \<longrightarrow>
      (let l = min n (int (length xs))
       in \<exists>s'. kbd_read e buf n s = Some (s', Kbd_returns l) \<and> kbd_rep (kb s') (drop (nat l) xs) \<and>
            (\<forall>i<nat l. k_mem s' (buf + of_nat i) = xs ! i) \<and>
            (\<forall>a. (\<forall>i<nat l. a \<noteq> buf + of_nat i) \<longrightarrow> k_mem s' a = k_mem s a))) \<and>
    (\<forall>e buf n qs es. 0 < n \<and> xs = [] \<and> wq_state s (kbd_wq (kb s)) qs es \<and> e \<noteq> 0 \<and> e \<notin> set es \<and> current_process s \<noteq> 0 \<and>
        current_process s \<notin> in_queues qs \<and> current_process s \<notin> set (waiters s es) \<and> p_sched_class (current s) \<noteq> No_class \<longrightarrow>
      (\<exists>s' qs'. kbd_read e buf n s = Some (s', Kbd_sleeps) \<and> wq_state s' (kbd_wq (kb s')) qs' (es @ [e]) \<and>
        waiters s' (es @ [e]) = waiters s es @ [current_process s]))"
proof (intro conjI allI impI; elim conjE)
  fix call scancode s0 qs es
  assume "kbd_report call scancode s0 = Some s" "key_press scancode" "wq_state s (kbd_wq (kb s)) qs es"
  from keyboard_press [OF assms this refl refl]
  show "let c = kbd_char (kb s) scancode; stored = (c \<noteq> 0 \<and> length xs < 255)
    in \<exists>s' qs'. keyboard_handler call scancode s0 = Some (s', IRQ_HANDLED) \<and>
         kbd_rep (kb s') (if stored then xs @ [c] else xs) \<and> wq_state s' (kbd_wq (kb s')) qs' (if stored then tl es else es)"
    unfolding Let_def .
next
  fix e buf :: u64 and n :: int
  assume "0 < n" "xs \<noteq> []"
  then show "let l = min n (int (length xs))
    in \<exists>s'. kbd_read e buf n s = Some (s', Kbd_returns l) \<and> kbd_rep (kb s') (drop (nat l) xs) \<and>
         (\<forall>i<nat l. k_mem s' (buf + of_nat i) = xs ! i) \<and> (\<forall>a. (\<forall>i<nat l. a \<noteq> buf + of_nat i) \<longrightarrow> k_mem s' a = k_mem s a)"
    using kbd_read_loop_rep [OF assms, of 0 n _ e buf] unfolding Let_def kbd_read_def by simp
next
  fix e buf :: u64 and n :: int and qs es
  assume xs: "xs = []" and p: "0 < n" "wq_state s (kbd_wq (kb s)) qs es" "e \<noteq> 0" "e \<notin> set es" "current_process s \<noteq> 0"
    "current_process s \<notin> in_queues qs" "current_process s \<notin> set (waiters s es)" "p_sched_class (current s) \<noteq> No_class"
  show "\<exists>s' qs'. kbd_read e buf n s = Some (s', Kbd_sleeps) \<and> wq_state s' (kbd_wq (kb s')) qs' (es @ [e]) \<and>
      waiters s' (es @ [e]) = waiters s es @ [current_process s]"
    using assms unfolding xs by (rule kbd_read_empty [OF _ p])
qed

section \<open>A witness\<close>

definition demo_keyboard :: keyboard where
  "demo_keyboard = sync.extend demo_sync \<lparr>in_links = INIT_LIST_HEAD 0x900 (\<lambda>_. \<lparr>lh_next = 0, lh_prev = 0\<rparr>), dev_objs = (\<lambda>_. zero_dev),
     handler_event = (\<lambda>_. 0), input_dev_list = 0x800, input_handler_list = 0x900, input_lock = demo_lock,
     kb = \<lparr>kbd_buffer = (\<lambda>_. 0x61), kbd_write_idx = 0, kbd_read_idx = 254, shift_pressed = True, ctrl_pressed = False,
       kbd_input_dev = 0, kbd_wq = demo_wq\<rparr>\<rparr>"

lemma demo_keyboard_rep: "kbd_rep (kb demo_keyboard) [0x61, 0x61]"
  by (simp add: demo_keyboard_def sync.defs kbd_rep_def ring_rep_def KBD_BUFFER_SIZE_def less_Suc_eq numeral_2_eq_2)

theorem keyboard_in_order_witness:
  "(\<exists>s'. keyboard_handler (\<lambda>_ _ _ _ s. s) 0x1E demo_keyboard = Some (s', IRQ_HANDLED) \<and> kbd_rep (kb s') [0x61, 0x61, 0x41]) \<and>
   (\<exists>s'. kbd_read 0x7F00 0x5000 1 demo_keyboard = Some (s', Kbd_returns 1) \<and> k_mem s' 0x5000 = 0x61)"
proof -
  note p = keyboard_in_order [OF demo_keyboard_rep]
  have r: "kbd_report (\<lambda>_ _ _ _ s. s) 0x1E demo_keyboard = Some demo_keyboard"
    by (simp add: kbd_report_def demo_keyboard_def sync.defs)
  have w: "wq_state demo_keyboard (kbd_wq (kb demo_keyboard)) ((\<lambda>_. [])(2 := [0x100])) []"
    using demo_sync_state by (auto simp: demo_keyboard_def sync.defs wq_state_def waiters_def demo_sync_fields intro: sched_rep_cong)
  have c: "kbd_char (kb demo_keyboard) 0x1E = 0x41"
    by (simp add: kbd_char_def demo_keyboard_def sync.defs table_char_def kbd_us_shift_def)
  have "\<exists>s'. keyboard_handler (\<lambda>_ _ _ _ s. s) 0x1E demo_keyboard = Some (s', IRQ_HANDLED) \<and> kbd_rep (kb s') [0x61, 0x61, 0x41]"
    using conjunct1 [OF p, rule_format, OF conjI [OF r conjI [OF _ w]]] by (auto simp: c key_press_def Let_def)
  moreover have "\<exists>s'. kbd_read 0x7F00 0x5000 1 demo_keyboard = Some (s', Kbd_returns 1) \<and> k_mem s' 0x5000 = 0x61"
    using conjunct1 [OF conjunct2 [OF p], THEN spec [of _ "0x7F00"], THEN spec [of _ "0x5000"], THEN spec [of _ 1]]
    by (auto simp: Let_def)
  ultimately show ?thesis by blast
qed

end
