(* ===== verification/Msg.thy ===== *)
theory Msg
  imports Locks
begin

text \<open>
  Message queues: \<^verbatim>\<open>kernel/ipc/msg.c\<close>. Queues and messages are typed objects at the addresses that
  \<open>kmalloc\<close> returns; the bytes of a message are raw memory, behind its first field. A system call that cannot get a
  mutex, or waits for a message, sleeps; the result says for what, and the caller goes on from there when it runs again:
  with the whole call when it waits for the list of queues, with its second part when it waits for a queue.
\<close>

section \<open>State\<close>

definition MSG_SIZE :: int where "MSG_SIZE = 1024"

record msg_entry =
  me_type :: u64
  me_size :: int
  me_next :: u64

record msg_queue =
  mq_id :: int
  mq_key :: int
  mq_lock :: mutex
  mq_cond_recv :: cond
  mq_head :: u64
  mq_tail :: u64
  mq_count :: int
  mq_next :: u64

record msgs = sync +
  queue_objs :: "u64 \<Rightarrow> msg_queue"
  entry_objs :: "u64 \<Rightarrow> msg_entry"
  queues :: u64
  next_id :: int
  queues_lock :: mutex

definition sizeof_msg_queue :: u64 where "sizeof_msg_queue = 184"
definition sizeof_msg_entry :: u64 where "sizeof_msg_entry = 1048"

definition upd_queue :: "u64 \<Rightarrow> (msg_queue \<Rightarrow> msg_queue) \<Rightarrow> 'a msgs_scheme \<Rightarrow> 'a msgs_scheme" where
  "upd_queue q f s = s\<lparr>queue_objs := (queue_objs s)(q := f (queue_objs s q))\<rparr>"

definition upd_entry :: "u64 \<Rightarrow> (msg_entry \<Rightarrow> msg_entry) \<Rightarrow> 'a msgs_scheme \<Rightarrow> 'a msgs_scheme" where
  "upd_entry e f s = s\<lparr>entry_objs := (entry_objs s)(e := f (entry_objs s e))\<rparr>"

text \<open>The bytes of a message.\<close>

definition me_data :: "u64 \<Rightarrow> u64" where
  "me_data e = e + 8"

definition msg_init :: "'a msgs_scheme \<Rightarrow> 'a msgs_scheme" where
  "msg_init s = s\<lparr>queues_lock := mutex_init (queues_lock s)\<rparr>"

definition find_queue :: "int \<Rightarrow> 'a msgs_scheme \<Rightarrow> u64 option" where
  "find_queue i s = map_option snd (walk (\<lambda>q. mq_id (queue_objs s q) = i) (\<lambda>q. mq_next (queue_objs s q)) 0 (queues s))"

definition find_queue_key :: "int \<Rightarrow> 'a msgs_scheme \<Rightarrow> u64 option" where
  "find_queue_key key s = map_option snd (walk (\<lambda>q. mq_key (queue_objs s q) = key) (\<lambda>q. mq_next (queue_objs s q)) 0 (queues s))"

section \<open>Locking\<close>

text \<open>The flag of the result says whether the mutex was taken; otherwise the caller is asleep.\<close>

definition lock_queues :: "u64 \<Rightarrow> 'a msgs_scheme \<Rightarrow> ('a msgs_scheme \<times> bool) option" where
  "lock_queues e s = map_option (\<lambda>(m, s1, b). (s1\<lparr>queues_lock := m\<rparr>, b)) (mutex_lock_round e (queues_lock s) s)"

definition unlock_queues :: "'a msgs_scheme \<Rightarrow> 'a msgs_scheme option" where
  "unlock_queues s = map_option (\<lambda>(m, s1). s1\<lparr>queues_lock := m\<rparr>) (mutex_unlock (queues_lock s) s)"

definition lock_queue :: "u64 \<Rightarrow> u64 \<Rightarrow> 'a msgs_scheme \<Rightarrow> ('a msgs_scheme \<times> bool) option" where
  "lock_queue e q s =
     map_option (\<lambda>(m, s1, b). (upd_queue q (\<lambda>x. x\<lparr>mq_lock := m\<rparr>) s1, b)) (mutex_lock_round e (mq_lock (queue_objs s q)) s)"

definition unlock_queue :: "u64 \<Rightarrow> 'a msgs_scheme \<Rightarrow> 'a msgs_scheme option" where
  "unlock_queue q s = map_option (\<lambda>(m, s1). upd_queue q (\<lambda>x. x\<lparr>mq_lock := m\<rparr>) s1) (mutex_unlock (mq_lock (queue_objs s q)) s)"

section \<open>System calls\<close>

datatype msg_call = Done int | Waits_queues | Waits_queue u64

definition new_queue :: "int \<Rightarrow> int \<Rightarrow> u64 \<Rightarrow> msg_queue \<Rightarrow> msg_queue" where
  "new_queue i key nxt x =
     x\<lparr>mq_id := i, mq_key := key, mq_lock := mutex_init (mq_lock x), mq_cond_recv := cond_init (mq_cond_recv x),
       mq_head := 0, mq_tail := 0, mq_count := 0, mq_next := nxt\<rparr>"

definition sys_msgget :: "u64 \<Rightarrow> int \<Rightarrow> 'a msgs_scheme \<Rightarrow> ('a msgs_scheme \<times> msg_call) option" where
  "sys_msgget e key s =
     (case lock_queues e s of
        None \<Rightarrow> None
      | Some (s1, False) \<Rightarrow> Some (s1, Waits_queues)
      | Some (s1, True) \<Rightarrow>
          (case find_queue_key key s1 of
             None \<Rightarrow> None
           | Some q \<Rightarrow>
               if q \<noteq> 0 then map_option (\<lambda>s2. (s2, Done (mq_id (queue_objs s2 q)))) (unlock_queues s1)
               else
                 (case kmalloc sizeof_msg_queue (k_heap s1) of
                    None \<Rightarrow> None
                  | Some (h, q) \<Rightarrow>
                      (let s2 = s1\<lparr>k_heap := h\<rparr>
                       in if q = 0 then map_option (\<lambda>s3. (s3, Done (- 1))) (unlock_queues s2)
                          else
                            (let s3 = (upd_queue q (new_queue (next_id s2) key (queues s2)) s2)\<lparr>next_id := next_id s2 + 1, queues := q\<rparr>
                             in map_option (\<lambda>s4. (s4, Done (mq_id (queue_objs s4 q)))) (unlock_queues s3))))))"

text \<open>Looking a queue up under the lock of the list, the first part of sending and receiving.\<close>

definition msg_lookup :: "u64 \<Rightarrow> int \<Rightarrow> 'a msgs_scheme \<Rightarrow> ('a msgs_scheme \<times> u64 option) option" where
  "msg_lookup e msqid s =
     (case lock_queues e s of
        None \<Rightarrow> None
      | Some (s1, False) \<Rightarrow> Some (s1, None)
      | Some (s1, True) \<Rightarrow>
          (case find_queue msqid s1 of None \<Rightarrow> None | Some q \<Rightarrow> map_option (\<lambda>s2. (s2, Some q)) (unlock_queues s1)))"

definition msg_append :: "u64 \<Rightarrow> u64 \<Rightarrow> 'a msgs_scheme \<Rightarrow> 'a msgs_scheme" where
  "msg_append q m s =
     (let t = mq_tail (queue_objs s q);
          s1 = (if t \<noteq> 0 then upd_queue q (\<lambda>x. x\<lparr>mq_tail := m\<rparr>) (upd_entry t (\<lambda>x. x\<lparr>me_next := m\<rparr>) s)
                else upd_queue q (\<lambda>x. x\<lparr>mq_head := m, mq_tail := m\<rparr>) s)
      in upd_queue q (\<lambda>x. x\<lparr>mq_count := mq_count x + 1\<rparr>) s1)"

definition queue_broadcast :: "u64 \<Rightarrow> 'a msgs_scheme \<Rightarrow> 'a msgs_scheme option" where
  "queue_broadcast q s =
     map_option (\<lambda>(c, s1). upd_queue q (\<lambda>x. x\<lparr>mq_cond_recv := c\<rparr>) s1) (cond_broadcast (mq_cond_recv (queue_objs s q)) s)"

text \<open>The second part of sending, from the lock of the queue on.\<close>

definition msgsnd_put :: "u64 \<Rightarrow> u64 \<Rightarrow> u64 \<Rightarrow> int \<Rightarrow> 'a msgs_scheme \<Rightarrow> ('a msgs_scheme \<times> msg_call) option" where
  "msgsnd_put e q msgp msgsz s =
     (case lock_queue e q s of
        None \<Rightarrow> None
      | Some (s1, False) \<Rightarrow> Some (s1, Waits_queue q)
      | Some (s1, True) \<Rightarrow>
          (case kmalloc sizeof_msg_entry (k_heap s1) of
             None \<Rightarrow> None
           | Some (h, m) \<Rightarrow>
               (let s2 = s1\<lparr>k_heap := h\<rparr>
                in if m = 0 then map_option (\<lambda>s3. (s3, Done (- 1))) (unlock_queue q s2)
                   else
                     (let ty = load64 (k_mem s2) msgp;
                          s3 = upd_entry m (\<lambda>x. x\<lparr>me_type := ty, me_size := msgsz\<rparr>) s2;
                          s4 = set_mem (memcpy (k_mem s3) (me_data m) (msgp + 8) (of_int msgsz)) s3;
                          s5 = msg_append q m (upd_entry m (\<lambda>x. x\<lparr>me_next := 0\<rparr>) s4)
                      in case queue_broadcast q s5 of
                           None \<Rightarrow> None
                         | Some s6 \<Rightarrow> map_option (\<lambda>s7. (s7, Done 0)) (unlock_queue q s6)))))"

definition sys_msgsnd :: "u64 \<Rightarrow> int \<Rightarrow> u64 \<Rightarrow> int \<Rightarrow> 'a msgs_scheme \<Rightarrow> ('a msgs_scheme \<times> msg_call) option" where
  "sys_msgsnd e msqid msgp msgsz s =
     (if msgsz > MSG_SIZE then Some (s, Done (- 1))
      else
        (case msg_lookup e msqid s of
           None \<Rightarrow> None
         | Some (s1, None) \<Rightarrow> Some (s1, Waits_queues)
         | Some (s1, Some q) \<Rightarrow> if q = 0 then Some (s1, Done (- 1)) else msgsnd_put e q msgp msgsz s1))"

definition msg_unlink :: "u64 \<Rightarrow> u64 \<Rightarrow> u64 \<Rightarrow> 'a msgs_scheme \<Rightarrow> 'a msgs_scheme" where
  "msg_unlink q prev match s =
     (let s1 = (if prev \<noteq> 0 then
                  (let s2 = upd_entry prev (\<lambda>x. x\<lparr>me_next := me_next (entry_objs s match)\<rparr>) s
                   in if match = mq_tail (queue_objs s2 q) then upd_queue q (\<lambda>x. x\<lparr>mq_tail := prev\<rparr>) s2 else s2)
                else
                  (let s2 = upd_queue q (\<lambda>x. x\<lparr>mq_head := me_next (entry_objs s match)\<rparr>) s
                   in if mq_head (queue_objs s2 q) = 0 then upd_queue q (\<lambda>x. x\<lparr>mq_tail := 0\<rparr>) s2 else s2))
      in upd_queue q (\<lambda>x. x\<lparr>mq_count := mq_count x - 1\<rparr>) s1)"

definition queue_wait :: "u64 \<Rightarrow> u64 \<Rightarrow> 'a msgs_scheme \<Rightarrow> 'a msgs_scheme option" where
  "queue_wait e q s =
     map_option (\<lambda>(c, m, s1). upd_queue q (\<lambda>x. x\<lparr>mq_cond_recv := c, mq_lock := m\<rparr>) s1)
       (cond_wait e (mq_cond_recv (queue_objs s q)) (mq_lock (queue_objs s q)) s)"

text \<open>The second part of receiving: one round of its loop, from the lock of the queue on.\<close>

definition msgrcv_take :: "u64 \<Rightarrow> u64 \<Rightarrow> u64 \<Rightarrow> int \<Rightarrow> u64 \<Rightarrow> 'a msgs_scheme \<Rightarrow> ('a msgs_scheme \<times> msg_call) option" where
  "msgrcv_take e q msgp msgsz msgtyp s =
     (case lock_queue e q s of
        None \<Rightarrow> None
      | Some (s1, False) \<Rightarrow> Some (s1, Waits_queue q)
      | Some (s1, True) \<Rightarrow>
          (case walk (\<lambda>m. msgtyp = 0 \<or> me_type (entry_objs s1 m) = msgtyp) (\<lambda>m. me_next (entry_objs s1 m)) 0
                  (mq_head (queue_objs s1 q)) of
             None \<Rightarrow> None
           | Some (prev, match) \<Rightarrow>
               if match \<noteq> 0 then
                 (let s2 = msg_unlink q prev match s1;
                      copy_len = (if me_size (entry_objs s2 match) > msgsz then msgsz else me_size (entry_objs s2 match));
                      s3 = set_mem (store64 (k_mem s2) msgp (me_type (entry_objs s2 match))) s2;
                      s4 = set_mem (memcpy (k_mem s3) (msgp + 8) (me_data match) (of_int copy_len)) s3;
                      s5 = s4\<lparr>k_heap := kfree match (k_heap s4)\<rparr>
                  in map_option (\<lambda>s6. (s6, Done copy_len)) (unlock_queue q s5))
               else map_option (\<lambda>s2. (s2, Waits_queue q)) (queue_wait e q s1)))"

definition sys_msgrcv :: "u64 \<Rightarrow> int \<Rightarrow> u64 \<Rightarrow> int \<Rightarrow> u64 \<Rightarrow> 'a msgs_scheme \<Rightarrow> ('a msgs_scheme \<times> msg_call) option" where
  "sys_msgrcv e msqid msgp msgsz msgtyp s =
     (case msg_lookup e msqid s of
        None \<Rightarrow> None
      | Some (s1, None) \<Rightarrow> Some (s1, Waits_queues)
      | Some (s1, Some q) \<Rightarrow> if q = 0 then Some (s1, Done (- 1)) else msgrcv_take e q msgp msgsz msgtyp s1)"

section \<open>Queues as lists\<close>

text \<open>A queue with the messages \<open>ms\<close>, that nobody holds or waits for.\<close>

definition queue_rep :: "'a msgs_scheme \<Rightarrow> u64 \<Rightarrow> u64 list \<Rightarrow> bool" where
  "queue_rep s q ms \<longleftrightarrow>
     fifo (\<lambda>m. me_next (entry_objs s m)) (mq_head (queue_objs s q)) (mq_tail (queue_objs s q)) ms \<and>
     mq_count (queue_objs s q) = int (length ms) \<and> wq_head (cond_queue (mq_cond_recv (queue_objs s q))) = 0"

lemma upd_queue_simps [simp]:
  "queue_objs (upd_queue q f s) = (queue_objs s)(q := f (queue_objs s q))" "entry_objs (upd_queue q f s) = entry_objs s"
  "k_heap (upd_queue q f s) = k_heap s" "k_vm (upd_queue q f s) = k_vm s" "current_process (upd_queue q f s) = current_process s"
  "queue_objs (upd_entry m g s) = queue_objs s" "entry_objs (upd_entry m g s) = (entry_objs s)(m := g (entry_objs s m))"
  "k_heap (upd_entry m g s) = k_heap s" "k_vm (upd_entry m g s) = k_vm s" "current_process (upd_entry m g s) = current_process s"
  "queue_objs (set_mem mm s) = queue_objs s" "entry_objs (set_mem mm s) = entry_objs s" "k_heap (set_mem mm s) = k_heap s"
  "current_process (set_mem mm s') = current_process s'"
  by (simp_all add: upd_queue_def upd_entry_def set_mem_def)

lemma set_mem_mem [simp]: "k_mem (set_mem m s) = m"
  by (simp add: set_mem_def)

lemma lock_queue_idle:
  assumes "mutex_idle (mq_lock (queue_objs s q))" and "queue_rep s q ms"
  shows "\<exists>m. lock_queue e q s = Some (upd_queue q (\<lambda>x. x\<lparr>mq_lock := m\<rparr>) s, True) \<and> mutex_held m (current_process s)"
  using mutex_lock_idle [OF assms(1), of e s] by (auto simp: lock_queue_def)

lemma unlock_queue_held:
  assumes "mutex_held (mq_lock (queue_objs s q)) (current_process s)"
  shows "\<exists>m. unlock_queue q s = Some (upd_queue q (\<lambda>x. x\<lparr>mq_lock := m\<rparr>) s) \<and> mutex_idle m"
  using mutex_unlock_held [OF assms] by (auto simp: unlock_queue_def)

lemma queue_rep_lock [simp]: "queue_rep (upd_queue q (\<lambda>x. x\<lparr>mq_lock := m\<rparr>) s) q ms = queue_rep s q ms"
  by (simp add: queue_rep_def)

lemma queue_broadcast_none:
  assumes "queue_rep s q ms"
  shows "\<exists>c. queue_broadcast q s = Some (upd_queue q (\<lambda>x. x\<lparr>mq_cond_recv := c\<rparr>) s) \<and> wq_head (cond_queue c) = 0"
proof -
  have h: "wq_head (cond_queue (mq_cond_recv (queue_objs s q))) = 0" using assms by (simp add: queue_rep_def)
  show ?thesis
    by (simp add: queue_broadcast_def cond_broadcast_def wake_up_all_none [OF h]) (intro exI conjI, rule refl, simp add: h)
qed

lemma msg_append_rep:
  assumes r: "queue_rep s q ms" and m: "m \<noteq> 0" "m \<notin> set ms" "me_next (entry_objs s m) = 0"
  shows "queue_rep (msg_append q m s) q (ms @ [m])"
    and "mq_lock (queue_objs (msg_append q m s) q) = mq_lock (queue_objs s q)"
    and "me_type (entry_objs (msg_append q m s) x) = me_type (entry_objs s x)"
    and "me_size (entry_objs (msg_append q m s) x) = me_size (entry_objs s x)"
    and "k_vm (msg_append q m s) = k_vm s" and "k_heap (msg_append q m s) = k_heap s"
    and "current_process (msg_append q m s) = current_process s"
proof -
  let ?n = "\<lambda>m. me_next (entry_objs s m)" and ?t = "mq_tail (queue_objs s q)"
  have f: "fifo ?n (mq_head (queue_objs s q)) ?t ms" using r by (simp add: queue_rep_def)
  have n: "(\<lambda>x. me_next (if x = ?t then (entry_objs s ?t)\<lparr>me_next := m\<rparr> else entry_objs s x)) = ?n(?t := m)" by auto
  show "queue_rep (msg_append q m s) q (ms @ [m])"
    using r fifo_push [OF f m] fifo_tail [OF f] by (cases "ms = []") (auto simp: queue_rep_def msg_append_def Let_def n)
qed (simp_all add: msg_append_def Let_def)

text \<open>Sending puts the message behind the others, or fails for lack of memory and changes nothing.\<close>

lemma msgsnd_put_rep:
  assumes r: "queue_rep s q ms" and i: "mutex_idle (mq_lock (queue_objs s q))"
    and ok: "heap_ok (k_heap s)" "set ms \<subseteq> heap_live (k_heap s)"
  shows "\<exists>s' ret. msgsnd_put e q msgp msgsz s = Some (s', Done ret) \<and> mutex_idle (mq_lock (queue_objs s' q)) \<and> heap_ok (k_heap s') \<and>
    (ret = - 1 \<and> queue_rep s' q ms \<and> k_heap s' = k_heap s \<and> k_mem s' = k_mem s \<and> entry_objs s' = entry_objs s \<or>
     ret = 0 \<and> (\<exists>m. m \<notin> heap_live (k_heap s) \<and> heap_live (k_heap s') = insert m (heap_live (k_heap s)) \<and> queue_rep s' q (ms @ [m]) \<and>
        me_type (entry_objs s' m) = load64 (k_mem s) msgp \<and> me_size (entry_objs s' m) = msgsz \<and>
        k_mem s' = memcpy (k_mem s) (me_data m) (msgp + 8) (of_int msgsz) \<and>
        (\<forall>x. x \<noteq> m \<longrightarrow> me_type (entry_objs s' x) = me_type (entry_objs s x) \<and> me_size (entry_objs s' x) = me_size (entry_objs s x))))"
proof -
  obtain l where l: "lock_queue e q s = Some (upd_queue q (\<lambda>x. x\<lparr>mq_lock := l\<rparr>) s, True)" "mutex_held l (current_process s)"
    using lock_queue_idle [OF i r] by blast
  define s1 where "s1 = upd_queue q (\<lambda>x. x\<lparr>mq_lock := l\<rparr>) s"
  obtain h m where k: "kmalloc sizeof_msg_entry (k_heap s) = Some (h, m)" and oh: "heap_ok h"
    and c: "m = 0 \<and> h = k_heap s \<or> m \<noteq> 0 \<and> m \<notin> heap_live (k_heap s) \<and> heap_live h = insert m (heap_live (k_heap s))"
    using kmalloc_step [OF ok(1)] by blast
  have l1: "lock_queue e q s = Some (s1, True)" and k1: "kmalloc sizeof_msg_entry (k_heap s1) = Some (h, m)"
    using l(1) k by (simp_all add: s1_def)
  define s2 where "s2 = s1\<lparr>k_heap := h\<rparr>"
  have s2: "queue_rep s2 q ms" "mutex_held (mq_lock (queue_objs s2 q)) (current_process s2)" "k_vm s2 = k_vm s" "k_heap s2 = h"
    "entry_objs s2 = entry_objs s"
    using r l(2) by (simp_all add: s2_def s1_def queue_rep_def)
  show ?thesis
  proof (cases "m = 0")
    case True
    obtain l' where u: "unlock_queue q s2 = Some (upd_queue q (\<lambda>x. x\<lparr>mq_lock := l'\<rparr>) s2)" "mutex_idle l'"
      using unlock_queue_held [OF s2(2)] by blast
    have "msgsnd_put e q msgp msgsz s = Some (upd_queue q (\<lambda>x. x\<lparr>mq_lock := l'\<rparr>) s2, Done (- 1))"
      using True u(1) by (simp add: msgsnd_put_def l1 k1 s2_def [symmetric])
    then show ?thesis using True c s2 u(2) ok(1) by simp
  next
    case False
    define s4 where "s4 = upd_entry m (\<lambda>x. x\<lparr>me_next := 0\<rparr>) (set_mem (memcpy (k_mem s) (me_data m) (msgp + 8) (of_int msgsz))
      (upd_entry m (\<lambda>x. x\<lparr>me_type := load64 (k_mem s) msgp, me_size := msgsz\<rparr>) s2))"
    define s5 where "s5 = msg_append q m s4"
    have m: "m \<notin> set ms" using c False ok(2) by auto
    have fc: "fifo (\<lambda>x. me_next (entry_objs s4 x)) a b ms = fifo (\<lambda>x. me_next (entry_objs s2 x)) a b ms" for a b
      by (rule fifo_cong) (use m in \<open>auto simp: s4_def\<close>)
    have s4: "queue_rep s4 q ms" "me_next (entry_objs s4 m) = 0" "me_type (entry_objs s4 m) = load64 (k_mem s) msgp"
      "me_size (entry_objs s4 m) = msgsz" "k_mem s4 = memcpy (k_mem s) (me_data m) (msgp + 8) (of_int msgsz)"
      "mq_lock (queue_objs s4 q) = mq_lock (queue_objs s2 q)" "current_process s4 = current_process s2" "k_heap s4 = h"
      "\<forall>x. x \<noteq> m \<longrightarrow> entry_objs s4 x = entry_objs s x"
      using s2 fc by (simp_all add: s4_def queue_rep_def)
    note a = msg_append_rep [OF s4(1) False m s4(2), folded s5_def]
    obtain cd where b: "queue_broadcast q s5 = Some (upd_queue q (\<lambda>x. x\<lparr>mq_cond_recv := cd\<rparr>) s5)" "wq_head (cond_queue cd) = 0"
      using queue_broadcast_none [OF a(1)] by blast
    define s6 where "s6 = upd_queue q (\<lambda>x. x\<lparr>mq_cond_recv := cd\<rparr>) s5"
    have s6: "queue_rep s6 q (ms @ [m])" "mutex_held (mq_lock (queue_objs s6 q)) (current_process s6)"
      "entry_objs s6 = entry_objs s5" "k_vm s6 = k_vm s4" "k_heap s6 = h"
      using a b(2) s2(2) s4(6-8) by (simp_all add: s6_def queue_rep_def)
    obtain l' where u: "unlock_queue q s6 = Some (upd_queue q (\<lambda>x. x\<lparr>mq_lock := l'\<rparr>) s6)" "mutex_idle l'"
      using unlock_queue_held [OF s6(2)] by blast
    have "msgsnd_put e q msgp msgsz s = Some (upd_queue q (\<lambda>x. x\<lparr>mq_lock := l'\<rparr>) s6, Done 0)"
      using False u(1) b(1) by (simp add: msgsnd_put_def l1 k1 s2_def [symmetric] s2(3) s4_def [symmetric] s5_def [symmetric]
          s6_def [symmetric] Let_def)
    moreover have "m \<notin> heap_live (k_heap s)" "heap_live h = insert m (heap_live (k_heap s))" using c False by auto
    ultimately show ?thesis using s6 u(2) a(3,4) s4 oh
      by (intro exI [of _ "upd_queue q (\<lambda>x. x\<lparr>mq_lock := l'\<rparr>) s6"] exI [of _ 0] conjI disjI2 exI [of _ m]) simp_all
  qed
qed

text \<open>Taking a message out of the middle.\<close>

lemma msg_unlink_rep:
  assumes r: "queue_rep s q (as @ m # bs)"
  shows "queue_rep (msg_unlink q (last0 as) m s) q (as @ bs)"
    and "mq_lock (queue_objs (msg_unlink q (last0 as) m s) q) = mq_lock (queue_objs s q)"
    and "me_type (entry_objs (msg_unlink q (last0 as) m s) x) = me_type (entry_objs s x)"
    and "me_size (entry_objs (msg_unlink q (last0 as) m s) x) = me_size (entry_objs s x)"
    and "k_vm (msg_unlink q (last0 as) m s) = k_vm s" and "k_heap (msg_unlink q (last0 as) m s) = k_heap s"
    and "current_process (msg_unlink q (last0 as) m s) = current_process s"
proof -
  let ?n = "\<lambda>m. me_next (entry_objs s m)" and ?t = "last0 as"
  have f: "fifo ?n (mq_head (queue_objs s q)) (mq_tail (queue_objs s q)) (as @ m # bs)" using r by (simp add: queue_rep_def)
  have "0 \<notin> set as" using chain_nonzero [of ?n "mq_head (queue_objs s q)" "as @ m # bs"] f by (simp add: fifo_def)
  then have z: "?t = 0 \<longleftrightarrow> as = []" using last_in_set [of as] unfolding last0_def by metis
  have n: "(\<lambda>x. me_next (if x = a then (entry_objs s a)\<lparr>me_next := v\<rparr> else entry_objs s x)) = ?n(a := v)" for a v by auto
  show "queue_rep (msg_unlink q ?t m s) q (as @ bs)"
  proof (cases "as = []")
    case True
    then show ?thesis using r fifo_remove(1) [OF f] by (simp add: queue_rep_def msg_unlink_def Let_def split: if_splits)
  next
    case False
    then show ?thesis using r fifo_remove(2) [OF f] z by (auto simp: queue_rep_def msg_unlink_def Let_def n last0_def split: if_splits)
  qed
qed (simp_all add: msg_unlink_def Let_def)

definition wanted :: "'a msgs_scheme \<Rightarrow> u64 \<Rightarrow> u64 \<Rightarrow> bool" where
  "wanted s ty m \<longleftrightarrow> ty = 0 \<or> me_type (entry_objs s m) = ty"

lemma find_split: "find P xs = Some x \<Longrightarrow> \<exists>as bs. xs = as @ x # bs \<and> (\<forall>a\<in>set as. \<not> P a) \<and> P x"
proof (induction xs)
  case (Cons y ys)
  show ?case
  proof (cases "P y")
    case True
    then show ?thesis using Cons.prems by (intro exI [of _ "[]"] exI [of _ ys]) simp
  next
    case False
    then obtain as bs where "ys = as @ x # bs" "\<forall>a\<in>set as. \<not> P a" "P x" using Cons by auto
    then show ?thesis using False by (intro exI [of _ "y # as"] exI [of _ bs]) simp
  qed
qed simp

text \<open>Receiving takes the first message of the wanted type.\<close>

lemma msgrcv_take_rep:
  assumes r: "queue_rep s q (as @ m # bs)" and i: "mutex_idle (mq_lock (queue_objs s q))"
    and w: "\<forall>a\<in>set as. \<not> wanted s ty a" "wanted s ty m"
  shows "\<exists>s'. msgrcv_take e q msgp msgsz ty s = Some (s', Done (min (me_size (entry_objs s m)) msgsz)) \<and>
    mutex_idle (mq_lock (queue_objs s' q)) \<and> queue_rep s' q (as @ bs) \<and> k_heap s' = kfree m (k_heap s) \<and>
    k_mem s' = memcpy (store64 (k_mem s) msgp (me_type (entry_objs s m))) (msgp + 8) (me_data m)
      (of_int (min (me_size (entry_objs s m)) msgsz))"
proof -
  obtain l where l: "lock_queue e q s = Some (upd_queue q (\<lambda>x. x\<lparr>mq_lock := l\<rparr>) s, True)" "mutex_held l (current_process s)"
    using lock_queue_idle [OF i r] by blast
  define s1 where "s1 = upd_queue q (\<lambda>x. x\<lparr>mq_lock := l\<rparr>) s"
  have l1: "lock_queue e q s = Some (s1, True)" and r1: "queue_rep s1 q (as @ m # bs)" and e1: "entry_objs s1 = entry_objs s"
    and h1: "mq_lock (queue_objs s1 q) = l" "current_process s1 = current_process s" "k_vm s1 = k_vm s" "k_heap s1 = k_heap s"
    using l(1) r by (simp_all add: s1_def)
  have c: "chain (\<lambda>m. me_next (entry_objs s1 m)) (mq_head (queue_objs s1 q)) (as @ m # bs)"
    using r1 by (simp add: queue_rep_def fifo_def)
  have tw: "takeWhile (\<lambda>x. \<not> (ty = 0 \<or> me_type (entry_objs s1 x) = ty)) (as @ m # bs) = as"
    "dropWhile (\<lambda>x. \<not> (ty = 0 \<or> me_type (entry_objs s1 x) = ty)) (as @ m # bs) = m # bs"
    using w unfolding wanted_def e1 by (subst takeWhile_append2 dropWhile_append2; auto)+
  have wk: "walk (\<lambda>m. ty = 0 \<or> me_type (entry_objs s1 m) = ty) (\<lambda>m. me_next (entry_objs s1 m)) 0 (mq_head (queue_objs s1 q)) =
      Some (last0 as, m)"
    unfolding walk_chain [OF c] tw by (simp add: last0_def)
  have m0: "m \<noteq> 0" using chain_nonzero [OF c] by auto
  define s2 where "s2 = msg_unlink q (last0 as) m s1"
  note u = msg_unlink_rep [OF r1, folded s2_def]
  define n where "n = min (me_size (entry_objs s m)) msgsz"
  define s5 where "s5 = (set_mem (memcpy (store64 (k_mem s) msgp (me_type (entry_objs s m))) (msgp + 8) (me_data m) (of_int n))
    (set_mem (store64 (k_mem s) msgp (me_type (entry_objs s m))) s2))\<lparr>k_heap := kfree m (k_heap s)\<rparr>"
  have s5: "queue_rep s5 q (as @ bs)" "mutex_held (mq_lock (queue_objs s5 q)) (current_process s5)" "k_heap s5 = kfree m (k_heap s)"
    "k_mem s5 = memcpy (store64 (k_mem s) msgp (me_type (entry_objs s m))) (msgp + 8) (me_data m) (of_int n)"
    using u(1,2,7) h1 l(2) by (simp_all add: s5_def queue_rep_def set_mem_def)
  obtain l' where ul: "unlock_queue q s5 = Some (upd_queue q (\<lambda>x. x\<lparr>mq_lock := l'\<rparr>) s5)" "mutex_idle l'"
    using unlock_queue_held [OF s5(2)] by blast
  have "msgrcv_take e q msgp msgsz ty s = Some (upd_queue q (\<lambda>x. x\<lparr>mq_lock := l'\<rparr>) s5, Done n)"
    using m0 ul(1) by (cases "msgsz < me_size (entry_objs s m)")
      (simp_all add: msgrcv_take_def l1 wk [unfolded e1] s2_def [symmetric] u(3-6) h1 e1 Let_def s5_def n_def min_def)
  then show ?thesis using s5 ul(2) unfolding n_def [symmetric] by simp
qed

section \<open>Properties\<close>


section \<open>Witnesses\<close>

definition demo_queue :: msg_queue where
  "demo_queue = \<lparr>mq_id = 1, mq_key = 7, mq_lock = demo_mutex, mq_cond_recv = \<lparr>cond_queue = demo_wq\<rparr>, mq_head = 0, mq_tail = 0,
     mq_count = 0, mq_next = 0\<rparr>"

definition demo_msgs :: msgs where
  "demo_msgs = sync.extend demo_sync \<lparr>queue_objs = (\<lambda>_. demo_queue),
     entry_objs = (\<lambda>_. \<lparr>me_type = 0, me_size = 0, me_next = 0\<rparr>), queues = 0x500, next_id = 2, queues_lock = demo_mutex\<rparr>"


end
