(* ===== verification/Radix_Tree.thy ===== *)
theory Radix_Tree
  imports Heap "HOL-Library.Multiset"
begin

text \<open>
  The radix tree of \<^verbatim>\<open>kernel/lib/radix-tree.c\<close>, 64 slots per node. Every node is reached
  from exactly one slot, so that the tree is a datatype whose inner nodes carry the address that
  \<open>kmalloc\<close> returned for them; the heap is threaded through all operations and \<open>None\<close> is a run
  that does not return or reads a pointer of the wrong kind. A shift by 64 or more, which C leaves
  undefined, takes the count modulo 64 as the x86 instruction does.
\<close>

section \<open>The code\<close>

datatype rnode = Item u64 | Node u64 u32 "rnode option list"

record radix_tree_root =
  rt_height :: nat
  rt_node :: "rnode option"

definition RADIX_TREE_MAP_SHIFT :: nat where
  "RADIX_TREE_MAP_SHIFT = 6"

definition RADIX_TREE_MAP_MASK :: u64 where
  "RADIX_TREE_MAP_MASK = 63"

definition shl64 :: "u64 \<Rightarrow> nat \<Rightarrow> u64" where
  "shl64 x n = push_bit (n mod 64) x"

definition shr64 :: "u64 \<Rightarrow> nat \<Rightarrow> u64" where
  "shr64 x n = drop_bit (n mod 64) x"

definition max_index :: "nat \<Rightarrow> u64" where
  "max_index height = shl64 1 (height * RADIX_TREE_MAP_SHIFT) - 1"

definition slot_offset :: "u64 \<Rightarrow> nat \<Rightarrow> nat" where
  "slot_offset index shift = unat (shr64 index shift AND RADIX_TREE_MAP_MASK)"

definition radix_tree_node_alloc :: "heap \<Rightarrow> (heap \<times> rnode option) option" where
  "radix_tree_node_alloc h =
     map_option (\<lambda>(h', p). (h', if p = 0 then None else Some (Node p 0 (replicate 64 None)))) (kmalloc 520 h)"

definition radix_tree_init :: "radix_tree_root \<Rightarrow> radix_tree_root" where
  "radix_tree_init r = r\<lparr>rt_height := 0, rt_node := None\<rparr>"

fun radix_tree_shrink :: "nat \<Rightarrow> rnode option \<Rightarrow> heap \<Rightarrow> heap \<times> radix_tree_root" where
  "radix_tree_shrink 0 n h = (h, \<lparr>rt_height = 0, rt_node = n\<rparr>)"
| "radix_tree_shrink (Suc k) None h = (h, \<lparr>rt_height = 0, rt_node = None\<rparr>)"
| "radix_tree_shrink (Suc k) (Some (Item v)) h = (h, \<lparr>rt_height = Suc k, rt_node = Some (Item v)\<rparr>)"
| "radix_tree_shrink (Suc k) (Some (Node a c ss)) h =
     (if c \<noteq> 1 \<or> ss ! 0 = None \<or> Suc k \<le> 1
      then (h, \<lparr>rt_height = Suc k, rt_node = Some (Node a c ss)\<rparr>)
      else radix_tree_shrink k (ss ! 0) (kfree a h))"

partial_function (option) extend_height :: "u64 \<Rightarrow> nat \<Rightarrow> nat option" where
  "extend_height index height =
     (if max_index height < index then extend_height index (height + 1) else Some height)"

declare extend_height.simps [code]

function extend_loop :: "nat \<Rightarrow> radix_tree_root \<Rightarrow> heap \<Rightarrow> (heap \<times> radix_tree_root \<times> bool) option" where
  "extend_loop height r h =
     (if rt_height r < height then
        (case radix_tree_node_alloc h of
           None \<Rightarrow> None
         | Some (h1, None) \<Rightarrow> Some (h1, r, False)
         | Some (h1, Some (Item v)) \<Rightarrow> None
         | Some (h1, Some (Node a c ss)) \<Rightarrow>
             extend_loop height \<lparr>rt_height = rt_height r + 1, rt_node = Some (Node a 1 (ss[0 := rt_node r]))\<rparr> h1)
      else Some (h, r, True))"
  by pat_completeness auto
termination
  by (relation "measure (\<lambda>(height, r, h). height - rt_height r)") auto

declare extend_loop.simps [simp del]

definition radix_tree_extend :: "radix_tree_root \<Rightarrow> u64 \<Rightarrow> heap \<Rightarrow> (heap \<times> radix_tree_root \<times> bool) option" where
  "radix_tree_extend r index h =
     (case extend_height index (rt_height r + 1) of
        None \<Rightarrow> None
      | Some height \<Rightarrow>
          extend_loop height (if rt_node r = None then r\<lparr>rt_height := height\<rparr> else r) h)"

function digits :: "u64 \<Rightarrow> nat" where
  "digits tmp = (if 0 < tmp then digits (drop_bit RADIX_TREE_MAP_SHIFT tmp) + 1 else 0)"
  by pat_completeness auto
termination
proof (relation "measure unat")
  fix tmp :: u64 assume "0 < tmp"
  then have "unat tmp div 64 < unat tmp" by (simp add: word_less_nat_alt)
  then show "(drop_bit RADIX_TREE_MAP_SHIFT tmp, tmp) \<in> measure unat"
    by (simp add: RADIX_TREE_MAP_SHIFT_def drop_bit_eq_div unat_div)
qed simp

declare digits.simps [simp del]

definition slot_of :: "u64 \<Rightarrow> rnode option" where
  "slot_of item = (if item = 0 then None else Some (Item item))"

text \<open>The loop of \<open>radix_tree_insert\<close> from a node of the given height; the result is false for -1.\<close>

fun insert_node :: "nat \<Rightarrow> u64 \<Rightarrow> u64 \<Rightarrow> rnode \<Rightarrow> heap \<Rightarrow> (heap \<times> rnode \<times> bool) option" where
  "insert_node 0 index item t h = Some (h, t, False)"
| "insert_node (Suc k) index item (Item v) h = None"
| "insert_node (Suc k) index item (Node a c ss) h =
     (let offset = (if 64 \<le> k * RADIX_TREE_MAP_SHIFT then 0 else slot_offset index (k * RADIX_TREE_MAP_SHIFT)) in
      if k = 0 then
        (if ss ! offset \<noteq> None then Some (h, Node a c ss, False)
         else Some (h, Node a (c + 1) (ss[offset := slot_of item]), True))
      else
        (case ss ! offset of
           Some t \<Rightarrow>
             map_option (\<lambda>(h', t', ok). (h', Node a c (ss[offset := Some t']), ok)) (insert_node k index item t h)
         | None \<Rightarrow>
             (case radix_tree_node_alloc h of
                None \<Rightarrow> None
              | Some (h1, None) \<Rightarrow> Some (h1, Node a c ss, False)
              | Some (h1, Some t) \<Rightarrow>
                  map_option (\<lambda>(h', t', ok). (h', Node a (c + 1) (ss[offset := Some t']), ok))
                    (insert_node k index item t h1))))"

definition radix_tree_insert ::
  "radix_tree_root \<Rightarrow> u64 \<Rightarrow> u64 \<Rightarrow> heap \<Rightarrow> (heap \<times> radix_tree_root \<times> bool) option" where
  "radix_tree_insert r index item h =
     (let r0 = (if rt_node r = None \<and> rt_height r = 0
                then r\<lparr>rt_height := (if digits index = 0 then 1 else digits index)\<rparr> else r) in
      case (if max_index (rt_height r0) < index then radix_tree_extend r0 index h else Some (h, r0, True)) of
        None \<Rightarrow> None
      | Some (h1, r1, False) \<Rightarrow> Some (h1, r1, False)
      | Some (h1, r1, True) \<Rightarrow>
          (case (case rt_node r1 of None \<Rightarrow> radix_tree_node_alloc h1 | Some t \<Rightarrow> Some (h1, Some t)) of
             None \<Rightarrow> None
           | Some (h2, None) \<Rightarrow> Some (h2, r1, False)
           | Some (h2, Some t) \<Rightarrow>
               map_option (\<lambda>(h3, t', ok). (h3, r1\<lparr>rt_node := Some t'\<rparr>, ok))
                 (insert_node (rt_height r1) index item t h2)))"

definition slot_value :: "rnode \<Rightarrow> u64" where
  "slot_value t = (case t of Item v \<Rightarrow> v | Node a c ss \<Rightarrow> a)"

fun lookup_node :: "nat \<Rightarrow> u64 \<Rightarrow> rnode \<Rightarrow> u64 option" where
  "lookup_node 0 index t = Some 0"
| "lookup_node (Suc k) index (Item v) = None"
| "lookup_node (Suc k) index (Node a c ss) =
     (case ss ! slot_offset index (k * RADIX_TREE_MAP_SHIFT) of
        None \<Rightarrow> Some 0
      | Some t \<Rightarrow> if k = 0 then Some (slot_value t) else lookup_node k index t)"

definition radix_tree_lookup :: "radix_tree_root \<Rightarrow> u64 \<Rightarrow> u64 option" where
  "radix_tree_lookup r index =
     (case rt_node r of
        None \<Rightarrow> Some 0
      | Some t \<Rightarrow>
          if rt_height r = 0 \<or> max_index (rt_height r) < index then Some 0
          else lookup_node (rt_height r) index t)"

text \<open>
  \<open>radix_tree_delete\<close> remembers the path and, once the item is removed, frees the nodes on it
  that became empty, from the leaf up to the first node that is not; \<open>prune\<close> is that step for
  one node. The result of \<open>delete_node\<close> is the node, unless it was freed, and the item, if found.
\<close>

definition prune :: "u64 \<Rightarrow> u32 \<Rightarrow> rnode option list \<Rightarrow> heap \<Rightarrow> heap \<times> rnode option" where
  "prune a c ss h = (if 0 < c then (h, Some (Node a c ss)) else (kfree a h, None))"

fun delete_node :: "nat \<Rightarrow> u64 \<Rightarrow> rnode \<Rightarrow> heap \<Rightarrow> (heap \<times> rnode option \<times> u64 option) option" where
  "delete_node 0 index t h = Some (h, Some t, None)"
| "delete_node (Suc k) index (Item v) h = None"
| "delete_node (Suc k) index (Node a c ss) h =
     (let offset = slot_offset index (k * RADIX_TREE_MAP_SHIFT) in
      case ss ! offset of
        None \<Rightarrow> Some (h, Some (Node a c ss), None)
      | Some t \<Rightarrow>
          if k = 0 then
            (let (h', n) = prune a (c - 1) (ss[offset := None]) h in Some (h', n, Some (slot_value t)))
          else
            map_option
              (\<lambda>(h', t', item).
                 case t' of
                   Some t'' \<Rightarrow> (h', Some (Node a c (ss[offset := Some t''])), item)
                 | None \<Rightarrow> (let (h'', n) = prune a (c - 1) (ss[offset := None]) h' in (h'', n, item)))
              (delete_node k index t h))"

definition radix_tree_delete ::
  "radix_tree_root \<Rightarrow> u64 \<Rightarrow> heap \<Rightarrow> (heap \<times> radix_tree_root \<times> u64) option" where
  "radix_tree_delete r index h =
     (case rt_node r of
        None \<Rightarrow> Some (h, r, 0)
      | Some t \<Rightarrow>
          if rt_height r = 0 \<or> max_index (rt_height r) < index then Some (h, r, 0)
          else
            map_option
              (\<lambda>(h', n, item).
                 case item of
                   None \<Rightarrow> (h', r\<lparr>rt_node := n\<rparr>, 0)
                 | Some v \<Rightarrow>
                     (let (h'', r') = radix_tree_shrink (if n = None then 0 else rt_height r) n h' in (h'', r', v)))
              (delete_node (rt_height r) index t h))"

section \<open>Digits of an index\<close>

definition dig :: "nat \<Rightarrow> u64 \<Rightarrow> nat" where
  "dig k i = unat i div 64 ^ k mod 64"

definition low :: "nat \<Rightarrow> u64 \<Rightarrow> nat" where
  "low k i = unat i mod 64 ^ k"

lemma dig_less [simp]: "dig k i < 64"
  by (simp add: dig_def)

lemma low_Suc: "low (Suc k) i = low (Suc k) j \<longleftrightarrow> dig k i = dig k j \<and> low k i = low k j"
proof -
  have e: "low (Suc k) x = 64 ^ k * dig k x + low k x" for x
    unfolding low_def dig_def power_Suc2 by (rule mod_mult2_eq)
  have lt: "low k x < 64 ^ k" for x by (simp add: low_def)
  have "low (Suc k) x div 64 ^ k = dig k x" "low (Suc k) x mod 64 ^ k = low k x" for x
    using lt [of x] by (simp_all add: e)
  then show ?thesis by (metis e)
qed

lemma low_1: "low (Suc 0) i = low (Suc 0) j \<longleftrightarrow> dig 0 i = dig 0 j"
  unfolding low_Suc by (simp add: low_def)

lemma two_power_6: "(2 :: nat) ^ (k * 6) = 64 ^ k"
  using power_mult [of "2 :: nat" 6 k] by (simp add: mult.commute)

lemma slot_offset_dig:
  assumes "k \<le> 10"
  shows "slot_offset i (k * RADIX_TREE_MAP_SHIFT) = dig k i"
proof -
  have k: "k * 6 < 64" using assms by simp
  have e: "(2 :: nat) ^ (k * 6) = 64 ^ k" by (rule two_power_6)
  have m: "x AND 63 = x mod 64" for x :: u64
    using take_bit_eq_mask [of 6 x] by (simp add: take_bit_eq_mod mask_eq_exp_minus_1)
  have "unat (drop_bit (k * 6) i) = unat i div 64 ^ k"
    using k by (simp add: drop_bit_eq_div unat_div unat_2_power e)
  then show ?thesis
    using k by (simp add: slot_offset_def shr64_def RADIX_TREE_MAP_SHIFT_def RADIX_TREE_MAP_MASK_def m unat_mod dig_def)
qed

lemma max_index_less:
  assumes "height \<le> 10"
  shows "max_index height < i \<longleftrightarrow> 64 ^ height \<le> unat i"
proof -
  have k: "height * 6 < 64" using assms by simp
  have e: "(2 :: nat) ^ (height * 6) = 64 ^ height" by (rule two_power_6)
  have "unat (2 ^ (height * 6) - 1 :: u64) = 64 ^ height - 1"
  proof -
    have "(1 :: u64) \<le> 2 ^ (height * 6)" using k by (simp add: word_le_nat_alt unat_2_power)
    then show ?thesis using k by (simp add: unat_diff_le unat_2_power e)
  qed
  moreover have "(0 :: nat) < 64 ^ height" by simp
  then have "64 ^ height - 1 < unat i \<longleftrightarrow> 64 ^ height \<le> unat i" by linarith
  ultimately show ?thesis
    using k unfolding max_index_def shl64_def RADIX_TREE_MAP_SHIFT_def word_less_nat_alt by simp
qed

section \<open>What a tree holds\<close>

fun rt_get :: "nat \<Rightarrow> rnode \<Rightarrow> u64 \<Rightarrow> u64 option" where
  "rt_get 0 t i = None"
| "rt_get (Suc k) (Item v) i = None"
| "rt_get (Suc k) (Node a c ss) i =
     (case ss ! dig k i of None \<Rightarrow> None | Some t \<Rightarrow> if k = 0 then Some (slot_value t) else rt_get k t i)"

fun rt_wf :: "nat \<Rightarrow> rnode \<Rightarrow> bool" where
  "rt_wf 0 t \<longleftrightarrow> False"
| "rt_wf (Suc k) (Item v) \<longleftrightarrow> False"
| "rt_wf (Suc k) (Node a c ss) \<longleftrightarrow>
     length ss = 64 \<and> unat c = length (filter (\<lambda>x. x \<noteq> None) ss) \<and>
     (\<forall>t. Some t \<in> set ss \<longrightarrow> (if k = 0 then \<exists>v. t = Item v \<and> v \<noteq> 0 else rt_wf k t))"

text \<open>The addresses of the nodes, as a multiset: a tree owns each of them once.\<close>

primrec rt_addrs :: "rnode \<Rightarrow> u64 multiset" where
  "rt_addrs (Item v) = {#}"
| "rt_addrs (Node a c ss) = add_mset a (sum_list (map (case_option {#} id) (map (map_option rt_addrs) ss)))"

definition slot_addrs :: "rnode option \<Rightarrow> u64 multiset" where
  "slot_addrs x = (case x of None \<Rightarrow> {#} | Some t \<Rightarrow> rt_addrs t)"

lemma rt_addrs_Node: "rt_addrs (Node a c ss) = add_mset a (sum_list (map slot_addrs ss))"
proof -
  have "case_option {#} id \<circ> map_option rt_addrs = slot_addrs"
    by (auto simp: slot_addrs_def split: option.splits)
  then show ?thesis by simp
qed

declare rt_addrs.simps(2) [simp del]

lemma slot_addrs_simps [simp]: "slot_addrs None = {#}" "slot_addrs (Some t) = rt_addrs t"
  by (simp_all add: slot_addrs_def)

lemma rt_addrs_split:
  assumes "i < length ss"
  obtains R where "\<And>c. rt_addrs (Node a c ss) = slot_addrs (ss ! i) + R"
    "\<And>c x. rt_addrs (Node a c (ss[i := x])) = slot_addrs x + R"
proof -
  let ?R = "add_mset a (sum_list (map slot_addrs (take i ss)) + sum_list (map slot_addrs (drop (Suc i) ss)))"
  have "sum_list (map slot_addrs (ss[i := x])) = slot_addrs x +
      (sum_list (map slot_addrs (take i ss)) + sum_list (map slot_addrs (drop (Suc i) ss)))" for x
    using assms by (simp add: upd_conv_take_nth_drop ac_simps)
  from this this [of "ss ! i"] show thesis
    by (intro that [of ?R]) (simp_all add: rt_addrs_Node)
qed

lemma filter_update:
  assumes "j < length ss"
  shows "length (filter P (ss[j := x])) + (if P (ss ! j) then 1 else 0) =
    length (filter P ss) + (if P x then 1 else 0)"
  using assms
proof (induction ss arbitrary: j)
  case (Cons y ss)
  then show ?case by (cases j) (auto split: if_splits)
qed simp

definition fresh_node :: "u64 \<Rightarrow> rnode" where
  "fresh_node p = Node p 0 (replicate 64 None)"

lemma fresh_node_facts [simp]:
  "0 < k \<Longrightarrow> rt_wf k (fresh_node p)" "rt_get k (fresh_node p) i = None" "rt_addrs (fresh_node p) = {#p#}"
proof -
  have s: "sum_list (map slot_addrs (replicate n None)) = {#}" for n by (induction n) simp_all
  show "rt_addrs (fresh_node p) = {#p#}" unfolding fresh_node_def rt_addrs_Node s ..
  show "rt_get k (fresh_node p) i = None"
    unfolding fresh_node_def using nth_replicate [OF dig_less] by (cases k) simp_all
  show "0 < k \<Longrightarrow> rt_wf k (fresh_node p)"
    unfolding fresh_node_def by (cases k) (simp_all add: filter_replicate)
qed

lemma heap_live_alloc:
  assumes "heap_ok h"
  shows "radix_tree_node_alloc h = Some (h, None) \<or>
    (\<exists>h' p. radix_tree_node_alloc h = Some (h', Some (fresh_node p)) \<and> heap_ok h' \<and>
       mset_set (heap_live h') = add_mset p (mset_set (heap_live h)))"
proof -
  obtain h' p where k: "kmalloc 520 h = Some (h', p)" using kmalloc_returns [OF assms, of 520] by auto
  show ?thesis
  proof (cases "p = 0")
    case True
    then show ?thesis using k kmalloc_fails [OF assms] by (simp add: radix_tree_node_alloc_def)
  next
    case False
    then have "kmalloc_opt 520 h = Some (h', Some p)" using k by (simp add: kmalloc_opt_Some)
    from kheap.alloc_new [OF assms this] show ?thesis
      using k False by (simp add: radix_tree_node_alloc_def fresh_node_def)
  qed
qed

lemma heap_live_free:
  assumes "heap_ok h" and "mset_set (heap_live h) = add_mset p M"
  shows "heap_ok (kfree p h)" and "mset_set (heap_live (kfree p h)) = M"
proof -
  have "p \<in># mset_set (heap_live h)" unfolding assms(2) by simp
  then have "p \<in> heap_live h" by simp
  from kheap.release_live [OF assms(1) this] this assms(2)
  show "heap_ok (kfree p h)" "mset_set (heap_live (kfree p h)) = M"
    by (simp_all add: mset_set_Diff)
qed

section \<open>Updating a slot\<close>

definition slot_ok :: "nat \<Rightarrow> rnode option \<Rightarrow> bool" where
  "slot_ok k x \<longleftrightarrow> (\<forall>t. x = Some t \<longrightarrow> (if k = 0 then \<exists>v. t = Item v \<and> v \<noteq> 0 else rt_wf k t))"

lemma rt_wf_slot: "rt_wf (Suc k) (Node a c ss) \<Longrightarrow> i < 64 \<Longrightarrow> slot_ok k (ss ! i)"
  using nth_mem [of i ss] by (cases "ss ! i") (auto simp: slot_ok_def)

lemma rt_wf_count:
  assumes "rt_wf (Suc k) (Node a c ss)" and "i < 64"
  shows "ss ! i = None \<Longrightarrow> unat (c + 1) = unat c + 1" and "ss ! i \<noteq> None \<Longrightarrow> unat (c - 1) + 1 = unat c"
proof -
  have c: "unat c = length (filter (\<lambda>x. x \<noteq> None) ss)" "length ss = 64" using assms by auto
  then have "unat c \<le> 64" using length_filter_le [of "\<lambda>x. x \<noteq> None" ss] by simp
  then show "unat (c + 1) = unat c + 1" by (simp add: unat_add_no_wrap)
  assume "ss ! i \<noteq> None"
  then have "ss ! i \<in> set (filter (\<lambda>x. x \<noteq> None) ss)" using assms(2) c(2) by (simp add: nth_mem)
  then have "0 < unat c" unfolding c(1) by (metis length_pos_if_in_set)
  then have "1 \<le> c" by (simp add: word_le_nat_alt)
  then show "unat (c - 1) + 1 = unat c" using \<open>0 < unat c\<close> by (simp add: unat_diff_le)
qed

lemma rt_wf_update:
  assumes "rt_wf (Suc k) (Node a c ss)" and "i < 64" and "slot_ok k x"
    and "unat c' + (if ss ! i \<noteq> None then 1 else 0) = unat c + (if x \<noteq> None then 1 else 0)"
  shows "rt_wf (Suc k) (Node a c' (ss[i := x]))"
proof -
  have "length ss = 64" using assms(1) by simp
  then have "length (filter (\<lambda>x. x \<noteq> None) (ss[i := x])) + (if ss ! i \<noteq> None then 1 else 0) =
      length (filter (\<lambda>x. x \<noteq> None) ss) + (if x \<noteq> None then 1 else 0)"
    using filter_update [of i ss "\<lambda>x. x \<noteq> None" x] assms(2) by simp
  then have "unat c' = length (filter (\<lambda>x. x \<noteq> None) (ss[i := x]))" using assms(1,4) by simp
  moreover have "slot_ok k y" if "y \<in> set (ss[i := x])" for y
    using that set_update_subset_insert [of ss i x] assms(1,3) by (auto simp: slot_ok_def)
  ultimately show ?thesis using assms(1) by (simp add: slot_ok_def)
qed

lemma rt_get_low: "low k i = low k j \<Longrightarrow> rt_get k t i = rt_get k t j"
  by (induction k t i rule: rt_get.induct) (auto simp: low_Suc split: option.splits)

text \<open>The node of height \<open>k\<close> after an insertion that succeeded or failed.\<close>

definition inserted :: "nat \<Rightarrow> u64 \<Rightarrow> u64 \<Rightarrow> rnode \<Rightarrow> rnode \<Rightarrow> bool \<Rightarrow> bool" where
  "inserted k index item t t' ok \<longleftrightarrow> rt_wf k t' \<and>
     (if ok then rt_get k t index = None \<and>
        (\<forall>j. rt_get k t' j = (if low k j = low k index then Some item else rt_get k t j))
      else \<forall>j. rt_get k t' j = rt_get k t j)"

lemma inserted_child:
  assumes wf: "rt_wf (Suc k) (Node a c ss)" and k: "k \<noteq> 0"
    and old: "\<And>j. rt_get k t j = (case ss ! dig k index of None \<Rightarrow> None | Some u \<Rightarrow> rt_get k u j)"
    and ins: "inserted k index item t t' ok"
    and c': "unat c' + (if ss ! dig k index \<noteq> None then 1 else 0) = unat c + 1"
  shows "inserted (Suc k) index item (Node a c ss) (Node a c' (ss[dig k index := Some t'])) ok"
proof -
  have len: "length ss = 64" using wf by simp
  have here: "rt_get (Suc k) (Node a c ss) j = rt_get k t j" if "dig k j = dig k index" for j
    using old k that by (simp split: option.splits)
  have get: "rt_get (Suc k) (Node a c' (ss[dig k index := Some t'])) j =
      (if dig k j = dig k index then rt_get k t' j else rt_get (Suc k) (Node a c ss) j)" for j
    using k by (simp add: nth_list_update len)
  have "rt_wf (Suc k) (Node a c' (ss[dig k index := Some t']))"
    by (rule rt_wf_update [OF wf dig_less]) (use ins k c' in \<open>auto simp: slot_ok_def inserted_def\<close>)
  with ins here get show ?thesis by (auto simp: inserted_def low_Suc)
qed

lemma inserted_leaf:
  assumes wf: "rt_wf (Suc 0) (Node a c ss)" and "ss ! dig 0 index = None" and "item \<noteq> 0"
  shows "inserted (Suc 0) index item (Node a c ss) (Node a (c + 1) (ss[dig 0 index := Some (Item item)])) True"
proof -
  have len: "length ss = 64" using wf by simp
  have "rt_wf (Suc 0) (Node a (c + 1) (ss[dig 0 index := Some (Item item)]))"
    by (rule rt_wf_update [OF wf dig_less])
      (use assms rt_wf_count(1) [OF wf dig_less assms(2)] in \<open>auto simp: slot_ok_def\<close>)
  moreover have "rt_get (Suc 0) (Node a (c + 1) (ss[dig 0 index := Some (Item item)])) j =
      (if low (Suc 0) j = low (Suc 0) index then Some item else rt_get (Suc 0) (Node a c ss) j)" for j
    using low_1 [of j index] by (auto simp: nth_list_update len slot_value_def)
  ultimately show ?thesis using assms(2) by (simp add: inserted_def)
qed

lemma insert_node_spec:
  assumes "rt_wf k t" and "k \<le> 10" and "item \<noteq> 0" and "heap_ok h"
    and "mset_set (heap_live h) = rt_addrs t + M"
  shows "\<exists>h' t' ok. insert_node k index item t h = Some (h', t', ok) \<and> inserted k index item t t' ok \<and>
    heap_ok h' \<and> mset_set (heap_live h') = rt_addrs t' + M"
  using assms
proof (induction k arbitrary: t h M)
  case (Suc k)
  obtain a c ss where t: "t = Node a c ss" using Suc.prems(1) by (cases t) auto
  note wf = Suc.prems(1) [unfolded t]
  let ?o = "dig k index"
  have o: "slot_offset index (k * RADIX_TREE_MAP_SHIFT) = ?o" using Suc.prems(2) by (simp add: slot_offset_dig)
  have small: "\<not> 64 \<le> k * RADIX_TREE_MAP_SHIFT" using Suc.prems(2) by (simp add: RADIX_TREE_MAP_SHIFT_def)
  have len: "?o < length ss" using wf by simp
  obtain R where R: "\<And>c. rt_addrs (Node a c ss) = slot_addrs (ss ! ?o) + R"
    "\<And>c x. rt_addrs (Node a c (ss[?o := x])) = slot_addrs x + R" using rt_addrs_split [OF len] by blast
  show ?case
  proof (cases "ss ! ?o")
    case None
    show ?thesis
    proof (cases "k = 0")
      case True
      let ?t = "Node a (c + 1) (ss[?o := Some (Item item)])"
      have "insert_node (Suc k) index item t h = Some (h, ?t, True)"
        using True None o Suc.prems(3) by (simp add: t slot_of_def RADIX_TREE_MAP_SHIFT_def)
      moreover have "inserted (Suc k) index item t ?t True"
        using inserted_leaf [OF _ _ Suc.prems(3), of a c ss index] wf None True by (simp add: t del: rt_wf.simps)
      moreover have "mset_set (heap_live h) = rt_addrs ?t + M"
        unfolding R(2) using Suc.prems(5) R(1) None by (simp add: t)
      ultimately show ?thesis using Suc.prems(4) by blast
    next
      case False
      from heap_live_alloc [OF Suc.prems(4)] show ?thesis
      proof (elim disjE exE conjE)
        assume "radix_tree_node_alloc h = Some (h, None)"
        then have "insert_node (Suc k) index item t h = Some (h, t, False)"
          using None o False small by (simp add: t Let_def)
        moreover have "inserted (Suc k) index item t t False" using Suc.prems(1) by (simp add: inserted_def)
        ultimately show ?thesis using Suc.prems(4,5) by blast
      next
        fix h1 p
        assume al: "radix_tree_node_alloc h = Some (h1, Some (fresh_node p))" "heap_ok h1"
          "mset_set (heap_live h1) = add_mset p (mset_set (heap_live h))"
        have "\<exists>h' t' ok. insert_node k index item (fresh_node p) h1 = Some (h', t', ok) \<and>
            inserted k index item (fresh_node p) t' ok \<and> heap_ok h' \<and>
            mset_set (heap_live h') = rt_addrs t' + (R + M)"
          by (rule Suc.IH) (use Suc.prems(2,3,5) False al None R(1) [of c] t in simp_all)
        then obtain h' t' ok where r: "insert_node k index item (fresh_node p) h1 = Some (h', t', ok)"
          "inserted k index item (fresh_node p) t' ok" "heap_ok h'"
          "mset_set (heap_live h') = rt_addrs t' + (R + M)" by blast
        have "inserted (Suc k) index item (Node a c ss) (Node a (c + 1) (ss[?o := Some t'])) ok"
          by (rule inserted_child [OF wf False _ r(2)])
            (use None rt_wf_count(1) [OF wf dig_less None] in auto)
        then show ?thesis using al r None o False small R by (simp add: t Let_def add.assoc)
      qed
    qed
  next
    case (Some u)
    show ?thesis
    proof (cases "k = 0")
      case True
      have "insert_node (Suc k) index item t h = Some (h, t, False)"
        using True Some o by (simp add: t RADIX_TREE_MAP_SHIFT_def)
      moreover have "inserted (Suc k) index item t t False" using Suc.prems(1) by (simp add: inserted_def)
      ultimately show ?thesis using Suc.prems(4,5) by blast
    next
      case False
      have "rt_wf k u" using rt_wf_slot [OF wf dig_less [of k index]] Some False by (simp add: slot_ok_def)
      then have "\<exists>h' t' ok. insert_node k index item u h = Some (h', t', ok) \<and>
          inserted k index item u t' ok \<and> heap_ok h' \<and> mset_set (heap_live h') = rt_addrs t' + (R + M)"
        by (rule Suc.IH) (use Suc.prems(2-5) Some R(1) [of c] t in \<open>simp_all add: add.assoc\<close>)
      then obtain h' t' ok where r: "insert_node k index item u h = Some (h', t', ok)"
        "inserted k index item u t' ok" "heap_ok h'" "mset_set (heap_live h') = rt_addrs t' + (R + M)" by blast
      have "inserted (Suc k) index item (Node a c ss) (Node a c (ss[?o := Some t'])) ok"
        by (rule inserted_child [OF wf False _ r(2)]) (use Some in auto)
      then show ?thesis using r Some o False small R by (simp add: t Let_def add.assoc)
    qed
  qed
qed simp

section \<open>Deletion\<close>

text \<open>The content of a node that may have been freed.\<close>

definition opt_get :: "nat \<Rightarrow> rnode option \<Rightarrow> u64 \<Rightarrow> u64 option" where
  "opt_get k x j = (case x of None \<Rightarrow> None | Some t \<Rightarrow> rt_get k t j)"

definition deleted :: "nat \<Rightarrow> u64 \<Rightarrow> rnode \<Rightarrow> rnode option \<Rightarrow> u64 option \<Rightarrow> bool" where
  "deleted k index t x item \<longleftrightarrow> (\<forall>t'. x = Some t' \<longrightarrow> rt_wf k t') \<and> item = rt_get k t index \<and>
     (\<forall>j. opt_get k x j = (if low k j = low k index then None else rt_get k t j))"

lemma deleted_none:
  assumes "rt_wf k t" and "rt_get k t index = None"
  shows "deleted k index t (Some t) None"
proof -
  have "rt_get k t j = None" if "low k j = low k index" for j
    using rt_get_low [OF that, of t] assms(2) by simp
  then show ?thesis using assms by (simp add: deleted_def opt_get_def)
qed

lemma count_0:
  assumes "rt_wf (Suc k) (Node a c ss)" and "c = 0"
  shows "rt_get (Suc k) (Node a c ss) j = None" and "rt_addrs (Node a c ss) = {#a#}"
proof -
  have "filter (\<lambda>x. x \<noteq> None) ss = []" using assms by simp
  then have none: "\<forall>x\<in>set ss. x = None" by (simp add: filter_empty_conv)
  moreover have "dig k j < length ss" using assms(1) by simp
  ultimately have "ss ! dig k j = None" using nth_mem by blast
  then show "rt_get (Suc k) (Node a c ss) j = None" by simp
  have "sum_list (map slot_addrs ss) = {#}" using none by (induction ss) auto
  then show "rt_addrs (Node a c ss) = {#a#}" by (simp add: rt_addrs_Node)
qed

text \<open>Clearing a slot and freeing the node when this was its last one.\<close>

lemma prune_slot:
  assumes wf: "rt_wf (Suc k) (Node a c ss)" and some: "ss ! dig k index = Some u"
    and u: "\<And>j. low k j \<noteq> low k index \<Longrightarrow> k \<noteq> 0 \<Longrightarrow> rt_get k u j = None"
    and ok: "heap_ok h" and R: "\<And>c x. rt_addrs (Node a c (ss[dig k index := x])) = slot_addrs x + R"
    and live: "mset_set (heap_live h) = R + M"
  shows "\<exists>h' x. prune a (c - 1) (ss[dig k index := None]) h = (h', x) \<and>
    deleted (Suc k) index (Node a c ss) x (rt_get (Suc k) (Node a c ss) index) \<and>
    heap_ok h' \<and> mset_set (heap_live h') = slot_addrs x + M"
proof -
  let ?ss = "ss[dig k index := None]"
  have len: "length ss = 64" using wf by simp
  have wf': "rt_wf (Suc k) (Node a (c - 1) ?ss)"
    by (rule rt_wf_update [OF wf dig_less])
      (use some rt_wf_count(2) [OF wf dig_less [of k index]] in \<open>simp_all add: slot_ok_def\<close>)
  have get: "rt_get (Suc k) (Node a (c - 1) ?ss) j =
      (if low (Suc k) j = low (Suc k) index then None else rt_get (Suc k) (Node a c ss) j)" for j
  proof (cases "dig k j = dig k index")
    case True
    then have "low (Suc k) j = low (Suc k) index \<longleftrightarrow> low k j = low k index" by (simp add: low_Suc)
    moreover have "low k j = low k index" if "k = 0" using that by (simp add: low_def)
    ultimately show ?thesis using u [of j] some True by (auto simp: len)
  next
    case False
    then show ?thesis by (auto simp: nth_list_update low_Suc)
  qed
  show ?thesis
  proof (cases "0 < c - 1")
    case True
    then have "prune a (c - 1) ?ss h = (h, Some (Node a (c - 1) ?ss))" by (simp add: prune_def)
    moreover have "deleted (Suc k) index (Node a c ss) (Some (Node a (c - 1) ?ss)) (rt_get (Suc k) (Node a c ss) index)"
      unfolding deleted_def opt_get_def using wf' get by (simp del: rt_wf.simps rt_get.simps)
    moreover have "mset_set (heap_live h) = slot_addrs (Some (Node a (c - 1) ?ss)) + M"
      using live R [of "c - 1" None] by simp
    ultimately show ?thesis using ok by blast
  next
    case False
    then have "c - 1 = 0" by (simp add: word_gt_0)
    note empty = count_0 [OF wf' this]
    have "R = {#a#}" using R [of "c - 1" None] empty(2) by simp
    then have "mset_set (heap_live h) = add_mset a M" using live by simp
    note f = heap_live_free [OF ok this]
    have "deleted (Suc k) index (Node a c ss) None (rt_get (Suc k) (Node a c ss) index)"
      unfolding deleted_def opt_get_def using get empty(1) by (simp del: rt_get.simps)
    then show ?thesis using False f by (simp add: prune_def)
  qed
qed

lemma deleted_child:
  assumes wf: "rt_wf (Suc k) (Node a c ss)" and k: "k \<noteq> 0" and some: "ss ! dig k index = Some u"
    and del: "deleted k index u (Some u') item"
  shows "deleted (Suc k) index (Node a c ss) (Some (Node a c (ss[dig k index := Some u']))) item"
proof -
  have len: "length ss = 64" using wf by simp
  have "rt_wf (Suc k) (Node a c (ss[dig k index := Some u']))"
    by (rule rt_wf_update [OF wf dig_less]) (use del k some in \<open>auto simp: slot_ok_def deleted_def\<close>)
  moreover have "rt_get (Suc k) (Node a c (ss[dig k index := Some u'])) j =
      (if low (Suc k) j = low (Suc k) index then None else rt_get (Suc k) (Node a c ss) j)" for j
    using del k some by (auto simp: nth_list_update len low_Suc deleted_def opt_get_def)
  moreover have "item = rt_get (Suc k) (Node a c ss) index" using del k some by (simp add: deleted_def)
  ultimately show ?thesis by (simp add: deleted_def opt_get_def)
qed

lemma delete_node_spec:
  assumes "rt_wf k t" and "k \<le> 10" and "heap_ok h" and "mset_set (heap_live h) = rt_addrs t + M"
  shows "\<exists>h' x item. delete_node k index t h = Some (h', x, item) \<and> deleted k index t x item \<and>
    heap_ok h' \<and> mset_set (heap_live h') = slot_addrs x + M"
  using assms
proof (induction k arbitrary: t h M)
  case (Suc k)
  obtain a c ss where t: "t = Node a c ss" using Suc.prems(1) by (cases t) auto
  note wf = Suc.prems(1) [unfolded t]
  let ?o = "dig k index"
  have o: "slot_offset index (k * RADIX_TREE_MAP_SHIFT) = ?o" using Suc.prems(2) by (simp add: slot_offset_dig)
  have len: "?o < length ss" using wf by simp
  obtain R where R: "\<And>c. rt_addrs (Node a c ss) = slot_addrs (ss ! ?o) + R"
    "\<And>c x. rt_addrs (Node a c (ss[?o := x])) = slot_addrs x + R" using rt_addrs_split [OF len] by blast
  show ?case
  proof (cases "ss ! ?o")
    case None
    then show ?thesis using Suc.prems deleted_none [OF wf, of index] o by (auto simp: t Let_def)
  next
    case (Some u)
    have slot: "slot_ok k (Some u)" using rt_wf_slot [OF wf dig_less [of k index]] Some by simp
    show ?thesis
    proof (cases "k = 0")
      case True
      have "mset_set (heap_live h) = R + M"
        using Suc.prems(4) slot True Some R(1) by (auto simp: t slot_ok_def)
      from prune_slot [OF wf Some _ Suc.prems(3) R(2) this] show ?thesis
        using True Some o by (auto simp: t Let_def)
    next
      case False
      have "rt_wf k u" using slot False by (simp add: slot_ok_def)
      then have "\<exists>h' x item. delete_node k index u h = Some (h', x, item) \<and> deleted k index u x item \<and>
          heap_ok h' \<and> mset_set (heap_live h') = slot_addrs x + (R + M)"
        by (rule Suc.IH) (use Suc.prems(2-4) Some R(1) [of c] t in \<open>simp_all add: add.assoc\<close>)
      then obtain h' x item where r: "delete_node k index u h = Some (h', x, item)"
        "deleted k index u x item" "heap_ok h'" "mset_set (heap_live h') = slot_addrs x + (R + M)" by blast
      show ?thesis
      proof (cases x)
        case None
        have "rt_get k u j = None" if "low k j \<noteq> low k index" for j
          using r(2) None that by (auto simp: deleted_def opt_get_def) metis
        moreover have "mset_set (heap_live h') = R + M" using r(4) None by simp
        moreover have "item = rt_get (Suc k) (Node a c ss) index"
          using r(2) Some False by (simp add: deleted_def)
        ultimately show ?thesis
          using prune_slot [OF wf Some _ r(3) R(2)] r(1) Some False o None by (fastforce simp: t Let_def)
      next
        case (Some u')
        have "deleted (Suc k) index (Node a c ss) (Some (Node a c (ss[?o := Some u']))) item"
          using deleted_child [OF wf False \<open>ss ! ?o = Some u\<close>] r(2) Some by simp
        then show ?thesis using r Some \<open>ss ! ?o = Some u\<close> False o R by (simp add: t Let_def add.assoc)
      qed
    qed
  qed
qed simp

section \<open>Growing and shrinking the tree\<close>

definition rt_ok :: "radix_tree_root \<Rightarrow> bool" where
  "rt_ok r \<longleftrightarrow> rt_height r \<le> 10 \<and> (\<forall>t. rt_node r = Some t \<longrightarrow> rt_wf (rt_height r) t)"

definition rt_map :: "radix_tree_root \<Rightarrow> u64 \<Rightarrow> u64 option" where
  "rt_map r i = (if unat i < 64 ^ rt_height r then opt_get (rt_height r) (rt_node r) i else None)"

text \<open>The tree with the allocations that are not its own.\<close>

definition rt_owns :: "heap \<Rightarrow> radix_tree_root \<Rightarrow> u64 multiset \<Rightarrow> bool" where
  "rt_owns h r M \<longleftrightarrow> heap_ok h \<and> mset_set (heap_live h) = slot_addrs (rt_node r) + M"

lemma dig_0_iff: "unat i < 64 ^ Suc k \<Longrightarrow> dig k i = 0 \<longleftrightarrow> unat i < 64 ^ k"
proof -
  assume "unat i < 64 ^ Suc k"
  then have "unat i div 64 ^ k < 64" by (simp add: less_mult_imp_div_less)
  then have "dig k i = unat i div 64 ^ k" by (simp add: dig_def)
  then show ?thesis by (simp add: div_eq_0_iff)
qed

lemma rt_map_wrap:
  assumes "k \<noteq> 0" and "ss ! 0 = Some t" and "\<And>j. j < 64 \<Longrightarrow> j \<noteq> 0 \<Longrightarrow> ss ! j = None"
  shows "rt_map \<lparr>rt_height = Suc k, rt_node = Some (Node a c ss)\<rparr> = rt_map \<lparr>rt_height = k, rt_node = Some t\<rparr>"
proof
  fix i :: u64
  have "(64 :: nat) ^ k \<le> 64 ^ Suc k" by (rule power_increasing) simp_all
  then have le: "unat i < 64 ^ k \<Longrightarrow> unat i < 64 ^ Suc k" by linarith
  have get: "rt_get (Suc k) (Node a c ss) i = (if dig k i = 0 then rt_get k t i else None)"
    using assms(1,2) assms(3) [of "dig k i"] by simp
  show "rt_map \<lparr>rt_height = Suc k, rt_node = Some (Node a c ss)\<rparr> i =
      rt_map \<lparr>rt_height = k, rt_node = Some t\<rparr> i"
  proof (cases "unat i < 64 ^ Suc k")
    case True
    then show ?thesis using dig_0_iff [OF True]
      by (simp add: rt_map_def opt_get_def get del: rt_get.simps)
  next
    case False
    then show ?thesis using le by (auto simp: rt_map_def)
  qed
qed

lemma single_slot:
  assumes wf: "rt_wf (Suc k) (Node a c ss)" and c: "c = 1" and z: "ss ! 0 = Some t"
  shows "j < 64 \<Longrightarrow> j \<noteq> 0 \<Longrightarrow> ss ! j = None" and "rt_addrs (Node a c ss) = add_mset a (rt_addrs t)"
proof -
  obtain xs where ss: "ss = Some t # xs" using wf z by (cases ss) auto
  then have "filter (\<lambda>x. x \<noteq> None) xs = []" using wf c by simp
  then have none: "\<forall>x\<in>set xs. x = None" by (simp add: filter_empty_conv)
  show "ss ! j = None" if "j < 64" "j \<noteq> 0"
  proof -
    have "xs ! (j - 1) \<in> set xs" using that wf ss by (intro nth_mem) auto
    then show ?thesis using none that ss by (cases j) auto
  qed
  have "sum_list (map slot_addrs xs) = {#}" using none by (induction xs) auto
  then show "rt_addrs (Node a c ss) = add_mset a (rt_addrs t)" by (simp add: ss rt_addrs_Node)
qed

lemma shrink_spec:
  assumes "k \<le> 10" and "\<And>t. n = Some t \<Longrightarrow> rt_wf k t" and "heap_ok h"
    and "mset_set (heap_live h) = slot_addrs n + M"
  shows "case radix_tree_shrink k n h of (h', r) \<Rightarrow> rt_ok r \<and> rt_owns h' r M \<and>
    rt_map r = rt_map \<lparr>rt_height = k, rt_node = n\<rparr>"
  using assms
proof (induction k n h rule: radix_tree_shrink.induct)
  case (1 n h)
  then show ?case by (cases n) (auto simp: rt_ok_def rt_owns_def)
next
  case (2 k h)
  then show ?case by (auto simp: rt_ok_def rt_owns_def rt_map_def opt_get_def)
next
  case (3 k v h)
  then show ?case by simp
next
  case (4 k a c ss h)
  have wf: "rt_wf (Suc k) (Node a c ss)" using 4(3) by simp
  show ?case
  proof (cases "c \<noteq> 1 \<or> ss ! 0 = None \<or> Suc k \<le> 1")
    case True
    then show ?thesis using 4 by (auto simp: rt_ok_def rt_owns_def simp del: rt_wf.simps)
  next
    case False
    then obtain t where t: "ss ! 0 = Some t" and c: "c = 1" and k: "k \<noteq> 0" by auto
    note one = single_slot [OF wf c t]
    have "mset_set (heap_live h) = add_mset a (rt_addrs t + M)" using 4(5) one(2) by simp
    note f = heap_live_free [OF 4(4) this]
    have "rt_wf k t" using rt_wf_slot [OF wf, of 0] t k by (simp add: slot_ok_def)
    then have "case radix_tree_shrink k (ss ! 0) (kfree a h) of (h', r) \<Rightarrow> rt_ok r \<and> rt_owns h' r M \<and>
        rt_map r = rt_map \<lparr>rt_height = k, rt_node = ss ! 0\<rparr>"
      using False t 4(2) f by (intro 4(1)) auto
    then show ?thesis
      using False t rt_map_wrap [OF k t one(1)] by (simp split: prod.splits)
  qed
qed

lemma wrap_node:
  assumes wf: "rt_wf k t" and k: "k \<noteq> 0"
  shows "rt_wf (Suc k) (Node p 1 ((replicate 64 None)[0 := Some t]))"
    and "rt_map \<lparr>rt_height = Suc k, rt_node = Some (Node p 1 ((replicate 64 None)[0 := Some t]))\<rparr> =
      rt_map \<lparr>rt_height = k, rt_node = Some t\<rparr>"
    and "rt_addrs (Node p 1 ((replicate 64 None)[0 := Some t])) = add_mset p (rt_addrs t)"
proof -
  let ?ss = "(replicate 64 None)[0 := Some t]"
  have fresh: "rt_wf (Suc k) (Node p 0 (replicate 64 None))"
    using fresh_node_facts(1) [of "Suc k"] unfolding fresh_node_def by blast
  have rep: "replicate 64 (None :: rnode option) ! 0 = None" by (simp add: nth_replicate)
  show wf': "rt_wf (Suc k) (Node p 1 ?ss)"
    by (rule rt_wf_update [OF fresh]) (use wf k rep in \<open>simp_all add: slot_ok_def\<close>)
  have len: "0 < length (replicate 64 (None :: rnode option))" by simp
  have z: "?ss ! 0 = Some t" using nth_list_update_eq [OF len] by blast
  show "rt_map \<lparr>rt_height = Suc k, rt_node = Some (Node p 1 ?ss)\<rparr> = rt_map \<lparr>rt_height = k, rt_node = Some t\<rparr>"
    by (rule rt_map_wrap [OF k z]) (simp add: nth_list_update nth_replicate)
  show "rt_addrs (Node p 1 ?ss) = add_mset p (rt_addrs t)"
    by (rule single_slot(2) [OF wf' _ z]) simp
qed

definition same_tree :: "radix_tree_root \<Rightarrow> u64 multiset \<Rightarrow> heap \<Rightarrow> radix_tree_root \<Rightarrow> bool" where
  "same_tree r M h' r' \<longleftrightarrow> rt_ok r' \<and> rt_owns h' r' M \<and> rt_map r' = rt_map r"

lemma extend_loop_spec:
  assumes "rt_ok r" and "rt_owns h r M" and "height \<le> 10" and "rt_node r \<noteq> None" and "rt_height r \<noteq> 0"
  shows "\<exists>h' r' ok. extend_loop height r h = Some (h', r', ok) \<and> same_tree r M h' r' \<and>
    (ok \<longrightarrow> height \<le> rt_height r' \<and> rt_node r' \<noteq> None)"
  using assms
proof (induction height r h rule: extend_loop.induct)
  case (1 height r h)
  show ?case
  proof (cases "rt_height r < height")
    case False
    then have "extend_loop height r h = Some (h, r, True)" by (subst extend_loop.simps) simp
    then show ?thesis using 1 False by (auto simp: same_tree_def)
  next
    case True
    obtain t where t: "rt_node r = Some t" using 1 by auto
    have wf: "rt_wf (rt_height r) t" and ok: "heap_ok h" and live: "mset_set (heap_live h) = rt_addrs t + M"
      using 1(2,3) t by (auto simp: rt_ok_def rt_owns_def)
    from heap_live_alloc [OF ok] show ?thesis
    proof (elim disjE exE conjE)
      assume "radix_tree_node_alloc h = Some (h, None)"
      then have "extend_loop height r h = Some (h, r, False)" using True by (subst extend_loop.simps) simp
      then show ?thesis using 1(2,3) by (auto simp: same_tree_def)
    next
      fix h1 p
      assume al: "radix_tree_node_alloc h = Some (h1, Some (fresh_node p))" "heap_ok h1"
        "mset_set (heap_live h1) = add_mset p (mset_set (heap_live h))"
      let ?r = "\<lparr>rt_height = rt_height r + 1, rt_node = Some (Node p 1 ((replicate 64 None)[0 := rt_node r]))\<rparr>"
      have step: "extend_loop height r h = extend_loop height ?r h1"
        using True al(1) by (subst extend_loop.simps) (simp add: fresh_node_def)
      note w = wrap_node [OF wf 1(6), of p]
      have "rt_ok ?r" using w(1) True 1(4) t by (simp add: rt_ok_def del: rt_wf.simps)
      moreover have "rt_owns h1 ?r M" using al(2,3) live w(3) t by (simp add: rt_owns_def)
      ultimately have "\<exists>h' r' ok. extend_loop height ?r h1 = Some (h', r', ok) \<and> same_tree ?r M h' r' \<and>
          (ok \<longrightarrow> height \<le> rt_height r' \<and> rt_node r' \<noteq> None)"
        by (intro 1(1) [OF True al(1)]) (simp_all add: fresh_node_def 1(4))
      moreover have "rt_map ?r = rt_map r"
        using w(2) t by (simp add: rt_map_def fun_eq_iff)
      ultimately show ?thesis unfolding step by (simp add: same_tree_def)
    qed
  qed
qed

lemma extend_height_spec:
  assumes "unat index < 64 ^ 10" and "h \<le> 10"
  shows "\<exists>h'. extend_height index h = Some h' \<and> h \<le> h' \<and> h' \<le> 10 \<and> unat index < 64 ^ h'"
  using assms(2)
proof (induction "10 - h" arbitrary: h rule: less_induct)
  case less
  show ?case
  proof (cases "max_index h < index")
    case True
    then have "64 ^ h \<le> unat index" using max_index_less [OF less.prems] by simp
    then have "h \<noteq> 10" using assms(1) by (auto simp: not_le)
    then have "\<exists>h'. extend_height index (h + 1) = Some h' \<and> h + 1 \<le> h' \<and> h' \<le> 10 \<and> unat index < 64 ^ h'"
      using less.prems by (intro less.hyps) auto
    moreover have "extend_height index h = extend_height index (h + 1)"
      using True by (subst extend_height.simps) simp
    ultimately show ?thesis by (metis add_leD1)
  next
    case False
    then show ?thesis using max_index_less [OF less.prems] less.prems
      by (subst extend_height.simps) (simp add: not_le)
  qed
qed

lemma digits_spec: "unat index < 64 ^ digits index" and digits_le: "unat index < 64 ^ n \<Longrightarrow> digits index \<le> n"
proof -
  have step: "unat (drop_bit RADIX_TREE_MAP_SHIFT i) = unat i div 64" for i :: u64
    by (simp add: RADIX_TREE_MAP_SHIFT_def drop_bit_eq_div unat_div)
  show "unat index < 64 ^ digits index"
  proof (induction index rule: digits.induct)
    case (1 tmp)
    show ?case
    proof (cases "0 < tmp")
      case True
      then have "unat tmp div 64 < 64 ^ digits (drop_bit RADIX_TREE_MAP_SHIFT tmp)" using 1 step by simp
      then show ?thesis using True by (subst digits.simps) (simp add: div_less_iff_less_mult mult.commute)
    next
      case False
      then show ?thesis by (subst digits.simps) (simp add: word_gt_0)
    qed
  qed
  show "unat index < 64 ^ n \<Longrightarrow> digits index \<le> n"
  proof (induction index arbitrary: n rule: digits.induct)
    case (1 tmp)
    show ?case
    proof (cases "0 < tmp")
      case True
      then obtain m where m: "n = Suc m" using 1(2) by (cases n) (auto simp: word_less_nat_alt)
      then have "unat tmp div 64 < 64 ^ m" using 1(2) by (simp add: div_less_iff_less_mult mult.commute)
      then have "digits (drop_bit RADIX_TREE_MAP_SHIFT tmp) \<le> m" using 1(1) [OF True] step by simp
      then show ?thesis using True m by (subst digits.simps) simp
    qed (subst digits.simps, simp)
  qed
qed

lemma rt_map_None [simp]: "rt_node r = None \<Longrightarrow> rt_map r = Map.empty"
  by (auto simp: rt_map_def opt_get_def)

lemma rt_ok_height: "rt_ok r \<Longrightarrow> rt_node r \<noteq> None \<Longrightarrow> rt_height r \<noteq> 0"
  by (cases "rt_height r") (auto simp: rt_ok_def)

lemma same_tree_refl: "rt_ok r \<Longrightarrow> rt_owns h r M \<Longrightarrow> same_tree r M h r"
  by (simp add: same_tree_def)

lemma power_64_mono: "x < 64 ^ m \<Longrightarrow> m \<le> n \<Longrightarrow> x < (64 :: nat) ^ n"
  by (meson less_le_trans one_le_numeral power_increasing)

lemma extend_spec:
  assumes ok: "rt_ok r" and own: "rt_owns h r M" and i: "unat index < 64 ^ 10" and h0: "rt_height r \<noteq> 0"
    and big: "max_index (rt_height r) < index"
  shows "\<exists>h' r' b. radix_tree_extend r index h = Some (h', r', b) \<and> same_tree r M h' r' \<and>
    (b \<longrightarrow> rt_height r' \<noteq> 0 \<and> unat index < 64 ^ rt_height r')"
proof -
  have "64 ^ rt_height r \<le> unat index" using big max_index_less ok by (auto simp: rt_ok_def)
  then have "rt_height r + 1 \<le> 10" using i ok by (cases "rt_height r = 10") (auto simp: rt_ok_def)
  then obtain hh where hh: "extend_height index (rt_height r + 1) = Some hh" "rt_height r + 1 \<le> hh"
    "hh \<le> 10" "unat index < 64 ^ hh" using extend_height_spec [OF i] by blast
  show ?thesis
  proof (cases "rt_node r = None")
    case True
    let ?r = "r\<lparr>rt_height := hh\<rparr>"
    have "extend_loop hh ?r h = Some (h, ?r, True)" by (subst extend_loop.simps) simp
    then have "radix_tree_extend r index h = Some (h, ?r, True)" using hh(1) True by (simp add: radix_tree_extend_def)
    moreover have "same_tree r M h ?r"
      using True ok own hh(3) by (simp add: same_tree_def rt_ok_def rt_owns_def)
    ultimately show ?thesis using hh by auto
  next
    case False
    then have e: "radix_tree_extend r index h = extend_loop hh r h"
      using hh(1) by (auto simp: radix_tree_extend_def)
    obtain h' r' b where r: "extend_loop hh r h = Some (h', r', b)" "same_tree r M h' r'"
      "b \<longrightarrow> hh \<le> rt_height r' \<and> rt_node r' \<noteq> None"
      using extend_loop_spec [OF ok own hh(3) False h0] by blast
    then show ?thesis unfolding e using hh(2) power_64_mono [OF hh(4)] by auto
  qed
qed

text \<open>The first step of an insertion: a tree of sufficient height.\<close>

lemma insert_prepare:
  assumes ok: "rt_ok r" and own: "rt_owns h r M" and i: "unat index < 64 ^ 10"
  defines "r0 \<equiv> if rt_node r = None \<and> rt_height r = 0
    then r\<lparr>rt_height := (if digits index = 0 then 1 else digits index)\<rparr> else r"
  shows "\<exists>h1 r1 b. (if max_index (rt_height r0) < index then radix_tree_extend r0 index h else Some (h, r0, True)) =
      Some (h1, r1, b) \<and> same_tree r M h1 r1 \<and> (b \<longrightarrow> rt_height r1 \<noteq> 0 \<and> unat index < 64 ^ rt_height r1)"
proof -
  have d: "digits index \<le> 10" by (rule digits_le [OF i])
  have same: "same_tree r M h r0"
    using ok own d by (auto simp: same_tree_def r0_def rt_ok_def rt_owns_def)
  then have ok0: "rt_ok r0" "rt_owns h r0 M" "rt_map r0 = rt_map r" by (auto simp: same_tree_def)
  have h0: "rt_height r0 \<noteq> 0" using rt_ok_height [OF ok] by (auto simp: r0_def)
  show ?thesis
  proof (cases "max_index (rt_height r0) < index")
    case True
    then show ?thesis using extend_spec [OF ok0(1,2) i h0 True] ok0(3) by (simp add: same_tree_def)
  next
    case False
    then have "unat index < 64 ^ rt_height r0" using max_index_less ok0(1) by (auto simp: rt_ok_def not_le)
    then show ?thesis using False same h0 by auto
  qed
qed

lemma rt_map_insert:
  assumes "unat index < 64 ^ k" and "inserted k index item t t' b"
  shows "if b then rt_map \<lparr>rt_height = k, rt_node = Some t\<rparr> index = None \<and>
      rt_map \<lparr>rt_height = k, rt_node = Some t'\<rparr> = (rt_map \<lparr>rt_height = k, rt_node = Some t\<rparr>)(index \<mapsto> item)
    else rt_map \<lparr>rt_height = k, rt_node = Some t'\<rparr> = rt_map \<lparr>rt_height = k, rt_node = Some t\<rparr>"
proof -
  have "low k j = low k index \<longleftrightarrow> j = index" if "unat j < 64 ^ k" for j
    using that assms(1) by (auto simp: low_def word_unat_eq_iff)
  then show ?thesis using assms by (auto simp: inserted_def rt_map_def opt_get_def fun_eq_iff)
qed

lemma insert_into:
  assumes "rt_height r \<le> 10" and "rt_wf (rt_height r) t" and "heap_ok h" and "mset_set (heap_live h) = rt_addrs t + M"
    and "unat index < 64 ^ rt_height r" and "item \<noteq> 0" and m0: "rt_map (r\<lparr>rt_node := Some t\<rparr>) = m0"
  shows "\<exists>h3 r3 c. map_option (\<lambda>(h3, t', ok). (h3, r\<lparr>rt_node := Some t'\<rparr>, ok))
      (insert_node (rt_height r) index item t h) = Some (h3, r3, c) \<and> rt_ok r3 \<and> rt_owns h3 r3 M \<and>
    (if c then m0 index = None \<and> rt_map r3 = m0(index \<mapsto> item) else rt_map r3 = m0)"
proof -
  let ?k = "rt_height r"
  obtain h' t' b where n: "insert_node ?k index item t h = Some (h', t', b)" "inserted ?k index item t t' b"
    "heap_ok h'" "mset_set (heap_live h') = rt_addrs t' + M"
    using insert_node_spec [OF assms(2,1,6,3,4)] by blast
  have m: "rt_map (r\<lparr>rt_node := Some u\<rparr>) = rt_map \<lparr>rt_height = ?k, rt_node = Some u\<rparr>" for u
    by (simp add: rt_map_def fun_eq_iff)
  have "rt_ok (r\<lparr>rt_node := Some t'\<rparr>)" using n(2) assms(1) by (simp add: rt_ok_def inserted_def)
  moreover have "rt_owns h' (r\<lparr>rt_node := Some t'\<rparr>) M" using n(3,4) by (simp add: rt_owns_def)
  moreover note rt_map_insert [OF assms(5) n(2)]
  ultimately show ?thesis using n(1)
    by (intro exI [of _ h'] exI [of _ "r\<lparr>rt_node := Some t'\<rparr>"] exI [of _ b]) (simp add: m m0 [symmetric])
qed

lemma radix_tree_insert_spec:
  assumes ok: "rt_ok r" and own: "rt_owns h r M" and i: "unat index < 64 ^ 10" and nz: "item \<noteq> 0"
  shows "\<exists>h' r' b. radix_tree_insert r index item h = Some (h', r', b) \<and> rt_ok r' \<and> rt_owns h' r' M \<and>
    (if b then rt_map r index = None \<and> rt_map r' = (rt_map r)(index \<mapsto> item) else rt_map r' = rt_map r)"
proof -
  let ?r0 = "if rt_node r = None \<and> rt_height r = 0
    then r\<lparr>rt_height := (if digits index = 0 then 1 else digits index)\<rparr> else r"
  obtain h1 r1 b1 where p: "(if max_index (rt_height ?r0) < index then radix_tree_extend ?r0 index h
      else Some (h, ?r0, True)) = Some (h1, r1, b1)"
    and same: "same_tree r M h1 r1" and b1: "b1 \<longrightarrow> rt_height r1 \<noteq> 0 \<and> unat index < 64 ^ rt_height r1"
    using insert_prepare [OF ok own i] by blast
  note eq = radix_tree_insert_def [of r index item h, unfolded Let_def p option.case prod.case]
  have st: "rt_ok r1" "rt_owns h1 r1 M" "rt_map r1 = rt_map r" using same by (auto simp: same_tree_def)
  show ?thesis
  proof (cases b1)
    case False
    then show ?thesis using eq st by auto
  next
    case b: True
    show ?thesis
    proof (cases "rt_node r1")
      case (Some t)
      have t: "rt_wf (rt_height r1) t" "heap_ok h1" "mset_set (heap_live h1) = rt_addrs t + M"
        "rt_height r1 \<le> 10" using st Some by (auto simp: rt_ok_def rt_owns_def)
      have m: "rt_map (r1\<lparr>rt_node := Some t\<rparr>) = rt_map r1" using Some by (simp add: rt_map_def fun_eq_iff)
      obtain h3 r3 c where r3: "map_option (\<lambda>(h3, t', ok). (h3, r1\<lparr>rt_node := Some t'\<rparr>, ok))
          (insert_node (rt_height r1) index item t h1) = Some (h3, r3, c)" "rt_ok r3" "rt_owns h3 r3 M"
        "if c then rt_map r1 index = None \<and> rt_map r3 = (rt_map r1)(index \<mapsto> item) else rt_map r3 = rt_map r1"
        using insert_into [OF t(4,1,2,3) _ nz m, of index] b1 b by blast
      have "radix_tree_insert r index item h = Some (h3, r3, c)" using eq b Some r3(1) by simp
      then show ?thesis using r3(2,3) r3(4) [unfolded st(3)] by blast
    next
      case None
      from st(2) have "heap_ok h1" and live: "mset_set (heap_live h1) = M" using None by (auto simp: rt_owns_def)
      from heap_live_alloc [OF this(1)] show ?thesis
      proof (elim disjE exE conjE)
        assume "radix_tree_node_alloc h1 = Some (h1, None)"
        then show ?thesis using eq b None st by auto
      next
        fix h2 p
        assume al: "radix_tree_node_alloc h1 = Some (h2, Some (fresh_node p))" "heap_ok h2"
          "mset_set (heap_live h2) = add_mset p (mset_set (heap_live h1))"
        have wff: "rt_wf (rt_height r1) (fresh_node p)" and h10: "rt_height r1 \<le> 10"
          and lf: "mset_set (heap_live h2) = rt_addrs (fresh_node p) + M"
          using b1 b st(1) al(3) live by (simp_all add: rt_ok_def)
        have m: "rt_map (r1\<lparr>rt_node := Some (fresh_node p)\<rparr>) = rt_map r1"
          using None by (auto simp: rt_map_def opt_get_def)
        obtain h3 r3 c where r3: "map_option (\<lambda>(h3, t', ok). (h3, r1\<lparr>rt_node := Some t'\<rparr>, ok))
            (insert_node (rt_height r1) index item (fresh_node p) h2) = Some (h3, r3, c)" "rt_ok r3" "rt_owns h3 r3 M"
          "if c then rt_map r1 index = None \<and> rt_map r3 = (rt_map r1)(index \<mapsto> item) else rt_map r3 = rt_map r1"
          using insert_into [OF h10 wff al(2) lf _ nz m, of index] b1 b by blast
        have "radix_tree_insert r index item h = Some (h3, r3, c)" using eq b None al(1) r3(1) by simp
        then show ?thesis using r3(2,3) r3(4) [unfolded st(3)] by blast
      qed
    qed
  qed
qed

lemma lookup_node_spec:
  "rt_wf k t \<Longrightarrow> k \<le> 10 \<Longrightarrow>
     lookup_node k index t = Some (case rt_get k t index of None \<Rightarrow> 0 | Some v \<Rightarrow> v)"
proof (induction k arbitrary: t)
  case (Suc k)
  obtain a c ss where t: "t = Node a c ss" using Suc.prems(1) by (cases t) auto
  have o: "slot_offset index (k * RADIX_TREE_MAP_SHIFT) = dig k index"
    using Suc.prems(2) by (simp add: slot_offset_dig)
  have slot: "slot_ok k (ss ! dig k index)" using rt_wf_slot [OF Suc.prems(1) [unfolded t] dig_less] .
  show ?case
  proof (cases "ss ! dig k index")
    case None
    then show ?thesis using o by (simp add: t)
  next
    case (Some u)
    then have "k \<noteq> 0 \<Longrightarrow> rt_wf k u" using slot by (simp add: slot_ok_def)
    then show ?thesis using Some o Suc by (simp add: t)
  qed
qed simp

lemma radix_tree_lookup_spec:
  assumes "rt_ok r"
  shows "radix_tree_lookup r index = Some (case rt_map r index of None \<Rightarrow> 0 | Some v \<Rightarrow> v)"
proof (cases "rt_node r")
  case None
  then show ?thesis by (simp add: radix_tree_lookup_def)
next
  case (Some t)
  then have "rt_wf (rt_height r) t" "rt_height r \<le> 10" "rt_height r \<noteq> 0"
    using assms rt_ok_height by (auto simp: rt_ok_def)
  then show ?thesis
    using Some lookup_node_spec max_index_less
    by (simp add: radix_tree_lookup_def rt_map_def opt_get_def not_le)
qed

lemma rt_map_deleted:
  assumes "unat index < 64 ^ k" and "deleted k index t x item"
  shows "rt_map \<lparr>rt_height = k, rt_node = x\<rparr> = (rt_map \<lparr>rt_height = k, rt_node = Some t\<rparr>)(index := None)"
    and "rt_map \<lparr>rt_height = k, rt_node = Some t\<rparr> index = item"
proof -
  have "low k j = low k index \<longleftrightarrow> j = index" if "unat j < 64 ^ k" for j
    using that assms(1) by (auto simp: low_def word_unat_eq_iff)
  then show "rt_map \<lparr>rt_height = k, rt_node = x\<rparr> = (rt_map \<lparr>rt_height = k, rt_node = Some t\<rparr>)(index := None)"
    using assms by (auto simp: deleted_def rt_map_def opt_get_def fun_eq_iff)
  show "rt_map \<lparr>rt_height = k, rt_node = Some t\<rparr> index = item"
    using assms by (simp add: deleted_def rt_map_def opt_get_def)
qed

lemma rt_map_cong: "rt_height r = k \<Longrightarrow> rt_node r = x \<Longrightarrow> rt_map r = rt_map \<lparr>rt_height = k, rt_node = x\<rparr>"
  by (simp add: rt_map_def fun_eq_iff)

lemma radix_tree_delete_spec:
  assumes ok: "rt_ok r" and own: "rt_owns h r M"
  shows "\<exists>h' r'. radix_tree_delete r index h = Some (h', r', case rt_map r index of None \<Rightarrow> 0 | Some v \<Rightarrow> v) \<and>
    rt_ok r' \<and> rt_owns h' r' M \<and> rt_map r' = (rt_map r)(index := None)"
proof (cases "rt_node r")
  case None
  then show ?thesis using ok own by (auto simp: radix_tree_delete_def fun_upd_idem)
next
  case (Some t)
  let ?k = "rt_height r"
  have wf: "rt_wf ?k t" "?k \<le> 10" "?k \<noteq> 0" using ok Some rt_ok_height by (auto simp: rt_ok_def)
  show ?thesis
  proof (cases "max_index ?k < index")
    case True
    then have "rt_map r index = None" using max_index_less [OF wf(2)] by (simp add: rt_map_def)
    then show ?thesis using True Some ok own by (auto simp: radix_tree_delete_def fun_upd_idem)
  next
    case False
    then have i: "unat index < 64 ^ ?k" using max_index_less [OF wf(2)] by (simp add: not_le)
    have live: "heap_ok h" "mset_set (heap_live h) = rt_addrs t + M" using own Some by (auto simp: rt_owns_def)
    obtain h' x item where d: "delete_node ?k index t h = Some (h', x, item)" "deleted ?k index t x item"
      "heap_ok h'" "mset_set (heap_live h') = slot_addrs x + M"
      using delete_node_spec [OF wf(1,2) live] by blast
    note m = rt_map_deleted [OF i d(2), folded rt_map_cong [OF refl Some]]
    have wfx: "\<And>u. x = Some u \<Longrightarrow> rt_wf ?k u" using d(2) by (simp add: deleted_def)
    show ?thesis
    proof (cases item)
      case None
      then have "radix_tree_delete r index h = Some (h', r\<lparr>rt_node := x\<rparr>, 0)"
        using Some False wf(3) d(1) by (simp add: radix_tree_delete_def)
      moreover have "rt_map (r\<lparr>rt_node := x\<rparr>) = (rt_map r)(index := None)"
        using m(1) rt_map_cong [of "r\<lparr>rt_node := x\<rparr>"] by simp
      ultimately show ?thesis using None m(2) wfx wf(2) d(3,4) by (auto simp: rt_ok_def rt_owns_def)
    next
      case (Some v)
      define k where "k = (if x = None then 0 else ?k)"
      obtain h'' r' where s: "radix_tree_shrink k x h' = (h'', r')" by fastforce
      have "rt_map \<lparr>rt_height = k, rt_node = x\<rparr> = rt_map \<lparr>rt_height = ?k, rt_node = x\<rparr>"
        by (cases x) (simp_all add: k_def)
      moreover have "case radix_tree_shrink k x h' of (h', r) \<Rightarrow> rt_ok r \<and> rt_owns h' r M \<and>
          rt_map r = rt_map \<lparr>rt_height = k, rt_node = x\<rparr>"
        by (rule shrink_spec) (use wf(2) wfx d(3,4) in \<open>simp_all add: k_def\<close>)
      moreover have "radix_tree_delete r index h = Some (h'', r', v)"
        using \<open>rt_node r = Some t\<close> False wf(3) d(1) s Some by (simp add: radix_tree_delete_def k_def)
      ultimately show ?thesis using s m Some by simp
    qed
  qed
qed

section \<open>The tree as an index structure\<close>

definition rt_insert :: "heap \<times> radix_tree_root \<Rightarrow> u64 \<Rightarrow> u64 \<Rightarrow> ((heap \<times> radix_tree_root) \<times> bool) option" where
  "rt_insert x index item =
     map_option (\<lambda>(h, r, b). ((h, r), b)) (radix_tree_insert (snd x) index item (fst x))"

definition rt_delete :: "heap \<times> radix_tree_root \<Rightarrow> u64 \<Rightarrow> ((heap \<times> radix_tree_root) \<times> u64 option) option" where
  "rt_delete x index =
     map_option (\<lambda>(h, r, v). ((h, r), if v = 0 then None else Some v)) (radix_tree_delete (snd x) index (fst x))"

definition rt_state_ok :: "u64 multiset \<Rightarrow> heap \<times> radix_tree_root \<Rightarrow> bool" where
  "rt_state_ok M x \<longleftrightarrow> rt_ok (snd x) \<and> rt_owns (fst x) (snd x) M"

lemma rt_wf_items: "rt_wf k t \<Longrightarrow> rt_get k t i \<noteq> Some 0"
proof (induction k t i rule: rt_get.induct)
  case (3 k a c ss i)
  have slot: "slot_ok k (ss ! dig k i)" by (rule rt_wf_slot [OF 3(2) dig_less])
  show ?case
  proof (cases "ss ! dig k i")
    case (Some t)
    then show ?thesis using slot 3(1) by (auto simp: slot_ok_def slot_value_def)
  qed simp
qed auto

lemma rt_map_nonzero: "rt_ok r \<Longrightarrow> rt_map r i \<noteq> Some 0"
  using rt_wf_items by (auto simp: rt_ok_def rt_map_def opt_get_def split: option.splits)

interpretation rtmap: index_map
  "rt_state_ok M" "\<lambda>i. unat i < 64 ^ 10" "\<lambda>v. v \<noteq> 0" "\<lambda>x. rt_map (snd x)" rt_insert rt_delete for M
proof
  fix s :: "heap \<times> radix_tree_root" and k v :: u64
  assume "rt_state_ok M s"
  then have s: "rt_ok (snd s)" "rt_owns (fst s) (snd s) M" by (auto simp: rt_state_ok_def)
  show "\<exists>s'. rt_delete s k = Some (s', rt_map (snd s) k) \<and> rt_state_ok M s' \<and>
      rt_map (snd s') = (rt_map (snd s))(k := None)"
  proof -
    obtain h' r' where d: "radix_tree_delete (snd s) k (fst s) =
        Some (h', r', case rt_map (snd s) k of None \<Rightarrow> 0 | Some v \<Rightarrow> v)"
      "rt_ok r'" "rt_owns h' r' M" "rt_map r' = (rt_map (snd s))(k := None)"
      using radix_tree_delete_spec [OF s] by blast
    have "rt_delete s k = Some ((h', r'), rt_map (snd s) k)"
      using d(1) rt_map_nonzero [OF s(1), of k] by (auto simp: rt_delete_def split: option.splits)
    then show ?thesis using d by (auto simp: rt_state_ok_def)
  qed
  assume "unat k < 64 ^ 10" "v \<noteq> 0"
  then obtain h' r' b where i: "radix_tree_insert (snd s) k v (fst s) = Some (h', r', b)" "rt_ok r'"
    "rt_owns h' r' M" "if b then rt_map (snd s) k = None \<and> rt_map r' = (rt_map (snd s))(k \<mapsto> v)
      else rt_map r' = rt_map (snd s)" using radix_tree_insert_spec [OF s] by blast
  show "\<exists>s' b. rt_insert s k v = Some (s', b) \<and> rt_state_ok M s' \<and>
      (if b then rt_map (snd s) k = None \<and> rt_map (snd s') = (rt_map (snd s))(k \<mapsto> v)
       else rt_map (snd s') = rt_map (snd s))"
    by (rule exI [of _ "(h', r')"], rule exI [of _ b]) (use i in \<open>simp add: rt_insert_def rt_state_ok_def\<close>)
qed

section \<open>Properties\<close>

text \<open>
  C10. Insertion into the radix tree. On a well-formed tree whose nodes are live heap objects, an
  insertion of a non-null item at an index below \<open>2 ^ 60\<close> returns. If it reports success the index
  was free and afterwards a lookup of it gives the item; if it reports failure nothing can be
  looked up that could not before. Lookups of all other indices are unchanged, the tree stays
  well-formed, and every node it allocated is accounted for.
\<close>

theorem radix_insert_lookup:
  assumes "rt_ok r" and "rt_owns h r M" and "unat index < 64 ^ 10" and "item \<noteq> 0"
  shows "\<exists>h' r' b. radix_tree_insert r index item h = Some (h', r', b) \<and> rt_ok r' \<and> rt_owns h' r' M \<and>
    (b \<longrightarrow> radix_tree_lookup r index = Some 0) \<and>
    (\<forall>j. radix_tree_lookup r' j = (if b \<and> j = index then Some item else radix_tree_lookup r j))"
proof -
  obtain h' r' b where i: "radix_tree_insert r index item h = Some (h', r', b)" "rt_ok r'" "rt_owns h' r' M"
    "if b then rt_map r index = None \<and> rt_map r' = (rt_map r)(index \<mapsto> item) else rt_map r' = rt_map r"
    using radix_tree_insert_spec [OF assms] by blast
  show ?thesis
  proof (intro exI conjI)
    show "b \<longrightarrow> radix_tree_lookup r index = Some 0" using i(4) radix_tree_lookup_spec [OF assms(1)] by simp
    show "\<forall>j. radix_tree_lookup r' j = (if b \<and> j = index then Some item else radix_tree_lookup r j)"
      unfolding radix_tree_lookup_spec [OF assms(1)] radix_tree_lookup_spec [OF i(2)]
      using i(4) by (cases b) simp_all
  qed (use i in blast)+
qed


section \<open>Witnesses\<close>

definition demo_rt_heap :: heap where
  "demo_rt_heap = heap_init_list 0x1000 0x2000
     \<lparr>free_list = 0, hblocks = (\<lambda>_. \<lparr>hb_size = 0, hb_next = 0, hb_prev = 0, hb_free = 0, hb_magic = 0\<rparr>)\<rparr>"

definition demo_root :: radix_tree_root where
  "demo_root = \<lparr>rt_height = 0, rt_node = None\<rparr>"

lemma demo_root_ok: "rt_ok demo_root" "rt_owns demo_rt_heap demo_root {#}"
proof -
  have "heap_rep demo_rt_heap 0x1000 [(0x1FD8, True)]"
    using heap_init_rep [of "0x1000" "0x2000"] by (simp add: demo_rt_heap_def)
  then have "heap_ok demo_rt_heap" "heap_live demo_rt_heap = {}"
    using heap_blocks_rep by (auto simp: heap_ok_def heap_live_def)
  then show "rt_ok demo_root" "rt_owns demo_rt_heap demo_root {#}"
    by (simp_all add: rt_ok_def rt_owns_def demo_root_def)
qed

lemma demo_insert: "map_option (snd \<circ> snd) (radix_tree_insert demo_root 0x1003 7 demo_rt_heap) = Some True"
  by code_simp

theorem radix_insert_lookup_witness:
  "\<exists>h' r'. radix_tree_insert demo_root 0x1003 7 demo_rt_heap = Some (h', r', True) \<and>
    radix_tree_lookup r' 0x1003 = Some 7 \<and> rt_ok r' \<and> rt_owns h' r' {#}"
proof -
  from radix_insert_lookup [OF demo_root_ok, of "0x1003" 7] obtain h' r' b where
    "radix_tree_insert demo_root 0x1003 7 demo_rt_heap = Some (h', r', b)" "rt_ok r'" "rt_owns h' r' {#}"
    "\<forall>j. radix_tree_lookup r' j = (if b \<and> j = 0x1003 then Some 7 else radix_tree_lookup demo_root j)"
    by auto
  with demo_insert show ?thesis by auto
qed


end
