(* ===== verification/Page_Cache.thy ===== *)
theory Page_Cache
  imports Radix_Tree
begin

text \<open>
  The page cache, \<^verbatim>\<open>kernel/mm/page_cache.c\<close> with the inline functions of
  \<^verbatim>\<open>include/mm/page.h\<close>: pages and address spaces are records behind pointers, the pages of an
  address space are found through its radix tree. The spin lock of an address space makes each
  operation one step.
\<close>

section \<open>The code\<close>

record page =
  pg_flags :: u64
  pg_count :: u32
  pg_mapping :: u64
  pg_index :: u64
  pg_virtual :: u64

record address_space =
  page_tree :: radix_tree_root
  nrpages :: u64

record page_cache =
  pc_heap :: heap
  pc_page :: "u64 \<Rightarrow> page"
  pc_space :: "u64 \<Rightarrow> address_space"
  pc_mem :: bytes

definition upd_page :: "u64 \<Rightarrow> (page \<Rightarrow> page) \<Rightarrow> page_cache \<Rightarrow> page_cache" where
  "upd_page p f s = s\<lparr>pc_page := (pc_page s)(p := f (pc_page s p))\<rparr>"

definition upd_space :: "u64 \<Rightarrow> (address_space \<Rightarrow> address_space) \<Rightarrow> page_cache \<Rightarrow> page_cache" where
  "upd_space a f s = s\<lparr>pc_space := (pc_space s)(a := f (pc_space s a))\<rparr>"

definition get_page :: "u64 \<Rightarrow> page_cache \<Rightarrow> page_cache" where
  "get_page p s = upd_page p (\<lambda>x. x\<lparr>pg_count := pg_count x + 1\<rparr>) s"

definition put_page :: "u64 \<Rightarrow> page_cache \<Rightarrow> page_cache" where
  "put_page p s = upd_page p (\<lambda>x. x\<lparr>pg_count := pg_count x - 1\<rparr>) s"

definition PG_locked :: nat where "PG_locked = 0"
definition PG_uptodate :: nat where "PG_uptodate = 3"
definition PG_dirty :: nat where "PG_dirty = 4"

definition page_flag :: "nat \<Rightarrow> page \<Rightarrow> bool" where
  "page_flag n x \<longleftrightarrow> pg_flags x AND push_bit n 1 \<noteq> 0"

definition set_page_flag :: "nat \<Rightarrow> page \<Rightarrow> page" where
  "set_page_flag n x = x\<lparr>pg_flags := pg_flags x OR push_bit n 1\<rparr>"

definition clear_page_flag :: "nat \<Rightarrow> page \<Rightarrow> page" where
  "clear_page_flag n x = x\<lparr>pg_flags := pg_flags x AND NOT (push_bit n 1)\<rparr>"

definition find_get_page :: "u64 \<Rightarrow> u64 \<Rightarrow> page_cache \<Rightarrow> (page_cache \<times> u64) option" where
  "find_get_page mapping offset s =
     (if mapping = 0 then Some (s, 0)
      else
        map_option (\<lambda>p. (if p \<noteq> 0 then get_page p s else s, p))
          (radix_tree_lookup (page_tree (pc_space s mapping)) offset))"

definition add_to_page_cache :: "u64 \<Rightarrow> u64 \<Rightarrow> u64 \<Rightarrow> page_cache \<Rightarrow> (page_cache \<times> bool) option" where
  "add_to_page_cache p mapping offset s =
     (if mapping = 0 \<or> p = 0 then Some (s, False)
      else
        map_option
          (\<lambda>(h, r, ok).
             let s1 = upd_space mapping (\<lambda>a. a\<lparr>page_tree := r\<rparr>) (s\<lparr>pc_heap := h\<rparr>) in
             if ok then
               (upd_space mapping (\<lambda>a. a\<lparr>nrpages := nrpages a + 1\<rparr>)
                  (upd_page p (\<lambda>x. x\<lparr>pg_mapping := mapping, pg_index := offset\<rparr>) s1), True)
             else (s1, False))
          (radix_tree_insert (page_tree (pc_space s mapping)) offset p (pc_heap s)))"

definition delete_from_page_cache :: "u64 \<Rightarrow> page_cache \<Rightarrow> page_cache option" where
  "delete_from_page_cache p s =
     (let mapping = pg_mapping (pc_page s p) in
      if mapping = 0 then Some s
      else
        map_option
          (\<lambda>(h, r, v).
             let s1 = upd_space mapping (\<lambda>a. a\<lparr>page_tree := r\<rparr>) (s\<lparr>pc_heap := h\<rparr>);
                 s2 = (if v \<noteq> 0 then upd_space mapping (\<lambda>a. a\<lparr>nrpages := nrpages a - 1\<rparr>) s1 else s1)
             in put_page p (upd_page p (\<lambda>x. x\<lparr>pg_mapping := 0\<rparr>) s2))
          (radix_tree_delete (page_tree (pc_space s mapping)) (pg_index (pc_page s p)) (pc_heap s)))"

definition empty_page :: page where
  "empty_page = \<lparr>pg_flags = 0, pg_count = 0, pg_mapping = 0, pg_index = 0, pg_virtual = 0\<rparr>"

definition alloc_page :: "page_cache \<Rightarrow> (page_cache \<times> u64) option" where
  "alloc_page s =
     (case kmalloc 64 (pc_heap s) of
        None \<Rightarrow> None
      | Some (h1, p) \<Rightarrow>
          if p = 0 then Some (s\<lparr>pc_heap := h1\<rparr>, 0)
          else
            (case kmalloc 4096 h1 of
               None \<Rightarrow> None
             | Some (h2, v) \<Rightarrow>
                 (let s1 = upd_page p (\<lambda>_. empty_page\<lparr>pg_count := 1, pg_virtual := v\<rparr>) (s\<lparr>pc_heap := h2\<rparr>) in
                  if v = 0 then Some (s1\<lparr>pc_heap := kfree p h2\<rparr>, 0)
                  else Some (s1\<lparr>pc_mem := for_upto (\<lambda>i m. m(v + i := 0)) 0 4096 (pc_mem s1)\<rparr>, p))))"

definition free_page :: "u64 \<Rightarrow> page_cache \<Rightarrow> page_cache" where
  "free_page p s =
     (let v = pg_virtual (pc_page s p);
          h1 = (if v \<noteq> 0 then kfree v (pc_heap s) else pc_heap s)
      in s\<lparr>pc_heap := kfree p h1\<rparr>)"

section \<open>What the cache keeps\<close>

text \<open>
  Every page that can be found in an address space knows that address space and its index, and
  \<open>nrpages\<close> counts the pages; \<open>M\<close> are the heap objects that are not nodes of this tree.
\<close>

definition space_ok :: "u64 multiset \<Rightarrow> page_cache \<Rightarrow> u64 \<Rightarrow> bool" where
  "space_ok M s a \<longleftrightarrow> a \<noteq> 0 \<and>
     rtmap.counted M (pc_heap s, page_tree (pc_space s a)) (unat (nrpages (pc_space s a))) \<and>
     (\<forall>i p. rt_map (page_tree (pc_space s a)) i = Some p \<longrightarrow>
        pg_mapping (pc_page s p) = a \<and> pg_index (pc_page s p) = i)"

lemma upd_simps [simp]:
  "pc_heap (upd_page p f s) = pc_heap s" "pc_space (upd_page p f s) = pc_space s"
  "pc_page (upd_page p f s) q = (if q = p then f (pc_page s p) else pc_page s q)"
  "pc_heap (upd_space a g s) = pc_heap s" "pc_page (upd_space a g s) = pc_page s"
  "pc_space (upd_space a g s) b = (if b = a then g (pc_space s a) else pc_space s b)"
  "pc_page (s\<lparr>pc_heap := h\<rparr>) = pc_page s"
  by (simp_all add: upd_page_def upd_space_def)

lemma space_ok_tree:
  assumes "space_ok M s a"
  shows "rt_ok (page_tree (pc_space s a))" and "rt_owns (pc_heap s) (page_tree (pc_space s a)) M"
  using assms by (auto simp: space_ok_def rtmap.counted_def rt_state_ok_def)

text \<open>A page without a mapping is in no address space.\<close>

lemma space_ok_fresh:
  assumes "space_ok M s a" and "pg_mapping (pc_page s p) = 0"
  shows "rt_map (page_tree (pc_space s a)) i \<noteq> Some p"
  using assms by (auto simp: space_ok_def)

lemma page_count_bound:
  assumes "space_ok M s a"
  shows "unat (nrpages (pc_space s a) + 1) = unat (nrpages (pc_space s a)) + 1"
proof -
  let ?r = "page_tree (pc_space s a)"
  have "unat j < 64 ^ 10" if "j \<in> dom (rt_map ?r)" for j
  proof -
    have "unat j < 64 ^ rt_height ?r" using that by (auto simp: rt_map_def split: if_splits)
    then show ?thesis by (rule power_64_mono) (use space_ok_tree(1) [OF assms] in \<open>simp add: rt_ok_def\<close>)
  qed
  then have "unat ` dom (rt_map ?r) \<subseteq> {..<64 ^ 10}" by auto
  then have "card (dom (rt_map ?r)) \<le> card {..<64 ^ 10 :: nat}"
    by (intro card_inj_on_le [of unat]) (auto simp: inj_on_def word_unat_eq_iff)
  moreover have "card (dom (rt_map ?r)) = unat (nrpages (pc_space s a))"
    using assms by (simp add: space_ok_def rtmap.counted_def)
  ultimately show ?thesis by (simp add: unat_add_no_wrap)
qed

lemma add_to_page_cache_spec:
  assumes ok: "space_ok M s a" and i: "unat offset < 64 ^ 10" and p: "p \<noteq> 0" "pg_mapping (pc_page s p) = 0"
  shows "\<exists>s' b. add_to_page_cache p a offset s = Some (s', b) \<and> space_ok M s' a \<and>
    (if b then rt_map (page_tree (pc_space s a)) offset = None \<and>
       rt_map (page_tree (pc_space s' a)) = (rt_map (page_tree (pc_space s a)))(offset \<mapsto> p)
     else rt_map (page_tree (pc_space s' a)) = rt_map (page_tree (pc_space s a)))"
proof -
  let ?r = "page_tree (pc_space s a)" and ?n = "nrpages (pc_space s a)"
  have c: "rtmap.counted M (pc_heap s, ?r) (unat ?n)" and a: "a \<noteq> 0"
    and pages: "\<And>i q. rt_map ?r i = Some q \<Longrightarrow> pg_mapping (pc_page s q) = a \<and> pg_index (pc_page s q) = i"
    using ok by (auto simp: space_ok_def)
  obtain x b where x: "rt_insert (pc_heap s, ?r) offset p = Some (x, b)"
    "rtmap.counted M x (if b then unat ?n + 1 else unat ?n)"
    "if b then rt_map ?r offset = None \<and> rt_map (snd x) = (rt_map ?r)(offset \<mapsto> p) else rt_map (snd x) = rt_map ?r"
    using rtmap.ins_counted [OF c i p(1)] by (metis snd_conv)
  obtain h r where hr: "x = (h, r)" by fastforce
  have ins: "radix_tree_insert ?r offset p (pc_heap s) = Some (h, r, b)"
    using x(1) by (auto simp: rt_insert_def hr)
  have fresh: "rt_map ?r j \<noteq> Some p" for j by (rule space_ok_fresh [OF ok p(2)])
  show ?thesis
  proof (cases b)
    case True
    then show ?thesis
      using ins a p(1) x(2,3) pages fresh page_count_bound [OF ok]
      by (auto simp: add_to_page_cache_def Let_def hr space_ok_def split: if_splits)
  next
    case False
    then show ?thesis
      using ins a p(1) x(2,3) pages by (auto simp: add_to_page_cache_def Let_def hr space_ok_def)
  qed
qed

lemma delete_from_page_cache_spec:
  assumes ok: "space_ok M s a" and p: "rt_map (page_tree (pc_space s a)) i = Some p"
  shows "\<exists>s'. delete_from_page_cache p s = Some s' \<and> space_ok M s' a \<and> pg_mapping (pc_page s' p) = 0 \<and>
    rt_map (page_tree (pc_space s' a)) = (rt_map (page_tree (pc_space s a)))(i := None)"
proof -
  let ?r = "page_tree (pc_space s a)" and ?n = "nrpages (pc_space s a)"
  have c: "rtmap.counted M (pc_heap s, ?r) (unat ?n)" and a: "a \<noteq> 0"
    and pages: "\<And>i q. rt_map ?r i = Some q \<Longrightarrow> pg_mapping (pc_page s q) = a \<and> pg_index (pc_page s q) = i"
    using ok by (auto simp: space_ok_def)
  have p': "pg_mapping (pc_page s p) = a" "pg_index (pc_page s p) = i" using pages [OF p] by auto
  obtain x where x: "rt_delete (pc_heap s, ?r) i = Some (x, Some p)"
    "rtmap.counted M x (unat ?n - 1)" "rt_map (snd x) = (rt_map ?r)(i := None)"
    using rtmap.del_counted [OF c, of i] p by auto
  obtain h r where hr: "x = (h, r)" by fastforce
  have del: "radix_tree_delete ?r i (pc_heap s) = Some (h, r, p)" and pnz: "p \<noteq> 0"
    using x(1) by (auto simp: rt_delete_def hr split: if_splits)
  have "i \<in> dom (rt_map ?r)" using p by auto
  then have "0 < card (dom (rt_map ?r))" by (metis card_gt_0_iff empty_iff finite_words)
  then have "0 < unat ?n" using c by (simp add: rtmap.counted_def)
  then have n: "unat (?n - 1) = unat ?n - 1" by (simp add: unat_diff_le word_le_nat_alt)
  have once: "rt_map ?r j = Some p \<longleftrightarrow> j = i" for j using pages p by metis
  show ?thesis
    using del a pnz x(2,3) pages once n
    by (auto simp: delete_from_page_cache_def put_page_def Let_def p' hr space_ok_def split: if_splits)
qed

lemma find_get_page_spec:
  assumes "space_ok M s a"
  shows "find_get_page a i s = Some (case rt_map (page_tree (pc_space s a)) i of
    None \<Rightarrow> (s, 0) | Some p \<Rightarrow> (get_page p s, p))"
  using radix_tree_lookup_spec [OF space_ok_tree(1) [OF assms], of i] assms
    rt_map_nonzero [OF space_ok_tree(1) [OF assms], of i]
  by (auto simp: find_get_page_def space_ok_def split: option.splits)

lemma space_ok_count: "space_ok M s a \<Longrightarrow> space_ok M (upd_page p (\<lambda>x. x\<lparr>pg_count := f x\<rparr>) s) a"
  by (auto simp: space_ok_def)

text \<open>Callers of the cache for one address space, as steps in any order.\<close>

inductive pc_step :: "u64 \<Rightarrow> page_cache \<Rightarrow> page_cache \<Rightarrow> bool" for a where
  find: "find_get_page a i s = Some (s', p) \<Longrightarrow> pc_step a s s'"
| add: "p \<noteq> 0 \<Longrightarrow> pg_mapping (pc_page s p) = 0 \<Longrightarrow> unat i < 64 ^ 10 \<Longrightarrow>
    add_to_page_cache p a i s = Some (s', b) \<Longrightarrow> pc_step a s s'"
| del: "rt_map (page_tree (pc_space s a)) i = Some p \<Longrightarrow> delete_from_page_cache p s = Some s' \<Longrightarrow> pc_step a s s'"
| put: "pc_step a s (put_page p s)"

lemma pc_step_ok: "pc_step a s s' \<Longrightarrow> space_ok M s a \<Longrightarrow> space_ok M s' a"
proof (induction rule: pc_step.induct)
  case (find i s s' p)
  then show ?case using find_get_page_spec [of M s a i]
    by (auto simp: get_page_def space_ok_count split: option.splits)
next
  case (add p s i s' b)
  then show ?case using add_to_page_cache_spec [of M s a i p] by auto
next
  case (del s i p s')
  then show ?case using delete_from_page_cache_spec [of M s a i p] by auto
next
  case (put s p)
  then show ?case by (simp add: put_page_def space_ok_count)
qed

section \<open>Properties\<close>

text \<open>
  C16. Page cache invariant. Whatever finds, additions of unmapped pages, deletions of cached
  pages and releases are made on an address space, every page that a lookup finds at an index
  carries that address space and that index, and \<open>nrpages\<close> is the number of indices at which a
  page is found.
\<close>

theorem page_cache_invariant:
  assumes "space_ok M s0 a" and "(pc_step a)\<^sup>*\<^sup>* s0 s"
  shows "(\<forall>i p. radix_tree_lookup (page_tree (pc_space s a)) i = Some p \<and> p \<noteq> 0 \<longrightarrow>
      pg_mapping (pc_page s p) = a \<and> pg_index (pc_page s p) = i) \<and>
    unat (nrpages (pc_space s a)) = card {i. radix_tree_lookup (page_tree (pc_space s a)) i \<noteq> Some 0}"
proof -
  have ok: "space_ok M s a" using assms(2,1) by (induction rule: rtranclp_induct) (auto intro: pc_step_ok)
  note look = radix_tree_lookup_spec [OF space_ok_tree(1) [OF ok]]
  have nz: "rt_map (page_tree (pc_space s a)) i \<noteq> Some 0" for i
    by (rule rt_map_nonzero [OF space_ok_tree(1) [OF ok]])
  have "{i. radix_tree_lookup (page_tree (pc_space s a)) i \<noteq> Some 0} = dom (rt_map (page_tree (pc_space s a)))"
    using nz by (auto simp: look split: option.splits)
  then show ?thesis
    using ok by (auto simp: space_ok_def rtmap.counted_def look split: option.splits)
qed

text \<open>
  A page that was added to the cache is found at its index, with one more reference, and
  nowhere else; after \<open>delete_from_page_cache\<close> it is not found any more.
\<close>

theorem page_cache_add_find_delete:
  assumes "space_ok M s a" and "unat i < 64 ^ 10" and "p \<noteq> 0" and "pg_mapping (pc_page s p) = 0"
    and "add_to_page_cache p a i s = Some (s1, True)"
  shows "find_get_page a i s1 = Some (get_page p s1, p) \<and>
    (\<forall>j. j \<noteq> i \<longrightarrow> map_option snd (find_get_page a j s1) = map_option snd (find_get_page a j s)) \<and>
    (\<exists>s2. delete_from_page_cache p s1 = Some s2 \<and> find_get_page a i s2 = Some (s2, 0))"
proof -
  have s1: "space_ok M s1 a"
    "rt_map (page_tree (pc_space s1 a)) = (rt_map (page_tree (pc_space s a)))(i \<mapsto> p)"
    using add_to_page_cache_spec [OF assms(1-4)] assms(5) by auto
  obtain s2 where s2: "delete_from_page_cache p s1 = Some s2" "space_ok M s2 a"
    "rt_map (page_tree (pc_space s2 a)) = (rt_map (page_tree (pc_space s1 a)))(i := None)"
    using delete_from_page_cache_spec [OF s1(1), of i p] s1(2) by auto
  show ?thesis
    using find_get_page_spec [OF s1(1)] find_get_page_spec [OF assms(1)] find_get_page_spec [OF s2(2)] s1(2) s2(1,3)
    by (auto split: option.splits)
qed

section \<open>Witnesses\<close>

definition demo_cache :: page_cache where
  "demo_cache = \<lparr>pc_heap = demo_rt_heap, pc_page = (\<lambda>_. empty_page),
     pc_space = (\<lambda>_. \<lparr>page_tree = demo_root, nrpages = 0\<rparr>), pc_mem = (\<lambda>_. 0)\<rparr>"

lemma demo_cache_ok: "space_ok {#} demo_cache 0x9000"
proof -
  have "rt_map demo_root = Map.empty" by (simp add: demo_root_def)
  then show ?thesis using demo_root_ok
    by (simp add: space_ok_def rtmap.counted_def rt_state_ok_def demo_cache_def)
qed

lemma demo_add: "map_option snd (add_to_page_cache 0x8000 0x9000 5 demo_cache) = Some True"
  by code_simp

theorem page_cache_invariant_witness:
  "\<exists>s. add_to_page_cache 0x8000 0x9000 5 demo_cache = Some (s, True) \<and>
    card {i. radix_tree_lookup (page_tree (pc_space s 0x9000)) i \<noteq> Some 0} = unat (nrpages (pc_space s 0x9000))"
proof -
  obtain s where s: "add_to_page_cache 0x8000 0x9000 5 demo_cache = Some (s, True)" using demo_add by auto
  have "pc_step 0x9000 demo_cache s"
    by (rule pc_step.add [OF _ _ _ s]) (simp_all add: demo_cache_def empty_page_def)
  then have "(pc_step 0x9000)\<^sup>*\<^sup>* demo_cache s" by simp
  from page_cache_invariant [OF demo_cache_ok this] s show ?thesis by auto
qed

theorem page_cache_add_find_delete_witness:
  "\<exists>s1. add_to_page_cache 0x8000 0x9000 5 demo_cache = Some (s1, True) \<and>
    find_get_page 0x9000 5 s1 = Some (get_page 0x8000 s1, 0x8000)"
proof -
  obtain s where s: "add_to_page_cache 0x8000 0x9000 5 demo_cache = Some (s, True)" using demo_add by auto
  have "pg_mapping (pc_page demo_cache 0x8000) = 0" by (simp add: demo_cache_def empty_page_def)
  from page_cache_add_find_delete [OF demo_cache_ok _ _ this s] s show ?thesis by auto
qed

end
