(* ===== verification/Pipe.thy ===== *)
theory Pipe
  imports Waitqueue
begin

text \<open>
  Pipes: \<^verbatim>\<open>kernel/ipc/pipe.c\<close>. The ring of a pipe interprets the contract of a bounded buffer. Reading and
  writing are given by their passes through the outer loop, one byte each, which end with the byte moved, the end of
  the pipe, or the caller asleep; a caller that runs again takes the next pass. Pipes and open files are typed objects
  at the addresses that \<open>kmalloc\<close> returns; the caller's buffer is raw memory.
\<close>

section \<open>The ring\<close>

definition PIPE_SIZE :: int where "PIPE_SIZE = 4096"

record pipe_ring =
  pipe_buffer :: "int \<Rightarrow> u8"
  read_pos :: int
  write_pos :: int
  bytes_available :: int

record pipe = pipe_ring +
  pipe_readers :: int
  pipe_writers :: int
  read_wait :: wait_queue
  write_wait :: wait_queue
  pipe_lock :: spinlock

definition pipe_get :: "'a pipe_ring_scheme \<Rightarrow> 'a pipe_ring_scheme \<times> u8 option" where
  "pipe_get p =
     (if bytes_available p = 0 then (p, None)
      else (p\<lparr>read_pos := (read_pos p + 1) mod PIPE_SIZE, bytes_available := bytes_available p - 1\<rparr>,
            Some (pipe_buffer p (read_pos p))))"

definition pipe_put :: "u8 \<Rightarrow> 'a pipe_ring_scheme \<Rightarrow> 'a pipe_ring_scheme \<times> bool" where
  "pipe_put c p =
     (if bytes_available p = PIPE_SIZE then (p, False)
      else (p\<lparr>pipe_buffer := (pipe_buffer p)(write_pos p := c), write_pos := (write_pos p + 1) mod PIPE_SIZE,
              bytes_available := bytes_available p + 1\<rparr>, True))"

section \<open>Files and pipes\<close>

definition O_RDONLY :: u32 where "O_RDONLY = 0"
definition O_WRONLY :: u32 where "O_WRONLY = 1"

datatype file_operations = No_ops | Pipe_ops

record open_file =
  f_dentry :: u64
  f_vfsmnt :: u64
  f_op :: file_operations
  f_flags :: u32
  f_mode :: u32
  f_count :: int
  f_pos :: u64
  f_private_data :: u64
  f_mapping :: u64

definition zero_file :: open_file where
  "zero_file = \<lparr>f_dentry = 0, f_vfsmnt = 0, f_op = No_ops, f_flags = 0, f_mode = 0, f_count = 0, f_pos = 0,
     f_private_data = 0, f_mapping = 0\<rparr>"

record pipes = sync +
  pipe_objs :: "u64 \<Rightarrow> pipe"
  file_objs :: "u64 \<Rightarrow> open_file"

definition sizeof_pipe :: u64 where "sizeof_pipe = 4248"
definition sizeof_file :: u64 where "sizeof_file = 80"

definition zero_lock :: spinlock where
  "zero_lock = \<lparr>locked = 0, sl_rflags = 0, owner_pid = 0, owner_cpu = 0\<rparr>"

definition zero_queue :: wait_queue where
  "zero_queue = \<lparr>wq_head = 0, wq_tail = 0, wq_lock = zero_lock\<rparr>"

definition zero_pipe :: pipe where
  "zero_pipe = \<lparr>pipe_buffer = (\<lambda>_. 0), read_pos = 0, write_pos = 0, bytes_available = 0, pipe_readers = 0, pipe_writers = 0,
     read_wait = zero_queue, write_wait = zero_queue, pipe_lock = zero_lock\<rparr>"

definition new_pipe :: pipe where
  "new_pipe = zero_pipe\<lparr>pipe_lock := spinlock_init (pipe_lock zero_pipe), read_wait := wait_queue_init (read_wait zero_pipe),
     write_wait := wait_queue_init (write_wait zero_pipe), pipe_readers := 1, pipe_writers := 1\<rparr>"

text \<open>The search for two free descriptors: the first and the next free one, or \<open>- 1\<close>.\<close>

function find_fds :: "(nat \<Rightarrow> u64) \<Rightarrow> nat \<Rightarrow> int \<Rightarrow> int \<times> int" where
  "find_fds tbl i fd0 =
     (if i < MAX_FILES then
        (if tbl i = 0 then (if fd0 = - 1 then find_fds tbl (i + 1) (int i) else (fd0, int i))
         else find_fds tbl (i + 1) fd0)
      else (fd0, - 1))"
  by pat_completeness auto
termination by (relation "measure (\<lambda>(_, i, _). MAX_FILES - i)") auto

declare find_fds.simps [simp del]

definition pipe_file :: "u32 \<Rightarrow> u64 \<Rightarrow> open_file" where
  "pipe_file flags p =
     zero_file\<lparr>f_count := 1, f_flags := flags, f_mode := flags, f_op := Pipe_ops, f_private_data := p, f_dentry := 0\<rparr>"

text \<open>The result is the return value and, if it is 0, the two descriptors.\<close>

definition pipe_create :: "'a pipes_scheme \<Rightarrow> ('a pipes_scheme \<times> int \<times> (int \<times> int) option) option" where
  "pipe_create s =
     (case kmalloc sizeof_pipe (k_heap s) of
        None \<Rightarrow> None
      | Some (h1, p) \<Rightarrow>
          if p = 0 then Some (s\<lparr>k_heap := h1\<rparr>, - 1, None)
          else
            (let s1 = s\<lparr>k_heap := h1, pipe_objs := (pipe_objs s)(p := new_pipe)\<rparr>
             in case kmalloc sizeof_file h1 of
                  None \<Rightarrow> None
                | Some (h2, r_file) \<Rightarrow>
                    (case kmalloc sizeof_file h2 of
                       None \<Rightarrow> None
                     | Some (h3, w_file) \<Rightarrow>
                         if r_file = 0 \<or> w_file = 0 then
                           (let h4 = (if r_file \<noteq> 0 then kfree r_file h3 else h3);
                                h5 = (if w_file \<noteq> 0 then kfree w_file h4 else h4)
                            in Some (s1\<lparr>k_heap := kfree p h5\<rparr>, - 1, None))
                         else
                           (let s2 = s1\<lparr>k_heap := h3, file_objs := (file_objs s1)
                                  (r_file := pipe_file O_RDONLY p, w_file := pipe_file O_WRONLY p)\<rparr>;
                                (fd0, fd1) = find_fds (p_fd_table (current s2)) 0 (- 1)
                            in if fd0 = - 1 \<or> fd1 = - 1 then Some (s2, - 1, None)
                               else Some (upd_current (\<lambda>x. x\<lparr>p_fd_table := (p_fd_table x)(nat fd0 := r_file, nat fd1 := w_file)\<rparr>) s2,
                                          0, Some (fd0, fd1))))))"

section \<open>Reading and writing\<close>

datatype read_pass = Byte u8 | Eof | Read_sleeps

definition pipe_read_pass :: "u64 \<Rightarrow> pipe \<Rightarrow> 'a sync_scheme \<Rightarrow> (pipe \<times> 'a sync_scheme \<times> read_pass) option" where
  "pipe_read_pass e p s =
     (let (lock1, s1) = spinlock_acquire (pipe_lock p) s;
          p1 = p\<lparr>pipe_lock := lock1\<rparr>
      in case pipe_get p1 of
           (_, None) \<Rightarrow>
             (let (lock2, s2) = spinlock_release (pipe_lock p1) s1;
                  p2 = p1\<lparr>pipe_lock := lock2\<rparr>
              in if pipe_writers p1 = 0 then Some (p2, s2, Eof)
                 else map_option (\<lambda>(wq, s3). (p2\<lparr>read_wait := wq\<rparr>, s3, Read_sleeps)) (sleep_on e (read_wait p2) s2))
         | (p2, Some c) \<Rightarrow>
             (case wake_up (write_wait p2) s1 of
                None \<Rightarrow> None
              | Some (wq, s2) \<Rightarrow>
                  (let (lock2, s3) = spinlock_release (pipe_lock p2) s2
                   in Some (p2\<lparr>write_wait := wq, pipe_lock := lock2\<rparr>, s3, Byte c))))"

datatype write_pass = Wrote | Broken | Write_sleeps

definition pipe_write_pass :: "u64 \<Rightarrow> u8 \<Rightarrow> pipe \<Rightarrow> 'a sync_scheme \<Rightarrow> (pipe \<times> 'a sync_scheme \<times> write_pass) option" where
  "pipe_write_pass e c p s =
     (let (lock1, s1) = spinlock_acquire (pipe_lock p) s;
          p1 = p\<lparr>pipe_lock := lock1\<rparr>
      in case pipe_put c p1 of
           (_, False) \<Rightarrow>
             (let (lock2, s2) = spinlock_release (pipe_lock p1) s1;
                  p2 = p1\<lparr>pipe_lock := lock2\<rparr>
              in if pipe_readers p1 = 0 then Some (p2, s2, Broken)
                 else map_option (\<lambda>(wq, s3). (p2\<lparr>write_wait := wq\<rparr>, s3, Write_sleeps)) (sleep_on e (write_wait p2) s2))
         | (p2, True) \<Rightarrow>
             (case wake_up (read_wait p2) s1 of
                None \<Rightarrow> None
              | Some (wq, s2) \<Rightarrow>
                  (let (lock2, s3) = spinlock_release (pipe_lock p2) s2
                   in Some (p2\<lparr>read_wait := wq, pipe_lock := lock2\<rparr>, s3, Wrote))))"

text \<open>
  A call runs until it returns or sleeps; what it has moved so far is kept in its frame. Called again with that number
  it goes on after the sleep.
\<close>

datatype call_end = Returns int | Sleeps int

function pipe_read_loop :: "u64 \<Rightarrow> u64 \<Rightarrow> u64 \<Rightarrow> int \<Rightarrow> int \<Rightarrow> 'a pipes_scheme \<Rightarrow> ('a pipes_scheme \<times> call_end) option" where
  "pipe_read_loop e pp buffer sz bytes_read s =
     (if bytes_read < sz then
        (case pipe_read_pass e (pipe_objs s pp) s of
           None \<Rightarrow> None
         | Some (p, s1, r) \<Rightarrow>
             (let s2 = s1\<lparr>pipe_objs := (pipe_objs s1)(pp := p)\<rparr>
              in case r of
                   Byte c \<Rightarrow>
                     pipe_read_loop e pp buffer sz (bytes_read + 1)
                       (set_mem ((k_mem s2)(buffer + of_int bytes_read := c)) s2)
                 | Eof \<Rightarrow> Some (s2, Returns bytes_read)
                 | Read_sleeps \<Rightarrow> Some (s2, Sleeps bytes_read)))
      else Some (s, Returns bytes_read))"
  by pat_completeness auto
termination by (relation "measure (\<lambda>(_, _, _, sz, n, _). nat (sz - n))") auto

declare pipe_read_loop.simps [simp del]

definition pipe_read :: "u64 \<Rightarrow> u64 \<Rightarrow> u64 \<Rightarrow> int \<Rightarrow> 'a pipes_scheme \<Rightarrow> ('a pipes_scheme \<times> call_end) option" where
  "pipe_read e f buffer sz s =
     (if f_flags (file_objs s f) = O_WRONLY then Some (s, Returns (- 1))
      else pipe_read_loop e (f_private_data (file_objs s f)) buffer sz 0 s)"

function pipe_write_loop :: "u64 \<Rightarrow> u64 \<Rightarrow> u64 \<Rightarrow> int \<Rightarrow> int \<Rightarrow> 'a pipes_scheme \<Rightarrow> ('a pipes_scheme \<times> call_end) option" where
  "pipe_write_loop e pp buffer sz bytes_written s =
     (if bytes_written < sz then
        (case pipe_write_pass e (k_mem s (buffer + of_int bytes_written)) (pipe_objs s pp) s of
           None \<Rightarrow> None
         | Some (p, s1, r) \<Rightarrow>
             (let s2 = s1\<lparr>pipe_objs := (pipe_objs s1)(pp := p)\<rparr>
              in case r of
                   Wrote \<Rightarrow> pipe_write_loop e pp buffer sz (bytes_written + 1) s2
                 | Broken \<Rightarrow> Some (s2, Returns (- 1))
                 | Write_sleeps \<Rightarrow> Some (s2, Sleeps bytes_written)))
      else Some (s, Returns bytes_written))"
  by pat_completeness auto
termination by (relation "measure (\<lambda>(_, _, _, sz, n, _). nat (sz - n))") auto

declare pipe_write_loop.simps [simp del]

definition pipe_write :: "u64 \<Rightarrow> u64 \<Rightarrow> u64 \<Rightarrow> int \<Rightarrow> 'a pipes_scheme \<Rightarrow> ('a pipes_scheme \<times> call_end) option" where
  "pipe_write e f buffer sz s =
     (if f_flags (file_objs s f) = O_RDONLY then Some (s, Returns (- 1))
      else pipe_write_loop e (f_private_data (file_objs s f)) buffer sz 0 s)"

definition pipe_close :: "u64 \<Rightarrow> 'a pipes_scheme \<Rightarrow> ('a pipes_scheme \<times> int) option" where
  "pipe_close f s =
     (let pp = f_private_data (file_objs s f);
          p = pipe_objs s pp;
          (lock1, s1) = spinlock_acquire (pipe_lock p) s;
          p1 = p\<lparr>pipe_lock := lock1\<rparr>
      in case (if f_flags (file_objs s f) = O_RDONLY then
                 (let p2 = p1\<lparr>pipe_readers := pipe_readers p1 - 1\<rparr>
                  in if pipe_readers p2 = 0
                     then map_option (\<lambda>(wq, s2). (p2\<lparr>write_wait := wq\<rparr>, s2)) (wake_up (write_wait p2) s1) else Some (p2, s1))
               else
                 (let p2 = p1\<lparr>pipe_writers := pipe_writers p1 - 1\<rparr>
                  in if pipe_writers p2 = 0
                     then map_option (\<lambda>(wq, s2). (p2\<lparr>read_wait := wq\<rparr>, s2)) (wake_up (read_wait p2) s1) else Some (p2, s1))) of
           None \<Rightarrow> None
         | Some (p3, s3) \<Rightarrow>
             (let free_pipe = (pipe_readers p3 = 0 \<and> pipe_writers p3 = 0);
                  (lock2, s4) = spinlock_release (pipe_lock p3) s3;
                  s5 = s4\<lparr>pipe_objs := (pipe_objs s4)(pp := p3\<lparr>pipe_lock := lock2\<rparr>)\<rparr>
              in Some (if free_pipe then s5\<lparr>k_heap := kfree pp (k_heap s5)\<rparr> else s5, 0)))"

section \<open>The ring is a bounded buffer\<close>

definition pipe_rep :: "'a pipe_ring_scheme \<Rightarrow> u8 list \<Rightarrow> bool" where
  "pipe_rep p xs \<longleftrightarrow>
     ring_rep PIPE_SIZE (pipe_buffer p) (read_pos p) xs \<and> write_pos p = (read_pos p + int (length xs)) mod PIPE_SIZE \<and>
     bytes_available p = int (length xs)"

definition same_ring :: "'a pipe_ring_scheme \<Rightarrow> 'b pipe_ring_scheme \<Rightarrow> bool" where
  "same_ring p q \<longleftrightarrow>
     pipe_buffer p = pipe_buffer q \<and> read_pos p = read_pos q \<and> write_pos p = write_pos q \<and> bytes_available p = bytes_available q"

interpretation pb: bounded_buffer pipe_put pipe_get pipe_rep same_ring 4096
proof
  fix s :: "'a pipe_ring_scheme" and xs x
  assume r: "pipe_rep s xs"
  then have l: "int (length xs) \<le> 4096" "bytes_available s = int (length xs)" by (auto simp: pipe_rep_def ring_rep_def PIPE_SIZE_def)
  then show "length xs \<le> 4096" by simp
  show "\<exists>s'. pipe_put x s = (s', length xs < 4096) \<and> pipe_rep s' (if length xs < 4096 then xs @ [x] else xs)"
  proof (cases "length xs < 4096")
    case True
    then have "ring_rep PIPE_SIZE ((pipe_buffer s)(write_pos s := x)) (read_pos s) (xs @ [x])"
      using r ring_push [of PIPE_SIZE "pipe_buffer s" "read_pos s" xs x] by (simp add: pipe_rep_def PIPE_SIZE_def)
    moreover have "(write_pos s + 1) mod PIPE_SIZE = (read_pos s + (1 + int (length xs))) mod PIPE_SIZE"
      using r by (simp add: pipe_rep_def mod_simps algebra_simps)
    ultimately show ?thesis using True l by (simp add: pipe_put_def pipe_rep_def PIPE_SIZE_def algebra_simps)
  next
    case False
    then show ?thesis using l r by (simp add: pipe_put_def PIPE_SIZE_def)
  qed
  show "\<exists>s'. pipe_get s = (s', case xs of [] \<Rightarrow> None | x # _ \<Rightarrow> Some x) \<and> pipe_rep s' (tl xs)"
  proof (cases xs)
    case Nil
    then show ?thesis using r by (simp add: pipe_get_def pipe_rep_def)
  next
    case (Cons y ys)
    have "write_pos s = ((read_pos s + 1) mod PIPE_SIZE + int (length ys)) mod PIPE_SIZE"
      using r by (simp add: Cons pipe_rep_def mod_simps algebra_simps)
    then show ?thesis using r ring_pop [of PIPE_SIZE "pipe_buffer s" "read_pos s" y ys]
      by (simp add: Cons pipe_get_def pipe_rep_def)
  qed
next
  fix s s' :: "'a pipe_ring_scheme" and xs
  assume "same_ring s s'" "pipe_rep s xs"
  then show "pipe_rep s' xs" by (simp add: same_ring_def pipe_rep_def)
qed

lemma pipe_read_pass_ring:
  assumes "pipe_read_pass e p s = Some (p', s', r)"
  shows "r = Byte c \<Longrightarrow> \<exists>q. pipe_get p = (q, Some c) \<and> same_ring q p'" and "(\<And>c. r \<noteq> Byte c) \<Longrightarrow> same_ring p p'"
  using assms by (auto simp: pipe_read_pass_def pipe_get_def same_ring_def spinlock_acquire_eq spinlock_release_def Let_def
      split: if_splits option.splits)

lemma pipe_write_pass_ring:
  assumes "pipe_write_pass e c p s = Some (p', s', r)"
  shows "r = Wrote \<Longrightarrow> \<exists>q. pipe_put c p = (q, True) \<and> same_ring q p'" and "r \<noteq> Wrote \<Longrightarrow> same_ring p p'"
  using assms by (auto simp: pipe_write_pass_def pipe_put_def same_ring_def spinlock_acquire_eq spinlock_release_def Let_def
      split: if_splits option.splits)

text \<open>
  The life of a pipe: passes of any readers and writers, each in a kernel state of its own, with the bytes that were
  written and those that were read.
\<close>

inductive pipe_run :: "pipe \<Rightarrow> u8 list \<Rightarrow> u8 list \<Rightarrow> pipe \<Rightarrow> bool" for p0 where
  start: "pipe_run p0 [] [] p0"
| read: "pipe_run p0 ins outs p \<Longrightarrow> pipe_read_pass e p (s :: sync) = Some (p', s', Byte c) \<Longrightarrow> pipe_run p0 ins (outs @ [c]) p'"
| read_none: "pipe_run p0 ins outs p \<Longrightarrow> pipe_read_pass e p (s :: sync) = Some (p', s', r) \<Longrightarrow> r = Eof \<or> r = Read_sleeps \<Longrightarrow>
    pipe_run p0 ins outs p'"
| wrote: "pipe_run p0 ins outs p \<Longrightarrow> pipe_write_pass e c p (s :: sync) = Some (p', s', Wrote) \<Longrightarrow> pipe_run p0 (ins @ [c]) outs p'"
| wrote_none: "pipe_run p0 ins outs p \<Longrightarrow> pipe_write_pass e c p (s :: sync) = Some (p', s', r) \<Longrightarrow> r \<noteq> Wrote \<Longrightarrow>
    pipe_run p0 ins outs p'"

lemma pipe_run_buffer: "pipe_run p0 ins outs p \<Longrightarrow> pb.run p0 ins outs p"
proof (induction rule: pipe_run.induct)
  case start
  show ?case by (rule pb.start)
next
  case (read ins outs p e s p' s' c)
  then obtain q where "pipe_get p = (q, Some c)" "same_ring q p'" using pipe_read_pass_ring(1) by blast
  then show ?case using pb.get_ok [OF read.IH] pb.other by blast
next
  case (read_none ins outs p e s p' s' r)
  then show ?case using pipe_read_pass_ring(2) [OF read_none.hyps(2)] by (intro pb.other [OF read_none.IH]) auto
next
  case (wrote ins outs p e c s p' s')
  then obtain q where "pipe_put c p = (q, True)" "same_ring q p'" using pipe_write_pass_ring(1) by blast
  then show ?case using pb.put_ok [OF wrote.IH] pb.other by blast
next
  case (wrote_none ins outs p e c s p' s' r)
  then show ?case using pipe_write_pass_ring(2) [OF wrote_none.hyps(2)] by (intro pb.other [OF wrote_none.IH]) auto
qed

section \<open>Descriptors\<close>

lemma find_fds_spec:
  "find_fds tbl i fd0 = (a, b) \<Longrightarrow> b \<noteq> - 1 \<Longrightarrow> fd0 = - 1 \<or> 0 \<le> fd0 \<and> fd0 < int i \<and> tbl (nat fd0) = 0 \<Longrightarrow>
     0 \<le> a \<and> a < b \<and> b < int MAX_FILES \<and> tbl (nat a) = 0 \<and> tbl (nat b) = 0"
proof (induction tbl i fd0 rule: find_fds.induct)
  case (1 tbl i fd0)
  show ?case
  proof (cases "i < MAX_FILES")
    case False
    then show ?thesis using "1.prems" by (subst (asm) find_fds.simps) simp
  next
    case True
    have e: "find_fds tbl i fd0 = (if tbl i = 0 then (if fd0 = - 1 then find_fds tbl (i + 1) (int i) else (fd0, int i))
        else find_fds tbl (i + 1) fd0)" using True by (subst find_fds.simps) simp
    show ?thesis
    proof (cases "tbl i = 0")
      case True
      then show ?thesis using "1.IH"(1) [OF \<open>i < MAX_FILES\<close> True] "1.prems" \<open>i < MAX_FILES\<close> unfolding e
        by (cases "fd0 = - 1") auto
    next
      case False
      then show ?thesis using "1.IH"(2) [OF \<open>i < MAX_FILES\<close> False] "1.prems" unfolding e by auto
    qed
  qed
qed

lemma upd_pipes [simp]: "pipe_objs (upd_proc p f s) = pipe_objs s" "file_objs (upd_proc p f s) = file_objs s"
  by (simp_all add: upd_proc_def)

section \<open>Properties\<close>

text \<open>
  C13. A pipe passes bytes on in order and within its buffer. Whatever readers and writers do on a new pipe, in any
  order and with any process running, the bytes read are the bytes written, in the same order, but for at most 4096
  that are still inside; \<open>bytes_available\<close> is their number, and both positions stay inside the buffer.
\<close>

theorem pipe_stream_bounded:
  assumes "pipe_run new_pipe ins outs p"
  shows "\<exists>ys. ins = outs @ ys \<and> length ys \<le> 4096 \<and> bytes_available p = int (length ys) \<and>
    0 \<le> read_pos p \<and> read_pos p < 4096 \<and> 0 \<le> write_pos p \<and> write_pos p < 4096"
proof -
  have "pipe_rep new_pipe []" by (simp add: pipe_rep_def ring_rep_def new_pipe_def zero_pipe_def PIPE_SIZE_def)
  then obtain ys where "pipe_rep p ys" "[] @ ins = outs @ ys" "length ys \<le> 4096"
    using pb.run_stream [OF pipe_run_buffer [OF assms]] by blast
  then show ?thesis by (auto simp: pipe_rep_def ring_rep_def PIPE_SIZE_def)
qed


section \<open>Witnesses\<close>

definition demo_pipes :: pipes where
  "demo_pipes = sync.extend demo_sync \<lparr>pipe_objs = (\<lambda>_. zero_pipe), file_objs = (\<lambda>_. zero_file)\<rparr>"

theorem pipe_stream_bounded_witness:
  "\<exists>p. pipe_run new_pipe [7] [] p \<and> bytes_available p = 1"
proof -
  have s: "wq_head (read_wait new_pipe) = 0" by (simp add: new_pipe_def zero_pipe_def zero_queue_def wait_queue_init_def)
  then obtain p s where "pipe_write_pass 0x7F00 7 new_pipe demo_sync = Some (p, s, Wrote)"
    by (simp add: pipe_write_pass_def pipe_put_def new_pipe_def zero_pipe_def PIPE_SIZE_def wake_up_def Let_def
        spinlock_acquire_eq spinlock_release_def zero_queue_def wait_queue_init_def)
  then have r: "pipe_run new_pipe ([] @ [7]) [] p" by (rule pipe_run.wrote [OF pipe_run.start])
  then show ?thesis using pipe_stream_bounded [OF r] by auto
qed


end
