(* ===== verification/Rtmutex.thy ===== *)
theory Rtmutex
  imports Locks Lists
begin

text \<open>
  Mutexes with priority inheritance: \<^verbatim>\<open>kernel/sync/rtmutex.c\<close>. A lock and a waiting process are typed objects; their
  list heads, and those of the locks that a process holds, are in one store of links, at their offsets. A call of
  \<open>rt_mutex_lock\<close> is given by its regions: what it does up to the first time it sleeps, and each pass of its loop after
  the process runs again. A smaller number is a higher priority.
\<close>

section \<open>Locks and waiters\<close>

record rt_mutex =
  rt_wait_lock :: spinlock
  rt_owner :: u64
  rt_save_state :: int

record rt_mutex_waiter =
  wt_task :: u64
  wt_lock :: u64

record rts = sync +
  rt_links :: links
  rt_objs :: "u64 \<Rightarrow> rt_mutex"
  rt_waiters :: "u64 \<Rightarrow> rt_mutex_waiter"

text \<open>The list heads inside the objects.\<close>

definition wait_list :: "u64 \<Rightarrow> u64" where "wait_list lock = lock + 40"
definition held_list_entry :: "u64 \<Rightarrow> u64" where "held_list_entry lock = lock + 56"
definition entry_lock :: "u64 \<Rightarrow> u64" where "entry_lock lptr = lptr - 56"
definition held_locks :: "u64 \<Rightarrow> u64" where "held_locks p = p + 232"

definition upd_rt :: "u64 \<Rightarrow> (rt_mutex \<Rightarrow> rt_mutex) \<Rightarrow> 'a rts_scheme \<Rightarrow> 'a rts_scheme" where
  "upd_rt lock f s = s\<lparr>rt_objs := (rt_objs s)(lock := f (rt_objs s lock))\<rparr>"

definition upd_rt_links :: "(links \<Rightarrow> links) \<Rightarrow> 'a rts_scheme \<Rightarrow> 'a rts_scheme" where
  "upd_rt_links f s = s\<lparr>rt_links := f (rt_links s)\<rparr>"

definition rt_acquire :: "u64 \<Rightarrow> 'a rts_scheme \<Rightarrow> 'a rts_scheme" where
  "rt_acquire lock s =
     (let (l, s1) = spinlock_acquire (rt_wait_lock (rt_objs s lock)) s in upd_rt lock (\<lambda>x. x\<lparr>rt_wait_lock := l\<rparr>) s1)"

definition rt_release :: "u64 \<Rightarrow> 'a rts_scheme \<Rightarrow> 'a rts_scheme" where
  "rt_release lock s =
     (let (l, s1) = spinlock_release (rt_wait_lock (rt_objs s lock)) s in upd_rt lock (\<lambda>x. x\<lparr>rt_wait_lock := l\<rparr>) s1)"

definition rt_mutex_init :: "u64 \<Rightarrow> 'a rts_scheme \<Rightarrow> 'a rts_scheme" where
  "rt_mutex_init lock s =
     upd_rt_links (\<lambda>l. INIT_LIST_HEAD (held_list_entry lock) (INIT_LIST_HEAD (wait_list lock) l))
       (upd_rt lock (\<lambda>x. x\<lparr>rt_wait_lock := spinlock_init (rt_wait_lock x), rt_owner := 0, rt_save_state := 0\<rparr>) s)"

section \<open>Priorities\<close>

fun prio_chain_loop :: "nat \<Rightarrow> u64 \<Rightarrow> int \<Rightarrow> 'a rts_scheme \<Rightarrow> 'a rts_scheme" where
  "prio_chain_loop 0 cur boost_prio s = s"
| "prio_chain_loop (Suc left) cur boost_prio s =
     (if cur = 0 \<or> p_priority (procs s cur) \<le> boost_prio then s
      else
        (let s1 = upd_proc cur (\<lambda>x. x\<lparr>p_priority := boost_prio\<rparr>) s
         in if p_state (procs s1 cur) = BLOCKED then s1 else prio_chain_loop left cur boost_prio s1))"

definition rt_mutex_adjust_prio_chain :: "u64 \<Rightarrow> int \<Rightarrow> 'a rts_scheme \<Rightarrow> 'a rts_scheme" where
  "rt_mutex_adjust_prio_chain owner priority s = prio_chain_loop 10 owner priority s"

text \<open>The highest priority among some waiters, and among those of the locks that a process holds.\<close>

definition waiter_prio :: "'a rts_scheme \<Rightarrow> u64 \<Rightarrow> int" where
  "waiter_prio s w = p_priority (procs s (wt_task (rt_waiters s w)))"

definition highest_waiter :: "'a rts_scheme \<Rightarrow> u64 list \<Rightarrow> int \<Rightarrow> int" where
  "highest_waiter s ws h = fold (\<lambda>w h. if waiter_prio s w < h then waiter_prio s w else h) ws h"

fun highest_held :: "'a rts_scheme \<Rightarrow> u64 list \<Rightarrow> int \<Rightarrow> int option" where
  "highest_held s [] h = Some h"
| "highest_held s (lptr # lptrs) h =
     (let head = wait_list (entry_lock lptr)
      in if list_empty head (rt_links s) then highest_held s lptrs h
         else Option.bind (list_collect (rt_links s) head (lh_next (rt_links s head)))
                (\<lambda>ws. highest_held s lptrs (highest_waiter s ws h)))"

definition rt_mutex_restore_prio :: "u64 \<Rightarrow> 'a rts_scheme \<Rightarrow> 'a rts_scheme option" where
  "rt_mutex_restore_prio owner s =
     (if owner = 0 then Some s
      else
        Option.bind (list_collect (rt_links s) (held_locks owner) (lh_next (rt_links s (held_locks owner)))) (\<lambda>lptrs.
          map_option (\<lambda>h. upd_proc owner (\<lambda>x. x\<lparr>p_priority := h\<rparr>) s) (highest_held s lptrs (p_base_priority (procs s owner)))))"

section \<open>Locking\<close>

definition rt_take :: "u64 \<Rightarrow> 'a rts_scheme \<Rightarrow> 'a rts_scheme" where
  "rt_take lock s =
     upd_rt_links (list_add (held_list_entry lock) (held_locks (current_process s)))
       (upd_rt lock (\<lambda>x. x\<lparr>rt_owner := current_process s\<rparr>) s)"

text \<open>The caller blocks and another process runs.\<close>

definition rt_block :: "u64 \<Rightarrow> 'a rts_scheme \<Rightarrow> 'a rts_scheme option" where
  "rt_block lock s = process_schedule (rt_release lock (upd_current (\<lambda>x. x\<lparr>p_state := BLOCKED\<rparr>) s))"

definition rt_enqueue_waiter :: "u64 \<Rightarrow> u64 \<Rightarrow> 'a rts_scheme \<Rightarrow> 'a rts_scheme" where
  "rt_enqueue_waiter w lock s =
     upd_rt_links (\<lambda>l. list_add_tail w (wait_list lock) (INIT_LIST_HEAD w l))
       (s\<lparr>rt_waiters := (rt_waiters s)(w := \<lparr>wt_task = current_process s, wt_lock = lock\<rparr>)\<rparr>)"

definition rt_boost :: "u64 \<Rightarrow> 'a rts_scheme \<Rightarrow> 'a rts_scheme" where
  "rt_boost lock s =
     (let owner = rt_owner (rt_objs s lock); prio = p_priority (current s)
      in if owner \<noteq> 0 \<and> prio < p_priority (procs s owner) then rt_mutex_adjust_prio_chain owner prio s else s)"

text \<open>\<open>w\<close> is the address of the local \<open>waiter\<close>. The flag tells whether the call has returned.\<close>

definition rt_mutex_lock :: "u64 \<Rightarrow> u64 \<Rightarrow> 'a rts_scheme \<Rightarrow> ('a rts_scheme \<times> bool) option" where
  "rt_mutex_lock w lock s =
     (let s1 = rt_acquire lock s
      in if rt_owner (rt_objs s1 lock) = 0 then Some (rt_release lock (rt_take lock s1), True)
         else if rt_owner (rt_objs s1 lock) = current_process s1 then Some (rt_release lock s1, True)
         else map_option (\<lambda>s2. (s2, False)) (rt_block lock (rt_boost lock (rt_enqueue_waiter w lock s1))))"

definition rt_mutex_lock_pass :: "u64 \<Rightarrow> u64 \<Rightarrow> 'a rts_scheme \<Rightarrow> ('a rts_scheme \<times> bool) option" where
  "rt_mutex_lock_pass w lock s =
     (let s1 = rt_acquire lock s
      in if rt_owner (rt_objs s1 lock) = 0 then Some (rt_release lock (upd_rt_links (list_del w) (rt_take lock s1)), True)
         else if rt_owner (rt_objs s1 lock) \<noteq> current_process s1 then map_option (\<lambda>s2. (s2, False)) (rt_block lock s1)
         else Some (rt_release lock (upd_rt_links (list_del w) s1), True))"

definition rt_mutex_trylock :: "u64 \<Rightarrow> 'a rts_scheme \<Rightarrow> 'a rts_scheme \<times> int" where
  "rt_mutex_trylock lock s =
     (let s1 = rt_acquire lock s
      in if rt_owner (rt_objs s1 lock) = 0 then (rt_release lock (rt_take lock s1), 1) else (rt_release lock s1, 0))"

section \<open>Unlocking\<close>

text \<open>The first of the waiters with the highest priority, if it is above 999.\<close>

fun best_waiter :: "'a rts_scheme \<Rightarrow> u64 list \<Rightarrow> u64 \<Rightarrow> int \<Rightarrow> u64" where
  "best_waiter s [] best best_prio = best"
| "best_waiter s (w # ws) best best_prio =
     (if waiter_prio s w < best_prio then best_waiter s ws w (waiter_prio s w) else best_waiter s ws best best_prio)"

definition rt_wake :: "u64 \<Rightarrow> 'a rts_scheme \<Rightarrow> 'a rts_scheme option" where
  "rt_wake lock s =
     (if list_empty (wait_list lock) (rt_links s) then Some s
      else
        Option.bind (list_collect (rt_links s) (wait_list lock) (lh_next (rt_links s (wait_list lock)))) (\<lambda>ws.
          (let b = best_waiter s ws 0 999; t = wt_task (rt_waiters s b)
           in if b \<noteq> 0 then enqueue_process t (upd_proc t (\<lambda>x. x\<lparr>p_state := READY\<rparr>) s) else Some s)))"

definition rt_mutex_unlock :: "u64 \<Rightarrow> 'a rts_scheme \<Rightarrow> 'a rts_scheme option" where
  "rt_mutex_unlock lock s =
     (let s1 = rt_acquire lock s
      in if rt_owner (rt_objs s1 lock) \<noteq> current_process s1 then Some (rt_release lock s1)
         else
           (let s2 = upd_rt lock (\<lambda>x. x\<lparr>rt_owner := 0\<rparr>) (upd_rt_links (list_del (held_list_entry lock)) s1)
            in Option.bind
                 (if p_priority (current s2) \<noteq> p_base_priority (current s2)
                  then rt_mutex_restore_prio (current_process s2) s2 else Some s2)
                 (\<lambda>s3. map_option (rt_release lock) (rt_wake lock s3))))"

section \<open>Regions\<close>

lemma rt_acquire_simps [simp]:
  "procs (rt_acquire lock s) = procs s" "current_process (rt_acquire lock s) = current_process s"
  "rt_links (rt_acquire lock s) = rt_links s" "rt_waiters (rt_acquire lock s) = rt_waiters s"
  "rt_owner (rt_objs (rt_acquire lock s) q) = rt_owner (rt_objs s q)"
  by (simp_all add: rt_acquire_def spinlock_acquire_eq upd_rt_def Let_def cli_def)

lemma rt_release_simps [simp]:
  "procs (rt_release lock s) = procs s" "current_process (rt_release lock s) = current_process s"
  "rt_links (rt_release lock s) = rt_links s" "rt_waiters (rt_release lock s) = rt_waiters s"
  "rt_owner (rt_objs (rt_release lock s) q) = rt_owner (rt_objs s q)"
  by (simp_all add: rt_release_def spinlock_release_def upd_rt_def Let_def sti_def)

lemma rt_upd_simps [simp]:
  "rt_links (upd_rt_links f s) = f (rt_links s)" "rt_objs (upd_rt_links f s) = rt_objs s" "rt_waiters (upd_rt_links f s) = rt_waiters s"
  "procs (upd_rt_links f s) = procs s" "current_process (upd_rt_links f s) = current_process s"
  "rt_links (upd_rt lock g s) = rt_links s" "rt_objs (upd_rt lock g s) = (rt_objs s)(lock := g (rt_objs s lock))"
  "rt_waiters (upd_rt lock g s) = rt_waiters s" "procs (upd_rt lock g s) = procs s"
  "current_process (upd_rt lock g s) = current_process s"
  by (simp_all add: upd_rt_links_def upd_rt_def)

lemma rt_proc_simps [simp]:
  fixes s :: "'a rts_scheme"
  shows "rt_links (upd_proc p f s) = rt_links s" "rt_objs (upd_proc p f s) = rt_objs s" "rt_waiters (upd_proc p f s) = rt_waiters s"
  by (simp_all add: upd_proc_def)

lemma sched_rep_rt:
  "sched_rep (rt_acquire lock s) qs = sched_rep s qs" "sched_rep (rt_release lock s) qs = sched_rep s qs"
  "sched_rep (upd_rt_links f s) qs = sched_rep s qs" "sched_rep (upd_rt lock g s) qs = sched_rep s qs"
  by (auto simp: rt_acquire_def rt_release_def spinlock_acquire_eq spinlock_release_def upd_rt_def upd_rt_links_def Let_def cli_def sti_def
      intro: sched_rep_cong)

section \<open>Priorities\<close>

lemma adjust_prio_chain_once:
  "rt_mutex_adjust_prio_chain owner prio s =
     (if owner = 0 \<or> p_priority (procs s owner) \<le> prio then s else upd_proc owner (\<lambda>x. x\<lparr>p_priority := prio\<rparr>) s)"
  by (simp add: rt_mutex_adjust_prio_chain_def numeral_eq_Suc Let_def)

lemma highest_waiter_min: "highest_waiter s ws h = Min (insert h (waiter_prio s ` set ws))"
proof (induction ws arbitrary: h)
  case (Cons w ws)
  have m: "(if waiter_prio s w < h then waiter_prio s w else h) = min h (waiter_prio s w)" by simp
  have "highest_waiter s (w # ws) h = highest_waiter s ws (min h (waiter_prio s w))" by (simp add: highest_waiter_def m)
  also have "\<dots> = Min (insert (min h (waiter_prio s w)) (waiter_prio s ` set ws))" by (rule Cons.IH)
  also have "\<dots> = Min (insert h (waiter_prio s ` set (w # ws)))"
    by (cases "ws = []") (simp_all add: min.assoc)
  finally show ?case .
qed (simp add: highest_waiter_def)

lemma Min_insert_Min: "finite A \<Longrightarrow> A \<noteq> {} \<Longrightarrow> finite B \<Longrightarrow> Min (insert (Min A) B) = Min (A \<union> B)" for A :: "int set"
  by (cases "B = {}") (simp_all add: Min_Un)

lemma highest_held_min:
  assumes "\<forall>l\<in>set ls. ring (rt_links s) (wait_list (entry_lock l)) (wl l)"
  shows "highest_held s ls h = Some (Min (insert h (waiter_prio s ` (\<Union>l\<in>set ls. set (wl l)))))"
  using assms
proof (induction ls arbitrary: h)
  case (Cons l ls)
  have r: "ring (rt_links s) (wait_list (entry_lock l)) (wl l)" using Cons.prems by simp
  have "highest_held s (l # ls) h = highest_held s ls (highest_waiter s (wl l) h)"
    using list_collect_ring [OF r] ring_empty [OF r] by (simp add: Let_def highest_waiter_def)
  also have "\<dots> = Some (Min (insert (highest_waiter s (wl l) h) (waiter_prio s ` (\<Union>l\<in>set ls. set (wl l)))))"
    using Cons by simp
  also have "Min (insert (highest_waiter s (wl l) h) (waiter_prio s ` (\<Union>l\<in>set ls. set (wl l)))) =
      Min (insert h (waiter_prio s ` (\<Union>l\<in>set (l # ls). set (wl l))))"
  proof -
    let ?A = "insert h (waiter_prio s ` set (wl l))" and ?B = "waiter_prio s ` (\<Union>l\<in>set ls. set (wl l))"
    have "Min (insert (Min ?A) ?B) = Min (?A \<union> ?B)" by (rule Min_insert_Min) simp_all
    moreover have "?A \<union> ?B = insert h (waiter_prio s ` (\<Union>l\<in>set (l # ls). set (wl l)))" by auto
    ultimately show ?thesis by (simp only: highest_waiter_min)
  qed
  finally show ?case .
qed simp

lemma best_waiter_min:
  assumes "0 \<notin> set ws"
  shows "best_waiter s ws b p = b \<and> (\<forall>w\<in>set ws. p \<le> waiter_prio s w) \<or>
    best_waiter s ws b p \<in> set ws \<and> waiter_prio s (best_waiter s ws b p) < p \<and>
      (\<forall>w\<in>set ws. waiter_prio s (best_waiter s ws b p) \<le> waiter_prio s w)"
  using assms
proof (induction ws arbitrary: b p)
  case (Cons w ws)
  show ?case
  proof (cases "waiter_prio s w < p")
    case True
    then show ?thesis using Cons.IH [of w "waiter_prio s w"] Cons.prems by auto
  next
    case False
    then show ?thesis using Cons.IH [of b p] Cons.prems by auto
  qed
qed simp

section \<open>Waiting for a lock\<close>

lemma rt_boost_simps [simp]:
  "rt_links (rt_boost lock s) = rt_links s" "rt_objs (rt_boost lock s) = rt_objs s" "rt_waiters (rt_boost lock s) = rt_waiters s"
  "current_process (rt_boost lock s) = current_process s"
  by (simp_all add: rt_boost_def adjust_prio_chain_once Let_def)

lemma rt_boost_procs:
  "procs (rt_boost lock s) =
     (let owner = rt_owner (rt_objs s lock); prio = p_priority (current s)
      in if owner \<noteq> 0 \<and> prio < p_priority (procs s owner)
         then (procs s)(owner := (procs s owner)\<lparr>p_priority := prio\<rparr>) else procs s)"
  by (simp add: rt_boost_def adjust_prio_chain_once Let_def)

lemma sched_rep_prio: "sched_rep s qs \<Longrightarrow> sched_rep (upd_proc p (\<lambda>x. x\<lparr>p_priority := v\<rparr>) s) qs"
  by (auto intro: sched_rep_cong)

lemma rt_enqueue_waiter_ring:
  assumes "ring (rt_links s) (wait_list lock) ws" and "w \<noteq> 0" and "w \<notin> set (wait_list lock # ws)"
  shows "ring (rt_links (rt_enqueue_waiter w lock s)) (wait_list lock) (ws @ [w])"
proof -
  have "ring (INIT_LIST_HEAD w (rt_links s)) (wait_list lock) ws"
    using assms(1,3) by (subst ring_cong [where l = "rt_links s"]) (auto simp: INIT_LIST_HEAD_def set_next_def set_prev_def)
  from ring_add_tail [OF this assms(2,3)] show ?thesis by (simp add: rt_enqueue_waiter_def)
qed

text \<open>What a state holds besides the kernel.\<close>

lemma rts_more:
  fixes s s' :: "'a rts_scheme"
  assumes "kernel.more s' = kernel.more s"
  shows "rt_links s' = rt_links s" "rt_objs s' = rt_objs s" "rt_waiters s' = rt_waiters s"
  using assms by (cases s rule: rts.cases_scheme, cases s' rule: rts.cases_scheme; simp add: kernel.defs)+

lemma settled_fields:
  assumes "settled x = settled y"
  shows "p_priority x = p_priority y" "p_state x = p_state y" "p_base_priority x = p_base_priority y"
  using arg_cong [OF assms, of p_priority] arg_cong [OF assms, of p_state] arg_cong [OF assms, of p_base_priority]
  by (simp_all add: settled_def)

lemma rt_mutex_lock_waits:
  assumes rep: "sched_rep s qs" and cur: "current_process s \<noteq> 0" "current_process s \<notin> in_queues qs"
    and own: "rt_owner (rt_objs s lock) = owner" "owner \<noteq> 0" "owner \<noteq> current_process s"
    and ws: "ring (rt_links s) (wait_list lock) ws" "w \<noteq> 0" "w \<notin> set (wait_list lock # ws)"
  shows "\<exists>s' qs'. rt_mutex_lock w lock s = Some (s', False) \<and> sched_rep s' qs' \<and>
    ring (rt_links s') (wait_list lock) (ws @ [w]) \<and> wt_task (rt_waiters s' w) = current_process s \<and>
    rt_owner (rt_objs s' lock) = owner \<and> p_state (procs s' (current_process s)) = BLOCKED \<and>
    p_priority (procs s' owner) = min (p_priority (procs s owner)) (p_priority (current s))"
proof -
  let ?c = "current_process s"
  define s3 where "s3 = rt_boost lock (rt_enqueue_waiter w lock (rt_acquire lock s))"
  define s4 where "s4 = rt_release lock (upd_current (\<lambda>x. x\<lparr>p_state := BLOCKED\<rparr>) s3)"
  have e: "rt_mutex_lock w lock s = map_option (\<lambda>s2. (s2, False)) (process_schedule s4)"
    using own by (simp add: rt_mutex_lock_def rt_block_def s4_def s3_def Let_def)
  have eq: "procs (rt_enqueue_waiter w lock s1) = procs s1" "current_process (rt_enqueue_waiter w lock s1) = current_process s1"
    "rt_objs (rt_enqueue_waiter w lock s1) = rt_objs s1" for s1 :: "'a rts_scheme" by (simp_all add: rt_enqueue_waiter_def)
  have c4: "current_process s4 = ?c" by (simp add: s4_def s3_def eq)
  have p4: "p_priority (procs s4 owner) = min (p_priority (procs s owner)) (p_priority (current s))"
    "p_state (procs s4 ?c) = BLOCKED"
    using own by (auto simp: s4_def s3_def rt_boost_procs eq Let_def)
  have "sched_rep (rt_enqueue_waiter w lock (rt_acquire lock s)) qs"
    by (rule sched_rep_cong [OF rep]) (simp_all add: rt_enqueue_waiter_def rt_acquire_def spinlock_acquire_eq upd_rt_def upd_rt_links_def Let_def cli_def)
  then have "sched_rep s3 qs" unfolding s3_def by (auto simp: rt_boost_def adjust_prio_chain_once Let_def intro: sched_rep_prio)
  then have rep4: "sched_rep s4 qs"
    unfolding s4_def sched_rep_rt using cur(2) by (intro sched_rep_outside) (simp_all add: s3_def eq)
  have rq: "requeued s4 qs = qs" using p4(2) by (simp add: requeued_def c4)
  obtain qs' nxt where lp: "list_pick qs = (qs', nxt)" by fastforce
  have cur4: "current_process s4 \<noteq> 0" "current_process s4 \<notin> in_queues qs" using cur by (simp_all add: c4)
  obtain s' where s': "process_schedule s4 = Some s'" "sched_rep s' qs'" "kernel.more s' = kernel.more s4"
    "\<forall>q. q \<noteq> ?c \<longrightarrow> nxt = 0 \<or> q \<noteq> nxt \<longrightarrow> settled (procs s' q) = settled (procs s4 q)"
    "settled (procs s' ?c) = settled (procs s4 ?c)"
    "nxt \<noteq> 0 \<longrightarrow> nxt \<noteq> ?c \<longrightarrow> settled (procs s' nxt) = settled ((procs s4 nxt)\<lparr>p_state := RUNNING\<rparr>)"
    using process_schedule_rep [OF rep4 cur4, unfolded rq, OF lp] p4(2) unfolding c4 by (elim exE conjE) (rule that, simp_all)
  have "p_priority (procs s' owner) = p_priority (procs s4 owner)"
    using s'(4,6) own(2,3) settled_fields(1) [of "procs s' owner"] by (cases "owner = nxt") fastforce+
  moreover have "p_state (procs s' ?c) = BLOCKED" using settled_fields(2) [OF s'(5)] p4(2) by simp
  moreover have "ring (rt_links s4) (wait_list lock) (ws @ [w])"
    using rt_enqueue_waiter_ring [of "rt_acquire lock s" lock ws w] ws by (simp add: s4_def s3_def)
  moreover have "wt_task (rt_waiters s4 w) = ?c" "rt_owner (rt_objs s4 lock) = owner"
    using own(1) by (simp_all add: s4_def s3_def rt_enqueue_waiter_def)
  ultimately show ?thesis using e s'(1,2) p4(1) rts_more [OF s'(3)] by auto
qed

section \<open>Giving a lock up\<close>

lemma entry_lock_entry [simp]: "entry_lock (held_list_entry l) = l"
  by (simp add: entry_lock_def held_list_entry_def)

text \<open>Taking an entry out of one ring leaves the others alone.\<close>

lemma ring_del_other:
  assumes r: "ring l h (xs @ e # ys)" and q: "ring l g zs" and d: "set (g # zs) \<inter> set (h # xs @ e # ys) = {}"
  shows "ring (list_del e l) g zs"
proof -
  have p: "path l h xs e" "path l e ys h" using r by (simp_all add: ring_def path_append)
  have pn: "lh_prev (l e) \<in> set (h # xs)" "lh_next (l e) \<in> set (h # ys)"
    using path_last [OF p(1)] path_first [OF p(2)] by (cases ys; auto)+
  have "list_del e l x = l x" if "x \<in> set (g # zs)" for x
  proof -
    have "x \<noteq> e" "x \<noteq> lh_prev (l e)" "x \<noteq> lh_next (l e)" using that d pn by auto
    then show ?thesis by (simp add: list_del_def list_del_between_def set_next_def set_prev_def)
  qed
  with q show ?thesis by (subst ring_cong [where l = l]) auto
qed

text \<open>
  The locks \<open>ls\<close> that a process holds, each with its waiters \<open>wl\<close>, and the priority that the process then has: its own,
  or a higher one among the waiters.
\<close>

definition rt_held :: "'a rts_scheme \<Rightarrow> u64 \<Rightarrow> u64 list \<Rightarrow> (u64 \<Rightarrow> u64 list) \<Rightarrow> bool" where
  "rt_held s c ls wl \<longleftrightarrow>
     ring (rt_links s) (held_locks c) (map held_list_entry ls) \<and>
     (\<forall>l\<in>set ls. ring (rt_links s) (wait_list l) (wl l) \<and>
       set (wait_list l # wl l) \<inter> set (held_locks c # map held_list_entry ls) = {})"

definition inherited :: "'a rts_scheme \<Rightarrow> u64 \<Rightarrow> u64 list \<Rightarrow> (u64 \<Rightarrow> u64 list) \<Rightarrow> int" where
  "inherited s c ls wl = Min (insert (p_base_priority (procs s c)) (waiter_prio s ` (\<Union>l\<in>set ls. set (wl l))))"

lemma rt_restore_prio_min:
  assumes "p \<noteq> 0" and "rt_held s p ls wl"
  shows "rt_mutex_restore_prio p s = Some (upd_proc p (\<lambda>x. x\<lparr>p_priority := inherited s p ls wl\<rparr>) s)"
proof -
  have r: "ring (rt_links s) (held_locks p) (map held_list_entry ls)" "\<forall>l\<in>set ls. ring (rt_links s) (wait_list l) (wl l)"
    using assms(2) by (simp_all add: rt_held_def)
  have "highest_held s (map held_list_entry ls) h = Some (Min (insert h (waiter_prio s ` (\<Union>l\<in>set ls. set (wl l)))))" for h
    using highest_held_min [of "map held_list_entry ls" s "\<lambda>e. wl (entry_lock e)" h] r(2) by simp
  then show ?thesis using assms(1) list_collect_ring [OF r(1)] by (simp add: rt_mutex_restore_prio_def inherited_def)
qed

lemma rt_held_del:
  assumes "rt_held s c (as @ lock # bs) wl" and l: "rt_links s' = list_del (held_list_entry lock) (rt_links s)"
  shows "rt_held s' c (as @ bs) wl" and "ring (rt_links s') (wait_list lock) (wl lock)"
proof -
  have h: "ring (rt_links s) (held_locks c) (map held_list_entry as @ held_list_entry lock # map held_list_entry bs)"
    and w: "\<forall>l\<in>set (as @ lock # bs). ring (rt_links s) (wait_list l) (wl l) \<and>
      set (wait_list l # wl l) \<inter> set (held_locks c # map held_list_entry (as @ lock # bs)) = {}"
    using assms(1) by (simp_all add: rt_held_def)
  have r: "ring (rt_links s') (wait_list l) (wl l)" if "l \<in> set (as @ lock # bs)" for l
    unfolding assms(2) using bspec [OF w that] by (intro ring_del_other [OF h]) simp_all
  then show "ring (rt_links s') (wait_list lock) (wl lock)" by simp
  have "ring (rt_links s') (held_locks c) (map held_list_entry (as @ bs))" using ring_del(1) [OF h] by (simp add: l)
  moreover have "set (wait_list l # wl l) \<inter> set (held_locks c # map held_list_entry (as @ bs)) = {}" if "l \<in> set (as @ bs)" for l
  proof -
    have "l \<in> set (as @ lock # bs)" using that by auto
    moreover have "set (held_locks c # map held_list_entry (as @ bs)) \<subseteq> set (held_locks c # map held_list_entry (as @ lock # bs))" by auto
    ultimately show ?thesis using w by blast
  qed
  ultimately show "rt_held s' c (as @ bs) wl" using r unfolding rt_held_def by (metis Un_iff list.set_intros(2) set_append)
qed

lemma rt_restored:
  assumes c: "c = current_process s" "c \<noteq> 0" and held: "rt_held s c ls wl"
    and bp: "p_priority (procs s c) = p_base_priority (procs s c) \<longrightarrow> inherited s c ls wl = p_base_priority (procs s c)"
  shows "(if p_priority (current s) \<noteq> p_base_priority (current s) then rt_mutex_restore_prio (current_process s) s else Some s) =
    Some (upd_proc c (\<lambda>x. x\<lparr>p_priority := inherited s c ls wl\<rparr>) s)"
proof (cases "p_priority (procs s c) = p_base_priority (procs s c)")
  case True
  then have "(procs s c)\<lparr>p_priority := inherited s c ls wl\<rparr> = procs s c" using bp by simp
  then have "(procs s)(c := (procs s c)\<lparr>p_priority := inherited s c ls wl\<rparr>) = procs s" by (simp add: fun_upd_idem)
  then have "upd_proc c (\<lambda>x. x\<lparr>p_priority := inherited s c ls wl\<rparr>) s = s" by (simp add: upd_proc_def)
  then show ?thesis using True c(1) by simp
next
  case False
  then show ?thesis using rt_restore_prio_min [OF c(2) held] c(1) by simp
qed

lemma rt_wake_best:
  assumes rep: "sched_rep s qs" and r: "ring (rt_links s) (wait_list lock) ws"
    and t: "\<forall>w\<in>set ws. wt_task (rt_waiters s w) \<noteq> 0 \<and> wt_task (rt_waiters s w) \<notin> in_queues qs \<and>
      p_sched_class (procs s (wt_task (rt_waiters s w))) \<noteq> No_class"
  shows "\<exists>s' qs'. rt_wake lock s = Some s' \<and> sched_rep s' qs' \<and> kernel.more s' = kernel.more s \<and>
    (\<forall>q. p_priority (procs s' q) = p_priority (procs s q)) \<and>
    ((\<exists>w\<in>set ws. waiter_prio s w < 999) \<longrightarrow> (\<exists>w\<in>set ws. (\<forall>v\<in>set ws. waiter_prio s w \<le> waiter_prio s v) \<and>
       wt_task (rt_waiters s w) \<in> in_queues qs'))"
proof -
  let ?b = "best_waiter s ws 0 999"
  have nz: "0 \<notin> set ws" using r by (simp add: ring_def)
  have e: "rt_wake lock s = (if ?b \<noteq> 0
      then enqueue_process (wt_task (rt_waiters s ?b)) (upd_proc (wt_task (rt_waiters s ?b)) (\<lambda>x. x\<lparr>p_state := READY\<rparr>) s) else Some s)"
    using list_collect_ring [OF r] ring_empty [OF r] by (auto simp: rt_wake_def Let_def)
  show ?thesis
  proof (cases "?b \<in> set ws")
    case True
    define t0 where "t0 = wt_task (rt_waiters s ?b)"
    have t0: "t0 \<noteq> 0" "t0 \<notin> in_queues qs" "p_sched_class (procs s t0) \<noteq> No_class" using t True by (auto simp: t0_def)
    let ?s1 = "upd_proc t0 (\<lambda>x. x\<lparr>p_state := READY\<rparr>) s"
    obtain s' where s': "enqueue_process t0 ?s1 = Some s'" "sched_rep s' (list_enqueue (procs ?s1 t0) (\<lambda>q. p_vruntime (procs ?s1 q)) t0 qs)"
      "\<forall>q. unlinked (procs s' q) = unlinked (procs ?s1 q)" "sched.more s' = sched.more ?s1"
      using enqueue_process_rep [OF sched_rep_outside [OF rep t0(2), where f = "\<lambda>x. x\<lparr>p_state := READY\<rparr>"] t0(1,2)] by auto
    have "p_priority (procs s' q) = p_priority (procs s q)" for q
      using arg_cong [OF s'(3) [rule_format, of q], of p_priority] by (simp add: unlinked_def)
    moreover have "t0 \<in> in_queues (list_enqueue (procs ?s1 t0) (\<lambda>q. p_vruntime (procs ?s1 q)) t0 qs)"
      using t0(3) by (simp add: in_queues_enqueue)
    moreover have "kernel.more s' = kernel.more s" using same_more(1) [OF s'(4)] by (simp add: upd_proc_def)
    moreover have "rt_wake lock s = Some s'" using e s'(1) True nz by (auto simp: t0_def)
    ultimately show ?thesis using s'(2) True best_waiter_min [OF nz, of s 0 999] nz unfolding t0_def by auto
  next
    case False
    then have "?b = 0" "\<forall>w\<in>set ws. 999 \<le> waiter_prio s w" using best_waiter_min [OF nz, of s 0 999] by auto
    then show ?thesis using e rep by force
  qed
qed

lemma rt_mutex_unlock_restores:
  assumes rep: "sched_rep s qs" and c: "c = current_process s" "c \<noteq> 0" and own: "rt_owner (rt_objs s lock) = c"
    and held: "rt_held s c (as @ lock # bs) wl"
    and t: "\<forall>w\<in>set (wl lock). wt_task (rt_waiters s w) \<notin> {0, c} \<and> wt_task (rt_waiters s w) \<notin> in_queues qs \<and>
      p_sched_class (procs s (wt_task (rt_waiters s w))) \<noteq> No_class"
    and bp: "p_priority (procs s c) = p_base_priority (procs s c) \<longrightarrow> inherited s c (as @ bs) wl = p_base_priority (procs s c)"
  shows "\<exists>s' qs'. rt_mutex_unlock lock s = Some s' \<and> sched_rep s' qs' \<and> rt_owner (rt_objs s' lock) = 0 \<and>
    rt_held s' c (as @ bs) wl \<and> p_priority (procs s' c) = inherited s c (as @ bs) wl \<and>
    ((\<exists>w\<in>set (wl lock). waiter_prio s w < 999) \<longrightarrow> (\<exists>w\<in>set (wl lock). (\<forall>v\<in>set (wl lock). waiter_prio s w \<le> waiter_prio s v) \<and>
       wt_task (rt_waiters s w) \<in> in_queues qs'))"
proof -
  define s2 where "s2 = upd_rt lock (\<lambda>x. x\<lparr>rt_owner := 0\<rparr>) (upd_rt_links (list_del (held_list_entry lock)) (rt_acquire lock s))"
  have s2: "procs s2 = procs s" "current_process s2 = c" "rt_waiters s2 = rt_waiters s" "rt_owner (rt_objs s2 lock) = 0"
    "rt_links s2 = list_del (held_list_entry lock) (rt_links s)" by (simp_all add: s2_def c)
  note h2 = rt_held_del [OF held s2(5)]
  have "waiter_prio s2 = waiter_prio s" by (simp add: fun_eq_iff waiter_prio_def s2)
  then have in2: "inherited s2 c (as @ bs) wl = inherited s c (as @ bs) wl" by (simp add: inherited_def s2)
  define s3 where "s3 = upd_proc c (\<lambda>x. x\<lparr>p_priority := inherited s c (as @ bs) wl\<rparr>) s2"
  have r3: "(if p_priority (current s2) \<noteq> p_base_priority (current s2) then rt_mutex_restore_prio (current_process s2) s2 else Some s2) = Some s3"
    using rt_restored [OF s2(2) [symmetric] c(2) h2(1)] bp by (simp add: in2 s2 s3_def)
  have rep3: "sched_rep s3 qs" unfolding s3_def s2_def by (rule sched_rep_prio) (simp add: sched_rep_rt rep)
  have wp3: "waiter_prio s3 w = waiter_prio s w" if "w \<in> set (wl lock)" for w
    using t that by (auto simp: waiter_prio_def s3_def s2)
  have "ring (rt_links s3) (wait_list lock) (wl lock)" using h2(2) by (simp add: s3_def)
  moreover have "\<forall>w\<in>set (wl lock). wt_task (rt_waiters s3 w) \<noteq> 0 \<and> wt_task (rt_waiters s3 w) \<notin> in_queues qs \<and>
      p_sched_class (procs s3 (wt_task (rt_waiters s3 w))) \<noteq> No_class" using t by (auto simp: s3_def s2)
  ultimately obtain s4 qs' where s4: "rt_wake lock s3 = Some s4" "sched_rep s4 qs'" "kernel.more s4 = kernel.more s3"
    "\<forall>q. p_priority (procs s4 q) = p_priority (procs s3 q)"
    "(\<exists>w\<in>set (wl lock). waiter_prio s3 w < 999) \<longrightarrow> (\<exists>w\<in>set (wl lock). (\<forall>v\<in>set (wl lock). waiter_prio s3 w \<le> waiter_prio s3 v) \<and>
       wt_task (rt_waiters s3 w) \<in> in_queues qs')"
    using rt_wake_best [OF rep3] by blast
  have u: "rt_mutex_unlock lock s = Some (rt_release lock s4)"
    using own c s4(1) r3 unfolding rt_mutex_unlock_def Let_def s2_def [symmetric] by simp
  have p: "p_priority (procs s4 c) = inherited s c (as @ bs) wl" using s4(4) by (simp add: s3_def)
  have m: "rt_links s4 = rt_links s2" "rt_objs s4 = rt_objs s2" using rts_more [OF s4(3)] by (simp_all add: s3_def)
  have hd: "rt_held (rt_release lock s4) c (as @ bs) wl" using h2(1) by (simp add: rt_held_def m)
  have ws: "rt_waiters s3 = rt_waiters s" by (simp add: s3_def s2(3))
  have best: "\<exists>w\<in>set (wl lock). (\<forall>v\<in>set (wl lock). waiter_prio s w \<le> waiter_prio s v) \<and> wt_task (rt_waiters s w) \<in> in_queues qs'"
    if w: "w \<in> set (wl lock)" "waiter_prio s w < 999" for w
  proof -
    have "\<exists>w\<in>set (wl lock). waiter_prio s3 w < 999" using w wp3 [OF w(1)] by (intro bexI [of _ w]) simp_all
    with s4(5) obtain b where b: "b \<in> set (wl lock)" "\<forall>v\<in>set (wl lock). waiter_prio s3 b \<le> waiter_prio s3 v"
      "wt_task (rt_waiters s3 b) \<in> in_queues qs'" by blast
    have "\<forall>v\<in>set (wl lock). waiter_prio s b \<le> waiter_prio s v" using b(2) wp3 b(1) by simp
    with b show ?thesis unfolding ws by blast
  qed
  show ?thesis
    by (intro exI [of _ "rt_release lock s4"] exI [of _ qs'] conjI impI) (use u p m hd s4(2) s2(4) best in \<open>auto simp: sched_rep_rt\<close>)
qed

section \<open>Mutual exclusion\<close>

lemma enqueue_more: "enqueue_process p s = Some s' \<Longrightarrow> sched.more s' = sched.more s"
  by (auto simp: enqueue_process_def enqueue_task_mlfq_def enqueue_task_fair_def Let_def
      split: if_splits option.splits sched_class.splits)

lemma pick_more: "pick_next_task s = (s', p) \<Longrightarrow> sched.more s' = sched.more s"
  by (auto simp: pick_next_task_def pick_next_task_mlfq_def pick_next_task_fair_def Let_def split: option.splits if_splits)

lemma process_schedule_more:
  fixes s :: "'a kernel_scheme"
  assumes "process_schedule s = Some s'"
  shows "kernel.more s' = kernel.more s"
proof (cases "current_process s = 0")
  case True
  then show ?thesis using assms by (simp add: process_schedule_def)
next
  case False
  let ?c = "current_process s"
  obtain s1 where s1: "(if p_state (procs s ?c) = RUNNING then enqueue_process ?c (upd_proc ?c (end_of_turn s) s) else Some s) = Some s1"
    using assms False by (auto simp: process_schedule_def Let_def split: option.splits if_splits)
  have "kernel.more s1 = kernel.more s" 
    using s1 same_more(1) [OF enqueue_more, of ?c "upd_proc ?c (end_of_turn s) s" s1] by (auto split: if_splits)
  moreover obtain s2 nxt where s2: "pick_next_task s1 = (s2, nxt)" by fastforce
  moreover have "kernel.more s2 = kernel.more s1" by (rule same_more(1) [OF pick_more [OF s2]])
  ultimately show ?thesis
    using assms False s1 by (auto simp: process_schedule_def Let_def switch_more tss_set_stack_def sti_def split: if_splits)
qed

text \<open>The regions of the operations on one lock, as they change its owner.\<close>

datatype rt_op = Rt_lock u64 | Rt_pass u64 | Rt_try | Rt_unlock

definition rt_region :: "u64 \<Rightarrow> rt_op \<Rightarrow> u64 \<Rightarrow> 'a rts_scheme \<Rightarrow> (u64 \<times> 'a rts_scheme \<times> bool) option" where
  "rt_region lock a owner s =
     (let s0 = upd_rt lock (\<lambda>x. x\<lparr>rt_owner := owner\<rparr>) s
      in map_option (\<lambda>(s1, granted). (rt_owner (rt_objs s1 lock), s1, granted))
           (case a of
              Rt_lock w \<Rightarrow> rt_mutex_lock w lock s0
            | Rt_pass w \<Rightarrow> rt_mutex_lock_pass w lock s0
            | Rt_try \<Rightarrow> (case rt_mutex_trylock lock s0 of (s1, r) \<Rightarrow> Some (s1, r = 1))
            | Rt_unlock \<Rightarrow> map_option (\<lambda>s1. (s1, True)) (rt_mutex_unlock lock s0)))"

definition rt_account :: "rt_op \<Rightarrow> u64 \<Rightarrow> bool \<Rightarrow> u64 set \<Rightarrow> u64 set" where
  "rt_account a p granted hs = (if a = Rt_unlock then hs - {p} else if granted then insert p hs else hs)"

definition rt_inv :: "u64 \<Rightarrow> u64 set \<Rightarrow> bool" where
  "rt_inv owner hs \<longleftrightarrow> hs = (if owner = 0 then {} else {owner})"

lemma rt_block_owner: "rt_block lock s = Some s' \<Longrightarrow> rt_owner (rt_objs s' q) = rt_owner (rt_objs s q)"
  using rts_more(2) [OF process_schedule_more] by (fastforce simp: rt_block_def)

lemma rt_wake_owner: "rt_wake lock s = Some s' \<Longrightarrow> rt_objs s' = rt_objs s"
  using rts_more(2) [OF same_more(1) [OF enqueue_more]]
  by (fastforce simp: rt_wake_def Let_def split: if_splits bind_splits)

lemma rt_restore_owner: "rt_mutex_restore_prio p s = Some s' \<Longrightarrow> rt_objs s' = rt_objs s"
  by (auto simp: rt_mutex_restore_prio_def split: if_splits bind_splits)

lemma rt_owner_cases:
  fixes s :: "'a rts_scheme"
  assumes c: "c = current_process s" and ow: "ow = rt_owner (rt_objs s lock)"
  shows "rt_mutex_lock w lock s = Some (s', g) \<Longrightarrow>
      rt_owner (rt_objs s' lock) = (if ow = 0 then c else ow) \<and> (g \<longleftrightarrow> ow = 0 \<or> ow = c)"
    and "rt_mutex_lock_pass w lock s = Some (s', g) \<Longrightarrow>
      rt_owner (rt_objs s' lock) = (if ow = 0 then c else ow) \<and> (g \<longleftrightarrow> ow = 0 \<or> ow = c)"
    and "rt_mutex_trylock lock s = (s', r) \<Longrightarrow> rt_owner (rt_objs s' lock) = (if ow = 0 then c else ow) \<and> (r = 1 \<longleftrightarrow> ow = 0)"
    and "rt_mutex_unlock lock s = Some s' \<Longrightarrow> rt_owner (rt_objs s' lock) = (if ow = c then 0 else ow)"
proof -
  have eq: "rt_objs (rt_enqueue_waiter w lock s1) = rt_objs s1" for s1 :: "'a rts_scheme" by (simp add: rt_enqueue_waiter_def)
  show "rt_mutex_lock w lock s = Some (s', g) \<Longrightarrow>
      rt_owner (rt_objs s' lock) = (if ow = 0 then c else ow) \<and> (g \<longleftrightarrow> ow = 0 \<or> ow = c)"
    using assms by (auto simp: rt_mutex_lock_def rt_take_def Let_def eq dest: rt_block_owner split: if_splits)
  show "rt_mutex_lock_pass w lock s = Some (s', g) \<Longrightarrow>
      rt_owner (rt_objs s' lock) = (if ow = 0 then c else ow) \<and> (g \<longleftrightarrow> ow = 0 \<or> ow = c)"
    using assms by (auto simp: rt_mutex_lock_pass_def rt_take_def Let_def dest: rt_block_owner split: if_splits)
  show "rt_mutex_trylock lock s = (s', r) \<Longrightarrow> rt_owner (rt_objs s' lock) = (if ow = 0 then c else ow) \<and> (r = 1 \<longleftrightarrow> ow = 0)"
    using assms by (auto simp: rt_mutex_trylock_def rt_take_def Let_def split: if_splits)
  show "rt_mutex_unlock lock s = Some s' \<Longrightarrow> rt_owner (rt_objs s' lock) = (if ow = c then 0 else ow)"
    using assms by (auto simp: rt_mutex_unlock_def Let_def dest!: rt_wake_owner rt_restore_owner split: if_splits bind_splits)
qed

interpretation rtm: lock_protocol "rt_region lock" current_process "\<lambda>_ _ _. True" rt_account rt_inv for lock
proof
  fix l :: u64 and hs :: "u64 set" and s s' :: "'a rts_scheme" and a l' granted
  assume i: "rt_inv l hs" and c: "current_process s \<noteq> 0" and r: "rt_region lock a l s = Some (l', s', granted)"
  let ?c = "current_process s"
  define s0 where "s0 = upd_rt lock (\<lambda>x. x\<lparr>rt_owner := l\<rparr>) s"
  have ow: "?c = current_process s0" "l = rt_owner (rt_objs s0 lock)" by (simp_all add: s0_def)
  note oc = rt_owner_cases [OF ow]
  have "if a = Rt_unlock then l' = (if l = ?c then 0 else l)
    else l' = (if l = 0 then ?c else l) \<and> (granted \<longrightarrow> l = 0 \<or> l = ?c) \<and> (l = 0 \<longrightarrow> granted)"
  proof (cases a)
    case (Rt_lock w)
    then show ?thesis using r oc(1) [of w s' granted] unfolding rt_region_def s0_def [symmetric] Let_def by auto
  next
    case (Rt_pass w)
    then show ?thesis using r oc(2) [of w s' granted] unfolding rt_region_def s0_def [symmetric] Let_def by auto
  next
    case Rt_try
    then show ?thesis using r oc(3) [of s'] unfolding rt_region_def s0_def [symmetric] Let_def by (auto split: prod.splits)
  next
    case Rt_unlock
    then show ?thesis using r oc(4) [of s'] unfolding rt_region_def s0_def [symmetric] Let_def by auto
  qed
  then show "rt_inv l' (rt_account a ?c granted hs)"
    using i c by (auto simp: rt_inv_def rt_account_def split: if_splits)
qed

section \<open>Properties\<close>

text \<open>
  C12. No two processes hold an \<open>rt_mutex\<close>. Along any interleaving of the regions of \<open>rt_mutex_lock\<close>,
  \<open>rt_mutex_trylock\<close> and \<open>rt_mutex_unlock\<close> on a lock that was initialised, the processes whose calls went through and who have not unlocked
  are just the owner of the lock, or none when it has no owner.
\<close>

theorem rt_mutex_excludes:
  assumes "rtm.run TYPE('a) lock (rt_owner (rt_objs (rt_mutex_init lock s0) lock)) {} owner holders" and "p \<in> holders" and "q \<in> holders"
  shows "p = q \<and> owner = p \<and> p \<noteq> 0"
proof -
  have "rt_inv owner holders" by (rule rtm.run_inv [OF assms(1)]) (simp add: rt_inv_def rt_mutex_init_def)
  then show ?thesis using assms(2,3) by (auto simp: rt_inv_def split: if_splits)
qed


section \<open>Witnesses\<close>

definition demo_rts :: rts where
  "demo_rts = sync.extend demo_sync \<lparr>rt_links = INIT_LIST_HEAD 0x928 (INIT_LIST_HEAD (held_locks 0x300) (\<lambda>_. \<lparr>lh_next = 0, lh_prev = 0\<rparr>)),
     rt_objs = (\<lambda>_. \<lparr>rt_wait_lock = demo_lock, rt_owner = 0x100, rt_save_state = 0\<rparr>), rt_waiters = (\<lambda>_. \<lparr>wt_task = 0, wt_lock = 0\<rparr>)\<rparr>"

lemma demo_rts_fields:
  "procs demo_rts = procs demo_kernel" "current_process demo_rts = 0x300" "rt_owner (rt_objs demo_rts l) = 0x100"
  by (simp_all add: demo_rts_def sync.defs demo_sync_fields)

lemma demo_rts_rep: "sched_rep demo_rts ((\<lambda>_. [])(2 := [0x100]))"
  using demo_sync_state by (auto simp: wq_state_def demo_rts_def sync.defs intro: sched_rep_cong)

theorem rt_mutex_excludes_witness:
  "\<exists>holders. rtm.run TYPE(unit) 0x900 0 {} 0x300 holders \<and> holders = {0x300}"
proof -
  obtain s where r: "rt_region 0x900 Rt_try 0 demo_rts = Some (0x300, s, True)"
    by (simp add: rt_region_def rt_mutex_trylock_def rt_take_def demo_rts_fields)
  have run: "rtm.run TYPE(unit) 0x900 0 {} 0x300 (rt_account Rt_try (current_process demo_rts) True {})"
    by (rule rtm.step [OF rtm.start _ TrueI r]) (simp add: demo_rts_fields)
  then have "rtm.run TYPE(unit) 0x900 (rt_owner (rt_objs (rt_mutex_init 0x900 demo_rts) 0x900)) {} 0x300
      (rt_account Rt_try (current_process demo_rts) True {})" by (simp add: rt_mutex_init_def)
  note ex = rt_mutex_excludes [OF this, of "0x300" "0x300"]
  have h: "rt_account Rt_try (current_process demo_rts) True {} = {0x300}" by (simp add: rt_account_def demo_rts_fields)
  then show ?thesis using run ex by auto
qed


end
