(* ===== verification/Seccomp.thy ===== *)
theory Seccomp
  imports Heap Links
begin

text \<open>
  System call filtering, \<^verbatim>\<open>kernel/security/seccomp.c\<close>, with the filter machine of \<^verbatim>\<open>kernel/include/bpf.h\<close>.
  Filters run over the bytes of \<^verbatim>\<open>struct seccomp_data\<close> on the kernel stack; bytes the code does not set, and
  bytes behind the structure, are whatever the stack holds, a parameter of the model. The program
  counter is a signed 32-bit integer to which jump offsets are added with wrap-around; an index before the
  start of the program is a fault. A filter whose loop does not end has no result.
\<close>

section \<open>The filter machine\<close>

record sock_filter =
  code :: u16
  jt :: u8
  jf :: u8
  kval :: u32

definition BPF_LD :: u16 where "BPF_LD = 0x00"
definition BPF_ALU :: u16 where "BPF_ALU = 0x04"
definition BPF_JMP :: u16 where "BPF_JMP = 0x05"
definition BPF_RET :: u16 where "BPF_RET = 0x06"
definition BPF_MISC :: u16 where "BPF_MISC = 0x07"
definition BPF_W :: u16 where "BPF_W = 0x00"
definition BPF_IMM :: u16 where "BPF_IMM = 0x00"
definition BPF_ABS :: u16 where "BPF_ABS = 0x20"
definition BPF_ADD :: u16 where "BPF_ADD = 0x00"
definition BPF_SUB :: u16 where "BPF_SUB = 0x10"
definition BPF_MUL :: u16 where "BPF_MUL = 0x20"
definition BPF_DIV :: u16 where "BPF_DIV = 0x30"
definition BPF_OR :: u16 where "BPF_OR = 0x40"
definition BPF_AND :: u16 where "BPF_AND = 0x50"
definition BPF_LSH :: u16 where "BPF_LSH = 0x60"
definition BPF_RSH :: u16 where "BPF_RSH = 0x70"
definition BPF_NEG :: u16 where "BPF_NEG = 0x80"
definition BPF_XOR :: u16 where "BPF_XOR = 0xa0"
definition BPF_JA :: u16 where "BPF_JA = 0x00"
definition BPF_JEQ :: u16 where "BPF_JEQ = 0x10"
definition BPF_JGT :: u16 where "BPF_JGT = 0x20"
definition BPF_JGE :: u16 where "BPF_JGE = 0x30"
definition BPF_JSET :: u16 where "BPF_JSET = 0x40"
definition BPF_K :: u16 where "BPF_K = 0x00"
definition BPF_A :: u16 where "BPF_A = 0x10"
definition BPF_TAX :: u16 where "BPF_TAX = 0x00"
definition BPF_TXA :: u16 where "BPF_TXA = 0x80"

lemmas BPF_defs = BPF_LD_def BPF_ALU_def BPF_JMP_def BPF_RET_def BPF_MISC_def BPF_W_def BPF_IMM_def BPF_ABS_def
  BPF_ADD_def BPF_SUB_def BPF_MUL_def BPF_DIV_def BPF_OR_def BPF_AND_def BPF_LSH_def BPF_RSH_def BPF_NEG_def BPF_XOR_def
  BPF_JA_def BPF_JEQ_def BPF_JGT_def BPF_JGE_def BPF_JSET_def BPF_K_def BPF_A_def BPF_TAX_def BPF_TXA_def

definition SECCOMP_RET_KILL :: u32 where "SECCOMP_RET_KILL = 0"
definition SECCOMP_RET_ALLOW :: u32 where "SECCOMP_RET_ALLOW = 0x7fff0000"
definition SECCOMP_RET_ACTION :: u32 where "SECCOMP_RET_ACTION = 0x7fff0000"

definition sizeof_seccomp_data :: u32 where "sizeof_seccomp_data = 64"

datatype bpf_step = Next u32 u32 u32 | Done u32

definition shift_amount :: "u32 \<Rightarrow> nat" where
  "shift_amount k = unat (k AND 31)"

definition bpf_exec :: "bytes \<Rightarrow> sock_filter \<Rightarrow> u32 \<Rightarrow> u32 \<Rightarrow> u32 \<Rightarrow> bpf_step" where
  "bpf_exec sd inst pc A X =
     (let k = kval inst; c = code inst; jump = (\<lambda>b. Next (pc + (if b then ucast (jt inst) else ucast (jf inst))) A X) in
      if c = BPF_LD + BPF_W + BPF_ABS then
        (if k < sizeof_seccomp_data then Next pc (load32 sd (ucast k)) X else Done SECCOMP_RET_KILL)
      else if c = BPF_RET + BPF_K then Done k
      else if c = BPF_RET + BPF_A then Done A
      else if c = BPF_ALU + BPF_ADD + BPF_K then Next pc (A + k) X
      else if c = BPF_ALU + BPF_SUB + BPF_K then Next pc (A - k) X
      else if c = BPF_ALU + BPF_MUL + BPF_K then Next pc (A * k) X
      else if c = BPF_ALU + BPF_DIV + BPF_K then Next pc (if k = 0 then 0 else A div k) X
      else if c = BPF_ALU + BPF_AND + BPF_K then Next pc (A AND k) X
      else if c = BPF_ALU + BPF_OR + BPF_K then Next pc (A OR k) X
      else if c = BPF_ALU + BPF_XOR + BPF_K then Next pc (A XOR k) X
      else if c = BPF_ALU + BPF_LSH + BPF_K then Next pc (push_bit (shift_amount k) A) X
      else if c = BPF_ALU + BPF_RSH + BPF_K then Next pc (drop_bit (shift_amount k) A) X
      else if c = BPF_ALU + BPF_NEG then Next pc (- A) X
      else if c = BPF_LD + BPF_IMM then Next pc k X
      else if c = BPF_MISC + BPF_TAX then Next pc A A
      else if c = BPF_MISC + BPF_TXA then Next pc X X
      else if c = BPF_JMP + BPF_JA then Next (pc + k) A X
      else if c = BPF_JMP + BPF_JEQ + BPF_K then jump (A = k)
      else if c = BPF_JMP + BPF_JGT + BPF_K then jump (k < A)
      else if c = BPF_JMP + BPF_JGE + BPF_K then jump (k \<le> A)
      else if c = BPF_JMP + BPF_JSET + BPF_K then jump (A AND k \<noteq> 0)
      else Done SECCOMP_RET_KILL)"

datatype bpf_result = Ret u32 | Fault

partial_function (option) bpf_loop :: "bytes \<Rightarrow> sock_filter list \<Rightarrow> u32 \<Rightarrow> u32 \<Rightarrow> u32 \<Rightarrow> bpf_result option" where
  "bpf_loop sd prog pc A X =
     (if sint pc < int (length prog) then
        (if sint pc < 0 then Some Fault
         else
           (case bpf_exec sd (prog ! unat pc) pc A X of
              Done r \<Rightarrow> Some (Ret r)
            | Next pc' A' X' \<Rightarrow> bpf_loop sd prog (pc' + 1) A' X'))
      else Some (Ret SECCOMP_RET_KILL))"

declare bpf_loop.simps [code]

definition seccomp_run_filter :: "bytes \<Rightarrow> sock_filter list \<Rightarrow> bpf_result option" where
  "seccomp_run_filter sd prog = bpf_loop sd prog 0 0 0"

section \<open>Filters of a process\<close>

record seccomp_filter =
  sf_ref_count :: int
  sf_len :: u16
  sf_insns :: u64
  sf_prev :: u64

text \<open>The filter field of every process, the filter objects, and the instruction arrays they point to.\<close>

record seccomp =
  sc_heap :: heap
  sc_procs :: "u64 \<Rightarrow> u64"
  sc_filters :: "u64 \<Rightarrow> seccomp_filter"
  sc_insns :: "u64 \<Rightarrow> sock_filter list"

definition seccomp_data_bytes :: "bytes \<Rightarrow> u32 \<Rightarrow> bytes" where
  "seccomp_data_bytes stack nr =
     (\<lambda>a. if a < 4 then ucast (drop_bit (8 * unat a) nr)
          else if a < 8 then ucast (drop_bit (8 * unat (a - 4)) (0xC000003E :: u32))
          else if a < 16 then 0 else stack a)"

definition filter_allows :: "bytes \<Rightarrow> seccomp \<Rightarrow> u64 \<Rightarrow> bool option" where
  "filter_allows sd s f =
     (case seccomp_run_filter sd (take (unat (sf_len (sc_filters s f))) (sc_insns s (sf_insns (sc_filters s f)))) of
        Some (Ret r) \<Rightarrow> Some (r AND SECCOMP_RET_ACTION = SECCOMP_RET_ALLOW)
      | _ \<Rightarrow> None)"

partial_function (option) check_filters :: "bytes \<Rightarrow> seccomp \<Rightarrow> u64 \<Rightarrow> int option" where
  "check_filters sd s f =
     (if f \<noteq> 0 then
        (case filter_allows sd s f of
           None \<Rightarrow> None
         | Some ok \<Rightarrow> if ok then check_filters sd s (sf_prev (sc_filters s f)) else Some (- 1))
      else Some 0)"

declare check_filters.simps [code]

definition seccomp_check_syscall :: "bytes \<Rightarrow> seccomp \<Rightarrow> u64 \<Rightarrow> u32 \<Rightarrow> int option" where
  "seccomp_check_syscall stack s cur nr =
     (if cur = 0 \<or> sc_procs s cur = 0 then Some 0
      else check_filters (seccomp_data_bytes stack nr) s (sc_procs s cur))"

definition sizeof_seccomp_filter :: u64 where "sizeof_seccomp_filter = 32"

definition sizeof_sock_filter :: u64 where "sizeof_sock_filter = 8"

definition seccomp_attach_filter :: "u64 \<Rightarrow> u16 \<Rightarrow> sock_filter list \<Rightarrow> seccomp \<Rightarrow> (seccomp \<times> int) option" where
  "seccomp_attach_filter cur len prog s =
     (if cur = 0 then Some (s, - 1)
      else
        (case kmalloc sizeof_seccomp_filter (sc_heap s) of
           None \<Rightarrow> None
         | Some (h1, flt) \<Rightarrow>
             if flt = 0 then Some (s\<lparr>sc_heap := h1\<rparr>, - 1)
             else
               (case kmalloc (ucast len * sizeof_sock_filter) h1 of
                  None \<Rightarrow> None
                | Some (h2, insns) \<Rightarrow>
                    Some (s\<lparr>sc_heap := h2, sc_insns := (sc_insns s)(insns := take (unat len) prog),
                       sc_filters := (sc_filters s)(flt :=
                         \<lparr>sf_ref_count = 1, sf_len = len, sf_insns = insns, sf_prev = sc_procs s cur\<rparr>),
                       sc_procs := (sc_procs s)(cur := flt)\<rparr>, 0))))"

definition upd_filter :: "u64 \<Rightarrow> (seccomp_filter \<Rightarrow> seccomp_filter) \<Rightarrow> seccomp \<Rightarrow> seccomp" where
  "upd_filter f g s = s\<lparr>sc_filters := (sc_filters s)(f := g (sc_filters s f))\<rparr>"

partial_function (option) ref_filters :: "u64 \<Rightarrow> seccomp \<Rightarrow> seccomp option" where
  "ref_filters f s =
     (if f \<noteq> 0 then
        ref_filters (sf_prev (sc_filters s f)) (upd_filter f (\<lambda>x. x\<lparr>sf_ref_count := sf_ref_count x + 1\<rparr>) s)
      else Some s)"

definition seccomp_fork :: "u64 \<Rightarrow> u64 \<Rightarrow> seccomp \<Rightarrow> seccomp option" where
  "seccomp_fork child parent s =
     (if sc_procs s parent = 0 then Some (s\<lparr>sc_procs := (sc_procs s)(child := 0)\<rparr>)
      else ref_filters (sc_procs s parent) (s\<lparr>sc_procs := (sc_procs s)(child := sc_procs s parent)\<rparr>))"

partial_function (option) unref_filters :: "u64 \<Rightarrow> seccomp \<Rightarrow> seccomp option" where
  "unref_filters f s =
     (if f \<noteq> 0 then
        (let prev = sf_prev (sc_filters s f);
             s1 = upd_filter f (\<lambda>x. x\<lparr>sf_ref_count := sf_ref_count x - 1\<rparr>) s;
             s2 = (if sf_ref_count (sc_filters s1 f) \<le> 0
                   then s1\<lparr>sc_heap := kfree f (kfree (sf_insns (sc_filters s1 f)) (sc_heap s1))\<rparr> else s1)
         in unref_filters prev s2)
      else Some s)"

definition seccomp_exit :: "u64 \<Rightarrow> seccomp \<Rightarrow> seccomp option" where
  "seccomp_exit p s =
     map_option (\<lambda>s'. s'\<lparr>sc_procs := (sc_procs s')(p := 0)\<rparr>) (unref_filters (sc_procs s p) s)"

declare ref_filters.simps [code] unref_filters.simps [code]

section \<open>Running a filter\<close>

text \<open>Programs whose unconditional jumps go forward and stay far below the integer limit.\<close>

definition forward :: "sock_filter list \<Rightarrow> bool" where
  "forward prog \<longleftrightarrow> length prog < 2 ^ 16 \<and>
     (\<forall>i \<in> set prog. code i = BPF_JMP + BPF_JA \<longrightarrow> kval i < 0x7FFE0000)"

lemma bpf_exec_pc:
  "bpf_exec sd inst pc A X = Next pc' A' X' \<Longrightarrow>
     \<exists>d. pc' = pc + d \<and> (unat d < 256 \<or> code inst = BPF_JMP + BPF_JA \<and> d = kval inst)"
proof -
  assume a: "bpf_exec sd inst pc A X = Next pc' A' X'"
  have u: "unat (ucast b :: u32) < 256" for b :: u8
    using unsigned_less [of b, where 'a = nat] by (simp add: unsigned_ucast_eq take_bit_nat_eq_self)
  have "pc' = pc \<or> pc' = pc + ucast (jt inst) \<or> pc' = pc + ucast (jf inst) \<or>
      code inst = BPF_JMP + BPF_JA \<and> pc' = pc + kval inst"
    using a unfolding bpf_exec_def Let_def by (simp split: if_splits)
  then show ?thesis using u by (metis add.right_neutral unsigned_0 zero_less_numeral)
qed

lemma sint_small: "unat w < 2 ^ 31 \<Longrightarrow> sint (w :: u32) = int (unat w)"
proof -
  assume "unat w < 2 ^ 31"
  then have "uint w < 2 ^ 31" by (metis of_nat_less_iff of_nat_numeral of_nat_power uint_nat)
  then show ?thesis by (simp add: sint_uint signed_take_bit_int_eq_self order_trans [of _ 0])
qed

lemma bpf_loop_returns:
  assumes f: "forward prog"
  shows "unat pc < 0x7FFF0000 \<Longrightarrow> \<exists>r. bpf_loop sd prog pc A X = Some (Ret r)"
proof (induction "length prog - unat pc" arbitrary: pc A X rule: less_induct)
  case less
  have "sint pc = int (unat pc)" using less.prems by (intro sint_small) simp
  then have p: "sint pc < int (length prog) \<longleftrightarrow> unat pc < length prog" "\<not> sint pc < 0"
    by (simp_all only: of_nat_less_iff of_nat_less_0_iff not_False_eq_True)
  show ?case
  proof (cases "unat pc < length prog")
    case True
    let ?i = "prog ! unat pc"
    show ?thesis
    proof (cases "bpf_exec sd ?i pc A X")
      case (Done r)
      then show ?thesis using True p by (subst bpf_loop.simps) simp
    next
      case (Next pc' A' X')
      then obtain d where d: "pc' = pc + d" "unat d < 256 \<or> code ?i = BPF_JMP + BPF_JA \<and> d = kval ?i"
        using bpf_exec_pc [OF Next] by (elim exE conjE) (rule that)
      have "?i \<in> set prog" using True by simp
      then have dl: "unat d < 0x7FFE0000"
        using d(2) f unfolding forward_def word_less_nat_alt by (elim disjE conjE) simp_all
      have len: "length prog < 65536" using f by (simp add: forward_def)
      have "unat (pc + d) = unat pc + unat d" using True dl len by (intro unat_add_no_wrap) simp
      then have "unat (pc' + 1) = unat pc + unat d + 1" using True dl len d(1) by (subst unat_add_no_wrap) simp_all
      then have "length prog - unat (pc' + 1) < length prog - unat pc" "unat (pc' + 1) < 0x7FFF0000"
        using True dl len by simp_all
      from less.hyps [OF this] obtain r where "bpf_loop sd prog (pc' + 1) A' X' = Some (Ret r)" by blast
      then show ?thesis using True p Next by (subst bpf_loop.simps) simp
    qed
  next
    case False
    then show ?thesis using p by (subst bpf_loop.simps) simp
  qed
qed

text \<open>
  C28. Every filter whose unconditional jumps go forward, at most 0x7FFE0000 instructions, runs to a
  result on every system call: \<open>seccomp_run_filter\<close> returns, and never fetches an instruction from
  outside the program.
\<close>
theorem seccomp_filter_terminates:
  assumes "length prog < 2 ^ 16" and "\<forall>i \<in> set prog. code i = BPF_JMP + BPF_JA \<longrightarrow> kval i < 0x7FFE0000"
  shows "\<exists>r. seccomp_run_filter sd prog = Some (Ret r)"
  unfolding seccomp_run_filter_def by (rule bpf_loop_returns) (use assms in \<open>simp_all add: forward_def\<close>)

theorem seccomp_filter_terminates_witness:
  "\<exists>r. seccomp_run_filter (\<lambda>_. 0) [\<lparr>code = 0x20, jt = 0, jf = 0, kval = 0\<rparr>, \<lparr>code = 0x15, jt = 0, jf = 1, kval = 59\<rparr>,
     \<lparr>code = 0x06, jt = 0, jf = 0, kval = 0\<rparr>, \<lparr>code = 0x06, jt = 0, jf = 0, kval = 0x7fff0000\<rparr>] = Some (Ret r)"
  by (rule seccomp_filter_terminates) (simp_all add: BPF_defs)

lemma bpf_exec_stuck: "bpf_exec sd \<lparr>code = 5, jt = 0, jf = 0, kval = 0xFFFFFFFF\<rparr> 0 A X = Next (- 1) A X"
  by (simp add: bpf_exec_def BPF_defs)

lemma bpf_loop_stuck:
  assumes "bpf_loop sd prog pc A X = Some r"
  shows "\<not> (prog = [\<lparr>code = 5, jt = 0, jf = 0, kval = 0xFFFFFFFF\<rparr>] \<and> pc = 0)"
  using assms
proof (rule bpf_loop.raw_induct [rotated])
  fix f :: "bytes \<Rightarrow> sock_filter list \<Rightarrow> u32 \<Rightarrow> u32 \<Rightarrow> u32 \<Rightarrow> bpf_result option" and sd prog pc A X r
  assume IH: "\<And>sd prog pc A X r. f sd prog pc A X = Some r \<Longrightarrow>
      \<not> (prog = [\<lparr>code = 5, jt = 0, jf = 0, kval = 0xFFFFFFFF\<rparr>] \<and> pc = 0)"
    and s: "(if sint pc < int (length prog) then if sint pc < 0 then Some Fault
        else case bpf_exec sd (prog ! unat pc) pc A X of Next pc' A' X' \<Rightarrow> f sd prog (pc' + 1) A' X' | Done r \<Rightarrow> Some (Ret r)
      else Some (Ret SECCOMP_RET_KILL)) = Some r"
  show "\<not> (prog = [\<lparr>code = 5, jt = 0, jf = 0, kval = 0xFFFFFFFF\<rparr>] \<and> pc = 0)"
  proof
    assume p: "prog = [\<lparr>code = 5, jt = 0, jf = 0, kval = 0xFFFFFFFF\<rparr>] \<and> pc = 0"
    then have "f sd prog 0 A X = Some r" using s by (simp add: bpf_exec_stuck)
    from IH [OF this] p show False by simp
  qed
qed

text \<open>
  The kernel accepts any program, and one instruction is enough to hang it: a filter that jumps by
  \<open>-1\<close> comes back to itself, so that \<open>seccomp_run_filter\<close> does not return, and neither does
  \<open>seccomp_check_syscall\<close> for any system call of a process that has attached it.
\<close>
theorem seccomp_backward_jump_hangs:
  assumes "sc_insns s (sf_insns (sc_filters s (sc_procs s cur))) = [\<lparr>code = 5, jt = 0, jf = 0, kval = 0xFFFFFFFF\<rparr>]"
    and "sf_len (sc_filters s (sc_procs s cur)) = 1" and "cur \<noteq> 0" and "sc_procs s cur \<noteq> 0"
  shows "seccomp_check_syscall stack s cur nr = None"
proof -
  let ?p = "[\<lparr>code = 5, jt = 0, jf = 0, kval = 0xFFFFFFFF\<rparr>]"
  have "seccomp_run_filter sd ?p = None" for sd
    using bpf_loop_stuck [of sd ?p 0 0 0] by (cases "bpf_loop sd ?p 0 0 0") (auto simp: seccomp_run_filter_def)
  then have "filter_allows sd s (sc_procs s cur) = None" for sd
    using assms(1,2) by (simp add: filter_allows_def)
  then have "check_filters sd s (sc_procs s cur) = None" for sd
    using assms(4) by (subst check_filters.simps) simp
  then show ?thesis using assms(3,4) by (simp add: seccomp_check_syscall_def)
qed

section \<open>Attaching filters\<close>

text \<open>Every process has an unbroken list of filters, held in live heap objects.\<close>

definition seccomp_ok :: "seccomp \<Rightarrow> bool" where
  "seccomp_ok s \<longleftrightarrow> heap_ok (sc_heap s) \<and>
     (\<forall>p. \<exists>fs. chain (\<lambda>f. sf_prev (sc_filters s f)) (sc_procs s p) fs \<and>
       (\<forall>f \<in> set fs. f \<in> heap_live (sc_heap s) \<and> sf_insns (sc_filters s f) \<in> heap_live (sc_heap s)))"

lemma check_filters_cong:
  assumes "chain (\<lambda>f. sf_prev (sc_filters s f)) p fs"
    and "\<And>f. f \<in> set fs \<Longrightarrow> sc_filters s' f = sc_filters s f \<and>
      sc_insns s' (sf_insns (sc_filters s f)) = sc_insns s (sf_insns (sc_filters s f))"
  shows "check_filters sd s' p = check_filters sd s p"
  using assms
proof (induction fs arbitrary: p)
  case Nil
  then show ?case by (simp add: check_filters.simps)
next
  case (Cons f fs)
  then have eq: "filter_allows sd s' p = filter_allows sd s p" "sc_filters s' p = sc_filters s p"
    by (simp_all add: filter_allows_def)
  have "check_filters sd s' (sf_prev (sc_filters s p)) = check_filters sd s (sf_prev (sc_filters s p))"
    by (rule Cons.IH) (use Cons.prems in simp_all)
  then show ?case
    by (subst check_filters.simps, subst (2) check_filters.simps) (simp add: eq split: option.split)
qed

lemma seccomp_attach_cases:
  assumes "heap_ok (sc_heap s)" and "seccomp_attach_filter cur len prog s = Some (s', 0)"
  obtains f i where "f \<noteq> 0" "f \<notin> heap_live (sc_heap s)" "i \<notin> heap_live (sc_heap s)" "i = 0 \<or> i \<noteq> f"
    "heap_ok (sc_heap s')" "heap_live (sc_heap s') = heap_live (sc_heap s) \<union> ({f, i} - {0})"
    "sc_filters s' = (sc_filters s)(f := \<lparr>sf_ref_count = 1, sf_len = len, sf_insns = i, sf_prev = sc_procs s cur\<rparr>)"
    "sc_insns s' = (sc_insns s)(i := take (unat len) prog)" "sc_procs s' = (sc_procs s)(cur := f)" "cur \<noteq> 0"
proof -
  have cur: "cur \<noteq> 0" using assms(2) by (auto simp: seccomp_attach_filter_def)
  obtain h1 f h2 i where k: "kmalloc sizeof_seccomp_filter (sc_heap s) = Some (h1, f)" "f \<noteq> 0"
    "kmalloc (ucast len * sizeof_sock_filter) h1 = Some (h2, i)"
    "s' = s\<lparr>sc_heap := h2, sc_insns := (sc_insns s)(i := take (unat len) prog),
       sc_filters := (sc_filters s)(f := \<lparr>sf_ref_count = 1, sf_len = len, sf_insns = i, sf_prev = sc_procs s cur\<rparr>),
       sc_procs := (sc_procs s)(cur := f)\<rparr>"
    using assms(2) cur unfolding seccomp_attach_filter_def by (auto split: option.splits if_splits)
  from kmalloc_cases [OF assms(1) k(1)] k(2) have h1: "heap_ok h1" "f \<notin> heap_live (sc_heap s)"
    "heap_live h1 = insert f (heap_live (sc_heap s))" by blast+
  show thesis
    by (rule kmalloc_cases [OF h1(1) k(3)]; rule that [of f i])
      (use k h1 cur heap_live_nonzero [OF assms(1)] in auto)
qed

lemma seccomp_old_filters:
  assumes "seccomp_ok s" and "f \<notin> heap_live (sc_heap s)" "i \<notin> heap_live (sc_heap s)"
    and "sc_filters s' = (sc_filters s)(f := x)" and "sc_insns s' = (sc_insns s)(i := y)"
  shows "\<exists>fs. chain (\<lambda>f. sf_prev (sc_filters s' f)) (sc_procs s p) fs \<and> f \<notin> set fs \<and>
      (\<forall>g \<in> set fs. g \<in> heap_live (sc_heap s) \<and> sf_insns (sc_filters s' g) \<in> heap_live (sc_heap s))"
    and "check_filters sd s' (sc_procs s p) = check_filters sd s (sc_procs s p)"
proof -
  let ?n = "\<lambda>s f. sf_prev (sc_filters s f)"
  obtain fs where fs: "chain (?n s) (sc_procs s p) fs"
    "\<forall>g \<in> set fs. g \<in> heap_live (sc_heap s) \<and> sf_insns (sc_filters s g) \<in> heap_live (sc_heap s)"
    using assms(1) by (auto simp: seccomp_ok_def)
  then have f: "g \<noteq> f" "sf_insns (sc_filters s g) \<noteq> i" if "g \<in> set fs" for g using assms(2,3) that by auto
  show "check_filters sd s' (sc_procs s p) = check_filters sd s (sc_procs s p)"
    by (rule check_filters_cong [OF fs(1)]) (use assms f in simp)
  have "chain (?n s') (sc_procs s p) fs" using fs(1) f(1) assms(4) by (subst chain_cong [where nxt = "?n s"]) auto
  with fs(2) f(1) assms(4) show "\<exists>fs. chain (?n s') (sc_procs s p) fs \<and> f \<notin> set fs \<and>
    (\<forall>g \<in> set fs. g \<in> heap_live (sc_heap s) \<and> sf_insns (sc_filters s' g) \<in> heap_live (sc_heap s))"
    by (intro exI [of _ fs]) auto
qed

text \<open>
  C21. A filter can only take system calls away, and only from the process that attaches it. When
  \<open>seccomp_attach_filter\<close> succeeds and both its allocations did, a later check of the calling process
  first runs the new program: a verdict other than allow rejects the call, and allow leaves the decision to
  the filters that were attached before. The checks of every other process are unchanged, and the lists of
  filters stay intact.
\<close>
theorem seccomp_attach_restricts:
  assumes "seccomp_ok s" and "seccomp_attach_filter cur len prog s = Some (s', 0)"
    and "sf_insns (sc_filters s' (sc_procs s' cur)) \<noteq> 0"
  shows "seccomp_ok s' \<and>
    (\<forall>p. p \<noteq> cur \<longrightarrow> seccomp_check_syscall stack s' p nr = seccomp_check_syscall stack s p nr) \<and>
    seccomp_check_syscall stack s' cur nr =
      (case seccomp_run_filter (seccomp_data_bytes stack nr) (take (unat len) prog) of
         Some (Ret r) \<Rightarrow> if r AND SECCOMP_RET_ACTION = SECCOMP_RET_ALLOW
                          then seccomp_check_syscall stack s cur nr else Some (- 1)
       | _ \<Rightarrow> None)"
proof -
  let ?sd = "seccomp_data_bytes stack nr" and ?n = "\<lambda>s f. sf_prev (sc_filters s f)"
  have ok: "heap_ok (sc_heap s)" using assms(1) by (simp add: seccomp_ok_def)
  obtain f i where a: "f \<noteq> 0" "f \<notin> heap_live (sc_heap s)" "i \<notin> heap_live (sc_heap s)"
    "heap_ok (sc_heap s')" "heap_live (sc_heap s') = heap_live (sc_heap s) \<union> ({f, i} - {0})"
    "sc_filters s' = (sc_filters s)(f := \<lparr>sf_ref_count = 1, sf_len = len, sf_insns = i, sf_prev = sc_procs s cur\<rparr>)"
    "sc_insns s' = (sc_insns s)(i := take (unat len) prog)" "sc_procs s' = (sc_procs s)(cur := f)" "cur \<noteq> 0"
    by (rule seccomp_attach_cases [OF ok assms(2)])
  note old = seccomp_old_filters [OF assms(1) a(2,3,6,7)]
  have "seccomp_check_syscall stack s' p nr = seccomp_check_syscall stack s p nr" if "p \<noteq> cur" for p
    using that old(2) [of ?sd p] a(8) by (simp add: seccomp_check_syscall_def)
  moreover have "filter_allows ?sd s' f = (case seccomp_run_filter ?sd (take (unat len) prog) of
      Some (Ret r) \<Rightarrow> Some (r AND SECCOMP_RET_ACTION = SECCOMP_RET_ALLOW) | _ \<Rightarrow> None)"
    using a(6,7) by (simp add: filter_allows_def)
  moreover have "check_filters ?sd s (sc_procs s cur) = seccomp_check_syscall stack s cur nr"
    using a(9) by (simp add: seccomp_check_syscall_def check_filters.simps [of _ _ 0])
  then have "check_filters ?sd s' (?n s' f) = seccomp_check_syscall stack s cur nr"
    using old(2) [of ?sd cur] a(6) by simp
  then have "seccomp_check_syscall stack s' cur nr = (case filter_allows ?sd s' f of None \<Rightarrow> None
      | Some ok \<Rightarrow> if ok then seccomp_check_syscall stack s cur nr else Some (- 1))"
    using a(1,8,9) check_filters.simps [of ?sd s' f]
    by (simp add: seccomp_check_syscall_def split: option.split)
  moreover have "\<exists>fs. chain (?n s') (sc_procs s' p) fs \<and>
      (\<forall>g \<in> set fs. g \<in> heap_live (sc_heap s') \<and> sf_insns (sc_filters s' g) \<in> heap_live (sc_heap s'))" for p
  proof (cases "p = cur")
    case True
    obtain fs where "chain (?n s') (sc_procs s cur) fs"
      "\<forall>g \<in> set fs. g \<in> heap_live (sc_heap s) \<and> sf_insns (sc_filters s' g) \<in> heap_live (sc_heap s)"
      using old(1) [of cur] by blast
    then show ?thesis using a True assms(3) by (intro exI [of _ "f # fs"]) auto
  next
    case False
    then show ?thesis using old(1) [of p] a(5,8) by auto
  qed
  ultimately show ?thesis using a(4) by (simp add: seccomp_ok_def split: option.split bpf_result.split)
qed

section \<open>Witnesses\<close>

definition demo_seccomp :: seccomp where
  "demo_seccomp = \<lparr>sc_heap = demo_heap, sc_procs = (\<lambda>_. 0),
     sc_filters = (\<lambda>_. \<lparr>sf_ref_count = 0, sf_len = 0, sf_insns = 0, sf_prev = 0\<rparr>), sc_insns = (\<lambda>_. [])\<rparr>"

definition demo_attached :: "sock_filter list \<Rightarrow> seccomp" where
  "demo_attached prog = fst (the (seccomp_attach_filter 0x500 1 prog demo_seccomp))"

lemma demo_seccomp_ok: "seccomp_ok demo_seccomp"
  using demo_heap_ok by (auto simp: seccomp_ok_def demo_seccomp_def intro: exI [of _ "[]"])

definition demo_filter_heap :: heap where
  "demo_filter_heap = fst (the (kmalloc 32 demo_heap))"

definition demo_insns_heap :: heap where
  "demo_insns_heap = fst (the (kmalloc 8 demo_filter_heap))"

lemma demo_filter_kmalloc:
  "kmalloc 32 demo_heap = Some (demo_filter_heap, 0x1028)" "kmalloc 8 demo_filter_heap = Some (demo_insns_heap, 0x1070)"
  unfolding demo_insns_heap_def demo_filter_heap_def by (rule result_eqI; code_simp)+

lemma demo_attach: "seccomp_attach_filter 0x500 1 prog demo_seccomp = Some (demo_attached prog, 0)"
  "sc_procs (demo_attached prog) = (\<lambda>_. 0)(0x500 := 0x1028)"
  "sc_filters (demo_attached prog) 0x1028 = \<lparr>sf_ref_count = 1, sf_len = 1, sf_insns = 0x1070, sf_prev = 0\<rparr>"
  "sc_insns (demo_attached prog) 0x1070 = take 1 prog"
  by (simp_all add: demo_attached_def seccomp_attach_filter_def demo_seccomp_def sizeof_seccomp_filter_def
    sizeof_sock_filter_def demo_filter_kmalloc)

theorem seccomp_backward_jump_hangs_witness:
  "seccomp_check_syscall (\<lambda>_. 0) (demo_attached [\<lparr>code = 5, jt = 0, jf = 0, kval = 0xFFFFFFFF\<rparr>]) 0x500 39 = None"
  by (rule seccomp_backward_jump_hangs) (simp_all add: demo_attach)

lemma run_deny: "seccomp_run_filter sd [\<lparr>code = 6, jt = 0, jf = 0, kval = 0\<rparr>] = Some (Ret 0)"
  by (simp add: seccomp_run_filter_def bpf_loop.simps bpf_exec_def BPF_defs)

theorem seccomp_attach_restricts_witness:
  "seccomp_check_syscall (\<lambda>_. 0) (demo_attached [\<lparr>code = 6, jt = 0, jf = 0, kval = 0\<rparr>]) 0x500 39 = Some (- 1) \<and>
   seccomp_check_syscall (\<lambda>_. 0) (demo_attached [\<lparr>code = 6, jt = 0, jf = 0, kval = 0\<rparr>]) 0x600 39 = Some 0"
  using seccomp_attach_restricts [OF demo_seccomp_ok demo_attach(1)
      [of "[\<lparr>code = 6, jt = 0, jf = 0, kval = 0\<rparr>]"], of "\<lambda>_. 0" 39]
  by (simp add: demo_attach run_deny SECCOMP_RET_ALLOW_def SECCOMP_RET_ACTION_def)
    (simp add: seccomp_check_syscall_def demo_seccomp_def)

end
