(* ===== verification/Shm.thy ===== *)
theory Shm
  imports Locks
begin

text \<open>
  Shared memory segments: \<^verbatim>\<open>kernel/ipc/shm.c\<close>. Segments are typed objects; their memory is raw. A call that
  cannot get the mutex sleeps, and starts again when the caller runs.
\<close>

section \<open>State\<close>

record shm_segment =
  sg_id :: int
  sg_key :: int
  sg_size :: u64
  sg_phys_addr :: u64
  sg_ref_count :: int
  sg_next :: u64

record shms = sync +
  seg_objs :: "u64 \<Rightarrow> shm_segment"
  segments :: u64
  next_shm_id :: int
  shm_lock :: mutex

definition sizeof_shm_segment :: u64 where "sizeof_shm_segment = 40"

abbreviation seg_next :: "'a shms_scheme \<Rightarrow> u64 \<Rightarrow> u64" where
  "seg_next s \<equiv> \<lambda>g. sg_next (seg_objs s g)"

definition upd_seg :: "u64 \<Rightarrow> (shm_segment \<Rightarrow> shm_segment) \<Rightarrow> 'a shms_scheme \<Rightarrow> 'a shms_scheme" where
  "upd_seg g f s = s\<lparr>seg_objs := (seg_objs s)(g := f (seg_objs s g))\<rparr>"

definition shm_init :: "'a shms_scheme \<Rightarrow> 'a shms_scheme" where
  "shm_init s = s\<lparr>shm_lock := mutex_init (shm_lock s)\<rparr>"

definition find_shm :: "int \<Rightarrow> 'a shms_scheme \<Rightarrow> u64 option" where
  "find_shm i s = map_option snd (walk (\<lambda>g. sg_id (seg_objs s g) = i) (seg_next s) 0 (segments s))"

definition find_shm_key :: "int \<Rightarrow> 'a shms_scheme \<Rightarrow> u64 option" where
  "find_shm_key key s = map_option snd (walk (\<lambda>g. sg_key (seg_objs s g) = key) (seg_next s) 0 (segments s))"

section \<open>System calls\<close>

datatype 'r shm_call = Result 'r | Waits

definition lock_shm :: "u64 \<Rightarrow> 'a shms_scheme \<Rightarrow> ('a shms_scheme \<times> bool) option" where
  "lock_shm e s = map_option (\<lambda>(m, s1, b). (s1\<lparr>shm_lock := m\<rparr>, b)) (mutex_lock_round e (shm_lock s) s)"

definition unlock_shm :: "'a shms_scheme \<Rightarrow> 'a shms_scheme option" where
  "unlock_shm s = map_option (\<lambda>(m, s1). s1\<lparr>shm_lock := m\<rparr>) (mutex_unlock (shm_lock s) s)"

definition sys_shmget :: "u64 \<Rightarrow> int \<Rightarrow> u64 \<Rightarrow> 'a shms_scheme \<Rightarrow> ('a shms_scheme \<times> int shm_call) option" where
  "sys_shmget e key sz s =
     (case lock_shm e s of
        None \<Rightarrow> None
      | Some (s1, False) \<Rightarrow> Some (s1, Waits)
      | Some (s1, True) \<Rightarrow>
          (case find_shm_key key s1 of
             None \<Rightarrow> None
           | Some g \<Rightarrow>
               if g \<noteq> 0 then map_option (\<lambda>s2. (s2, Result (sg_id (seg_objs s2 g)))) (unlock_shm s1)
               else
                 (case kmalloc sizeof_shm_segment (k_heap s1) of
                    None \<Rightarrow> None
                  | Some (h1, g) \<Rightarrow>
                      if g = 0 then map_option (\<lambda>s3. (s3, Result (- 1))) (unlock_shm (s1\<lparr>k_heap := h1\<rparr>))
                      else
                        (case kmalloc sz h1 of
                           None \<Rightarrow> None
                         | Some (h2, p) \<Rightarrow>
                             if p = 0 then map_option (\<lambda>s3. (s3, Result (- 1))) (unlock_shm (s1\<lparr>k_heap := kfree g h2\<rparr>))
                             else
                               (let s2 = set_mem (memset (k_mem s1) p 0 sz) (s1\<lparr>k_heap := h2\<rparr>);
                                    i = next_shm_id s2;
                                    s3 = (upd_seg g (\<lambda>x. x\<lparr>sg_phys_addr := p, sg_id := i, sg_key := key, sg_size := sz,
                                             sg_ref_count := 0, sg_next := segments s2\<rparr>) s2)\<lparr>next_shm_id := i + 1, segments := g\<rparr>
                                in map_option (\<lambda>s4. (s4, Result (sg_id (seg_objs s4 g)))) (unlock_shm s3))))))"

definition sys_shmat :: "u64 \<Rightarrow> int \<Rightarrow> 'a shms_scheme \<Rightarrow> ('a shms_scheme \<times> u64 shm_call) option" where
  "sys_shmat e shmid s =
     (case lock_shm e s of
        None \<Rightarrow> None
      | Some (s1, False) \<Rightarrow> Some (s1, Waits)
      | Some (s1, True) \<Rightarrow>
          (case find_shm shmid s1 of
             None \<Rightarrow> None
           | Some g \<Rightarrow>
               if g = 0 then map_option (\<lambda>s2. (s2, Result (- 1))) (unlock_shm s1)
               else map_option (\<lambda>s2. (s2, Result (sg_phys_addr (seg_objs s2 g))))
                      (unlock_shm (upd_seg g (\<lambda>x. x\<lparr>sg_ref_count := sg_ref_count x + 1\<rparr>) s1))))"

definition sys_shmdt :: "u64 \<Rightarrow> u64 \<Rightarrow> 'a shms_scheme \<Rightarrow> ('a shms_scheme \<times> int shm_call) option" where
  "sys_shmdt e shmaddr s =
     (case lock_shm e s of
        None \<Rightarrow> None
      | Some (s1, False) \<Rightarrow> Some (s1, Waits)
      | Some (s1, True) \<Rightarrow>
          (case walk (\<lambda>g. sg_phys_addr (seg_objs s1 g) = shmaddr) (seg_next s1) 0 (segments s1) of
             None \<Rightarrow> None
           | Some (_, g) \<Rightarrow>
               if g \<noteq> 0 then map_option (\<lambda>s2. (s2, Result 0))
                               (unlock_shm (upd_seg g (\<lambda>x. x\<lparr>sg_ref_count := sg_ref_count x - 1\<rparr>) s1))
               else map_option (\<lambda>s2. (s2, Result (- 1))) (unlock_shm s1)))"

section \<open>Well-formed segments\<close>

text \<open>
  The segments are a list without repetition; their identifiers are positive and below the next one, no two have the
  same identifier or key, and the segments and their memory are different live objects of the heap. Nobody holds or
  waits for the lock.
\<close>

definition shm_ok :: "'a shms_scheme \<Rightarrow> u64 list \<Rightarrow> bool" where
  "shm_ok s gs \<longleftrightarrow>
     chain (seg_next s) (segments s) gs \<and> 0 < next_shm_id s \<and>
     (\<forall>g\<in>set gs. 0 < sg_id (seg_objs s g) \<and> sg_id (seg_objs s g) < next_shm_id s) \<and>
     inj_on (\<lambda>g. sg_id (seg_objs s g)) (set gs) \<and> inj_on (\<lambda>g. sg_key (seg_objs s g)) (set gs) \<and>
     inj_on (\<lambda>g. sg_phys_addr (seg_objs s g)) (set gs) \<and>
     set gs \<subseteq> heap_live (k_heap s) \<and> (\<lambda>g. sg_phys_addr (seg_objs s g)) ` set gs \<subseteq> heap_live (k_heap s) - set gs \<and>
     heap_ok (k_heap s) \<and> mutex_idle (shm_lock s)"

lemma upd_seg_simps [simp]:
  "seg_objs (upd_seg g f s) = (seg_objs s)(g := f (seg_objs s g))" "segments (upd_seg g f s) = segments s"
  "next_shm_id (upd_seg g f s) = next_shm_id s" "k_heap (upd_seg g f s) = k_heap s" "shm_lock (upd_seg g f s) = shm_lock s"
  "current_process (upd_seg g f s) = current_process s" "k_vm (upd_seg g f s) = k_vm s"
  "seg_objs (set_mem m s) = seg_objs s" "segments (set_mem m s) = segments s" "next_shm_id (set_mem m s) = next_shm_id s"
  "shm_lock (set_mem m s) = shm_lock s"
  by (simp_all add: upd_seg_def set_mem_def)

lemma shm_mem_simps [simp]:
  "current_process (set_mem m s) = current_process s" "k_heap (set_mem m s) = k_heap s" "k_mem (set_mem m s) = m"
  by (simp_all add: set_mem_def)

lemma lock_shm_idle:
  "mutex_idle (shm_lock s) \<Longrightarrow> \<exists>m. lock_shm e s = Some (s\<lparr>shm_lock := m\<rparr>, True) \<and> mutex_held m (current_process s)"
  using mutex_lock_idle [of "shm_lock s" e s] by (auto simp: lock_shm_def)

lemma unlock_shm_held:
  "mutex_held (shm_lock s) (current_process s) \<Longrightarrow> \<exists>m. unlock_shm s = Some (s\<lparr>shm_lock := m\<rparr>) \<and> mutex_idle m"
  using mutex_unlock_held [of "shm_lock s" s] by (auto simp: unlock_shm_def)

lemma find_walk:
  assumes "chain nxt h gs"
  shows "map_option snd (walk P nxt 0 h) = Some (case find P gs of None \<Rightarrow> 0 | Some g \<Rightarrow> g)"
proof -
  have "hd0 (dropWhile (\<lambda>x. \<not> P x) gs) = (case find P gs of None \<Rightarrow> 0 | Some g \<Rightarrow> g)" by (induction gs) auto
  then show ?thesis by (simp add: walk_chain [OF assms])
qed

lemma shm_ok_rest:
  assumes "shm_ok s gs" and "heap_ok (k_heap s')" and "heap_live (k_heap s') = heap_live (k_heap s)" and "mutex_idle (shm_lock s')"
    and "segments s' = segments s" and "next_shm_id s' = next_shm_id s"
    and "\<And>g. (seg_objs s' g)\<lparr>sg_ref_count := 0\<rparr> = (seg_objs s g)\<lparr>sg_ref_count := 0\<rparr>"
  shows "shm_ok s' gs"
proof -
  have "f ((seg_objs s' g)\<lparr>sg_ref_count := 0\<rparr>) = f ((seg_objs s g)\<lparr>sg_ref_count := 0\<rparr>)" for f :: "shm_segment \<Rightarrow> 'z" and g
    using assms(7) by simp
  note f = this
  have "sg_id (seg_objs s' g) = sg_id (seg_objs s g)" "sg_key (seg_objs s' g) = sg_key (seg_objs s g)"
    "sg_phys_addr (seg_objs s' g) = sg_phys_addr (seg_objs s g)" "sg_next (seg_objs s' g) = sg_next (seg_objs s g)" for g
    using f [of sg_id g] f [of sg_key g] f [of sg_phys_addr g] f [of sg_next g] by simp_all
  then show ?thesis using assms(1-6) by (simp add: shm_ok_def)
qed

lemma find_cases:
  assumes "0 \<notin> set gs"
  shows "(case find P gs of None \<Rightarrow> 0 | Some g \<Rightarrow> g) = (g :: u64) \<Longrightarrow> g = 0 \<Longrightarrow> \<forall>x\<in>set gs. \<not> P x"
    and "(case find P gs of None \<Rightarrow> 0 | Some g \<Rightarrow> g) = g \<Longrightarrow> g \<noteq> 0 \<Longrightarrow> g \<in> set gs \<and> P g"
  using assms by (induction gs) (auto split: if_splits)

text \<open>A call under the lock, and its release at the end.\<close>

lemma shm_lock_ok:
  assumes "shm_ok s gs"
  shows "\<exists>m. lock_shm e s = Some (s\<lparr>shm_lock := m\<rparr>, True) \<and> mutex_held m (current_process s)"
    and "0 \<notin> set gs" and "chain (seg_next s) (segments s) gs"
  using assms lock_shm_idle chain_nonzero by (auto simp: shm_ok_def)

lemma shmat_ok:
  assumes ok: "shm_ok s gs"
  shows "\<exists>s' a. sys_shmat e i s = Some (s', Result a) \<and> shm_ok s' gs \<and>
    ((\<exists>g\<in>set gs. sg_id (seg_objs s g) = i \<and> a = sg_phys_addr (seg_objs s g) \<and>
        sg_ref_count (seg_objs s' g) = sg_ref_count (seg_objs s g) + 1) \<or>
     a = - 1 \<and> (\<forall>g\<in>set gs. sg_id (seg_objs s g) \<noteq> i))"
proof -
  obtain m where l: "lock_shm e s = Some (s\<lparr>shm_lock := m\<rparr>, True)" "mutex_held m (current_process s)" using shm_lock_ok [OF ok] by blast
  define g where "g = (case find (\<lambda>g. sg_id (seg_objs s g) = i) gs of None \<Rightarrow> 0 | Some g \<Rightarrow> g)"
  note fc = find_cases [OF shm_lock_ok(2) [OF ok], of "\<lambda>g. sg_id (seg_objs s g) = i" g, OF g_def [symmetric]]
  have f: "find_shm i (s\<lparr>shm_lock := m\<rparr>) = Some g" using find_walk [OF shm_lock_ok(3) [OF ok]] by (simp add: find_shm_def g_def)
  show ?thesis
  proof (cases "g = 0")
    case True
    obtain m' where u: "unlock_shm (s\<lparr>shm_lock := m\<rparr>) = Some (s\<lparr>shm_lock := m'\<rparr>)" "mutex_idle m'"
      using unlock_shm_held [of "s\<lparr>shm_lock := m\<rparr>"] l(2) by auto
    have "shm_ok (s\<lparr>shm_lock := m'\<rparr>) gs" by (rule shm_ok_rest [OF ok]) (use ok u(2) in \<open>auto simp: shm_ok_def\<close>)
    then show ?thesis using l(1) f u(1) True fc by (simp add: sys_shmat_def)
  next
    case False
    let ?s1 = "upd_seg g (\<lambda>x. x\<lparr>sg_ref_count := sg_ref_count x + 1\<rparr>) (s\<lparr>shm_lock := m\<rparr>)"
    obtain m' where u: "unlock_shm ?s1 = Some (?s1\<lparr>shm_lock := m'\<rparr>)" "mutex_idle m'" using unlock_shm_held [of ?s1] l(2) by auto
    have "shm_ok (?s1\<lparr>shm_lock := m'\<rparr>) gs" by (rule shm_ok_rest [OF ok]) (use ok u(2) in \<open>auto simp: shm_ok_def\<close>)
    then show ?thesis using l(1) f u(1) False fc by (auto simp: sys_shmat_def)
  qed
qed

lemma shmdt_ok:
  assumes ok: "shm_ok s gs"
  shows "\<exists>s' r. sys_shmdt e a s = Some (s', Result r) \<and> shm_ok s' gs \<and>
    ((\<exists>g\<in>set gs. sg_phys_addr (seg_objs s g) = a \<and> r = 0 \<and> sg_ref_count (seg_objs s' g) = sg_ref_count (seg_objs s g) - 1) \<or>
     r = - 1 \<and> (\<forall>g\<in>set gs. sg_phys_addr (seg_objs s g) \<noteq> a))"
proof -
  obtain m where l: "lock_shm e s = Some (s\<lparr>shm_lock := m\<rparr>, True)" "mutex_held m (current_process s)" using shm_lock_ok [OF ok] by blast
  define g where "g = (case find (\<lambda>g. sg_phys_addr (seg_objs s g) = a) gs of None \<Rightarrow> 0 | Some g \<Rightarrow> g)"
  note fc = find_cases [OF shm_lock_ok(2) [OF ok], of "\<lambda>g. sg_phys_addr (seg_objs s g) = a" g, OF g_def [symmetric]]
  have "map_option snd (walk (\<lambda>g. sg_phys_addr (seg_objs s g) = a) (seg_next s) 0 (segments s)) = Some g"
    using find_walk [OF shm_lock_ok(3) [OF ok]] by (simp add: g_def)
  then obtain pr where f: "walk (\<lambda>g. sg_phys_addr (seg_objs s g) = a) (seg_next s) 0 (segments s) = Some (pr, g)" by auto
  show ?thesis
  proof (cases "g = 0")
    case True
    obtain m' where u: "unlock_shm (s\<lparr>shm_lock := m\<rparr>) = Some (s\<lparr>shm_lock := m'\<rparr>)" "mutex_idle m'"
      using unlock_shm_held [of "s\<lparr>shm_lock := m\<rparr>"] l(2) by auto
    have "shm_ok (s\<lparr>shm_lock := m'\<rparr>) gs" by (rule shm_ok_rest [OF ok]) (use ok u(2) in \<open>auto simp: shm_ok_def\<close>)
    then show ?thesis using l(1) f u(1) True fc by (simp add: sys_shmdt_def)
  next
    case False
    let ?s1 = "upd_seg g (\<lambda>x. x\<lparr>sg_ref_count := sg_ref_count x - 1\<rparr>) (s\<lparr>shm_lock := m\<rparr>)"
    obtain m' where u: "unlock_shm ?s1 = Some (?s1\<lparr>shm_lock := m'\<rparr>)" "mutex_idle m'" using unlock_shm_held [of ?s1] l(2) by auto
    have "shm_ok (?s1\<lparr>shm_lock := m'\<rparr>) gs" by (rule shm_ok_rest [OF ok]) (use ok u(2) in \<open>auto simp: shm_ok_def\<close>)
    then show ?thesis using l(1) f u(1) False fc by (auto simp: sys_shmdt_def)
  qed
qed

text \<open>A new segment at the front of the list.\<close>

lemma shm_ok_cons:
  assumes ok: "shm_ok s gs" and h: "heap_ok h" "heap_live h = insert p (insert g (heap_live (k_heap s)))"
    and new: "g \<noteq> 0" "g \<notin> heap_live (k_heap s)" "p \<notin> insert g (heap_live (k_heap s))"
    and key: "\<forall>x\<in>set gs. sg_key (seg_objs s x) \<noteq> sg_key v"
    and v: "sg_phys_addr v = p" "sg_id v = next_shm_id s" "sg_next v = segments s"
    and s': "seg_objs s' = (seg_objs s)(g := v)" "segments s' = g" "next_shm_id s' = next_shm_id s + 1" "k_heap s' = h"
      "mutex_idle (shm_lock s')"
  shows "shm_ok s' (g # gs)"
proof -
  have g: "g \<notin> set gs" "p \<notin> set gs" "p \<noteq> g" using ok new by (auto simp: shm_ok_def)
  have so: "seg_objs s' x = seg_objs s x" if "x \<in> set gs" for x using g that by (auto simp: s')
  have sg: "seg_objs s' g = v" by (simp add: s')
  have im: "(\<lambda>x. f (seg_objs s' x)) ` set gs = (\<lambda>x. f (seg_objs s x)) ` set gs" for f :: "shm_segment \<Rightarrow> 'z"
    by (rule image_cong) (simp_all add: so)
  have inj: "inj_on (\<lambda>x. f (seg_objs s' x)) (set gs) = inj_on (\<lambda>x. f (seg_objs s x)) (set gs)" for f :: "shm_segment \<Rightarrow> 'z"
    by (rule inj_on_cong) (simp add: so)
  have "chain (seg_next s') (segments s) gs"
    using ok by (subst chain_cong [where nxt = "seg_next s"]) (auto simp: shm_ok_def so)
  moreover have "p \<notin> (\<lambda>x. sg_phys_addr (seg_objs s x)) ` set gs" "g \<notin> (\<lambda>x. sg_phys_addr (seg_objs s x)) ` set gs"
      "next_shm_id s \<notin> (\<lambda>x. sg_id (seg_objs s x)) ` set gs" "sg_key v \<notin> (\<lambda>x. sg_key (seg_objs s x)) ` set gs"
    using ok new key by (auto simp: shm_ok_def)
  moreover have "0 < sg_id (seg_objs s' x) \<and> sg_id (seg_objs s' x) < next_shm_id s + 1" if "x \<in> set gs" for x
    using ok that unfolding so [OF that] by (auto simp: shm_ok_def)
  moreover have "set gs - {g} = set gs" using g by simp
  ultimately show ?thesis using ok new g unfolding shm_ok_def list.set inj_on_insert ball_simps image_insert inj im
    by (auto simp: s'(2-5) sg v h im)
qed

lemma shmget_ok:
  assumes ok: "shm_ok s gs"
  shows "\<exists>s' r gs'. sys_shmget e key sz s = Some (s', Result r) \<and> shm_ok s' gs' \<and>
    ((\<exists>g\<in>set gs. sg_key (seg_objs s g) = key \<and> r = sg_id (seg_objs s g)) \<and> gs' = gs \<or>
     (\<forall>g\<in>set gs. sg_key (seg_objs s g) \<noteq> key) \<and> r = - 1 \<and> gs' = gs \<or>
     (\<forall>g\<in>set gs. sg_key (seg_objs s g) \<noteq> key) \<and> r = next_shm_id s \<and>
       (\<exists>g. gs' = g # gs \<and> sg_key (seg_objs s' g) = key \<and> sg_id (seg_objs s' g) = r \<and>
          k_mem s' = memset (k_mem s) (sg_phys_addr (seg_objs s' g)) 0 sz))"
proof -
  obtain m where l: "lock_shm e s = Some (s\<lparr>shm_lock := m\<rparr>, True)" "mutex_held m (current_process s)" using shm_lock_ok [OF ok] by blast
  define g where "g = (case find (\<lambda>g. sg_key (seg_objs s g) = key) gs of None \<Rightarrow> 0 | Some g \<Rightarrow> g)"
  note fc = find_cases [OF shm_lock_ok(2) [OF ok], of "\<lambda>g. sg_key (seg_objs s g) = key" g, OF g_def [symmetric]]
  have f: "find_shm_key key (s\<lparr>shm_lock := m\<rparr>) = Some g" using find_walk [OF shm_lock_ok(3) [OF ok]] by (simp add: find_shm_key_def g_def)
  have hk: "heap_ok (k_heap s)" using ok by (simp add: shm_ok_def)
  obtain h1 n where k1: "kmalloc sizeof_shm_segment (k_heap s) = Some (h1, n)" and o1: "heap_ok h1"
    and h1: "n = 0 \<and> h1 = k_heap s \<or> n \<noteq> 0 \<and> n \<notin> heap_live (k_heap s) \<and> heap_live h1 = insert n (heap_live (k_heap s))"
    using kmalloc_step [OF hk] by blast
  obtain h2 p where k2: "kmalloc sz h1 = Some (h2, p)" and o2: "heap_ok h2"
    and h2: "p = 0 \<and> h2 = h1 \<or> p \<noteq> 0 \<and> p \<notin> heap_live h1 \<and> heap_live h2 = insert p (heap_live h1)"
    using kmalloc_step [OF o1] by blast
  have un: "\<exists>m'. unlock_shm t = Some (t\<lparr>shm_lock := m'\<rparr>) \<and> mutex_idle m'"
    if "shm_lock t = m" "current_process t = current_process s" for t using unlock_shm_held [of t] l(2) that by auto
  have keep: "shm_ok (s\<lparr>shm_lock := m, k_heap := h, shm_lock := m'\<rparr>) gs"
    if "heap_ok h" "heap_live h = heap_live (k_heap s)" "mutex_idle m'" for h m'
    by (rule shm_ok_rest [OF ok]) (use that in auto)
  consider "g \<noteq> 0" | "g = 0" "n = 0" | "g = 0" "n \<noteq> 0" "p = 0" | "g = 0" "n \<noteq> 0" "p \<noteq> 0" by blast
  then show ?thesis
  proof cases
    case 1
    obtain m' where u: "unlock_shm (s\<lparr>shm_lock := m\<rparr>) = Some (s\<lparr>shm_lock := m'\<rparr>)" "mutex_idle m'" using un [of "s\<lparr>shm_lock := m\<rparr>"] by auto
    have "shm_ok (s\<lparr>shm_lock := m'\<rparr>) gs" by (rule shm_ok_rest [OF ok]) (use ok u(2) in \<open>auto simp: shm_ok_def\<close>)
    then show ?thesis using l(1) f u(1) 1 fc(2) by (auto simp: sys_shmget_def)
  next
    case 2
    obtain m' where u: "unlock_shm (s\<lparr>shm_lock := m, k_heap := h1\<rparr>) = Some (s\<lparr>shm_lock := m, k_heap := h1, shm_lock := m'\<rparr>)"
      "mutex_idle m'" using un [of "s\<lparr>shm_lock := m, k_heap := h1\<rparr>"] by auto
    have "shm_ok (s\<lparr>shm_lock := m, k_heap := h1, shm_lock := m'\<rparr>) gs" by (rule keep) (use 2 h1 hk u(2) in auto)
    moreover have "sys_shmget e key sz s = Some (s\<lparr>shm_lock := m, k_heap := h1, shm_lock := m'\<rparr>, Result (- 1))"
      using l(1) f u(1) 2 k1 by (simp add: sys_shmget_def)
    ultimately show ?thesis using fc(1) 2 by blast
  next
    case 3
    then have hl: "heap_ok (kfree n h2)" "heap_live (kfree n h2) = heap_live (k_heap s)" using kfree_ok [OF o1, of n] h1 h2 by auto
    define t where "t = s\<lparr>shm_lock := m, k_heap := kfree n h2\<rparr>"
    obtain m' where u: "unlock_shm t = Some (t\<lparr>shm_lock := m'\<rparr>)" "mutex_idle m'" using un [of t] by (auto simp: t_def)
    have "shm_ok (t\<lparr>shm_lock := m'\<rparr>) gs" unfolding t_def by (rule keep) (use hl u(2) in auto)
    moreover have "sys_shmget e key sz s = Some (t\<lparr>shm_lock := m'\<rparr>, Result (- 1))"
      using l(1) f u(1) 3 k1 k2 by (simp add: sys_shmget_def t_def)
    ultimately show ?thesis using fc(1) 3 by blast
  next
    case 4
    define v where "v = (seg_objs s n)\<lparr>sg_phys_addr := p, sg_id := next_shm_id s, sg_key := key, sg_size := sz, sg_ref_count := 0,
      sg_next := segments s\<rparr>"
    define s3 where "s3 = (upd_seg n (\<lambda>x. v) (set_mem (memset (k_mem s) p 0 sz) (s\<lparr>shm_lock := m, k_heap := h2\<rparr>)))
      \<lparr>next_shm_id := next_shm_id s + 1, segments := n\<rparr>"
    obtain m' where u: "unlock_shm s3 = Some (s3\<lparr>shm_lock := m'\<rparr>)" "mutex_idle m'" using un [of s3] by (auto simp: s3_def)
    have "shm_ok (s3\<lparr>shm_lock := m'\<rparr>) (n # gs)"
    proof (rule shm_ok_cons [OF ok o2, of p n v])
      show "heap_live h2 = insert p (insert n (heap_live (k_heap s)))" "n \<noteq> 0" "n \<notin> heap_live (k_heap s)"
        "p \<notin> insert n (heap_live (k_heap s))" using 4 h1 h2 by auto
    qed (use 4 fc(1) u(2) in \<open>simp_all add: s3_def v_def\<close>)
    moreover have "sys_shmget e key sz s = Some (s3\<lparr>shm_lock := m'\<rparr>, Result (next_shm_id s))"
      using l(1) f 4 k1 k2 u(1) by (simp add: sys_shmget_def Let_def s3_def v_def upd_seg_def set_mem_def)
    ultimately show ?thesis using 4 fc(1)
      by (intro exI [of _ "s3\<lparr>shm_lock := m'\<rparr>"] exI [of _ "next_shm_id s"] exI [of _ "n # gs"]) (simp add: s3_def v_def)
  qed
qed

section \<open>Properties\<close>


section \<open>Witnesses\<close>

definition demo_shms :: shms where
  "demo_shms = sync.extend demo_sync \<lparr>seg_objs = (\<lambda>_. \<lparr>sg_id = 0, sg_key = 0, sg_size = 0, sg_phys_addr = 0, sg_ref_count = 0,
     sg_next = 0\<rparr>), segments = 0, next_shm_id = 1, shm_lock = demo_mutex\<rparr>"


end
