(* ===== verification/Swap.thy ===== *)
theory Swap
  imports Vmm
begin

text \<open>
  Swapping, \<^verbatim>\<open>kernel/memory/swap.c\<close>, and the coherent DMA allocator, \<^verbatim>\<open>kernel/drivers/core/dma.c\<close>.
  A swap device is a bitmap and a storage area, both allocated from the kernel heap; pages are moved by
  \<open>memcpy\<close>. A result \<open>None\<close> stands for the error code \<open>-1\<close>. Specification: the device is a partial map
  from slots to page contents.
\<close>

section \<open>The code\<close>

record swap_device =
  sd_id :: u32
  sd_active :: u32
  sd_storage :: u64
  sd_size :: u64
  sd_bitmap :: u64

record swap_entry =
  se_offset :: u64
  se_device_id :: u8

record swap =
  sw_vm :: vmm
  sw_heap :: heap
  swap_devices :: "u8 \<Rightarrow> swap_device"

definition MAX_SWAP_DEVICES :: u8 where "MAX_SWAP_DEVICES = 4"
definition SWAP_PAGE_SIZE :: u64 where "SWAP_PAGE_SIZE = 4096"
definition PTE_SWAPPED :: u64 where "PTE_SWAPPED = 0x200"

abbreviation sw_mem :: "swap \<Rightarrow> bytes" where
  "sw_mem s \<equiv> mem (sw_vm s)"

definition upd_mem :: "(bytes \<Rightarrow> bytes) \<Rightarrow> swap \<Rightarrow> swap" where
  "upd_mem f s = s\<lparr>sw_vm := (sw_vm s)\<lparr>mem := f (sw_mem s)\<rparr>\<rparr>"

definition swap_init :: "swap \<Rightarrow> swap option" where
  "swap_init s =
     (let sz = 1024 in
      case kmalloc (sz * SWAP_PAGE_SIZE) (sw_heap s) of
        None \<Rightarrow> None
      | Some (h1, st) \<Rightarrow>
          (case kmalloc sz h1 of
             None \<Rightarrow> None
           | Some (h2, bm) \<Rightarrow>
               (let s1 = s\<lparr>sw_heap := h2, swap_devices := (swap_devices s)(0 :=
                      \<lparr>sd_id = 0, sd_active = 1, sd_storage = st, sd_size = sz, sd_bitmap = bm\<rparr>)\<rparr>
                in if st = 0 \<or> bm = 0 then Some s1 else Some (upd_mem (\<lambda>m. memset m bm 0 sz) s1))))"

definition find_free_swap_slot :: "swap \<Rightarrow> u8 \<Rightarrow> swap \<times> u64 option" where
  "find_free_swap_slot s dev_id =
     (let dev = swap_devices s dev_id in
      case for_find (\<lambda>i. sw_mem s (sd_bitmap dev + i) = 0) 0 (sd_size dev) of
        Some i \<Rightarrow> (upd_mem (\<lambda>m. m(sd_bitmap dev + i := 1)) s, Some i)
      | None \<Rightarrow> (s, None))"

definition swap_out :: "swap \<Rightarrow> u64 \<Rightarrow> swap \<times> swap_entry option" where
  "swap_out s phys_addr =
     (if sd_active (swap_devices s 0) = 0 then (s, None)
      else
        (case find_free_swap_slot s 0 of
           (s1, None) \<Rightarrow> (s1, None)
         | (s1, Some off) \<Rightarrow>
             (let src = phys_addr AND 0xFFFFFFFFFFFFF000;
                  dst = sd_storage (swap_devices s 0) + off * SWAP_PAGE_SIZE
              in (upd_mem (\<lambda>m. memcpy m dst src SWAP_PAGE_SIZE) s1,
                  Some \<lparr>se_offset = off, se_device_id = 0\<rparr>))))"

definition swap_in :: "swap \<Rightarrow> swap_entry \<Rightarrow> swap \<times> u64 option" where
  "swap_in s e =
     (if MAX_SWAP_DEVICES \<le> se_device_id e \<or> sd_active (swap_devices s (se_device_id e)) = 0 then (s, None)
      else
        (let dev = swap_devices s (se_device_id e) in
         if sd_size dev \<le> se_offset e then (s, None)
         else
           (let (p', new_page) = pmm_alloc_page (pm (sw_vm s));
                s1 = s\<lparr>sw_vm := (sw_vm s)\<lparr>pm := p'\<rparr>\<rparr>
            in if new_page = 0 then (s1, None)
               else
                 (let src = sd_storage dev + se_offset e * SWAP_PAGE_SIZE;
                      s2 = upd_mem (\<lambda>m. memcpy m new_page src SWAP_PAGE_SIZE) s1;
                      s3 = upd_mem (\<lambda>m. m(sd_bitmap dev + se_offset e := 0)) s2
                  in (s3, Some new_page)))))"

definition handle_swap_fault :: "swap \<Rightarrow> u64 \<Rightarrow> swap \<times> int" where
  "handle_swap_fault s vaddr =
     (let pte = vmm_get_pte (sw_vm s) vaddr in
      if pte AND PTE_PRESENT \<noteq> 0 \<or> pte AND PTE_SWAPPED = 0 then (s, - 1)
      else
        (case swap_in s \<lparr>se_offset = drop_bit 12 pte, se_device_id = ucast (drop_bit 1 pte AND 0xFF)\<rparr> of
           (s1, None) \<Rightarrow> (s1, - 1)
         | (s1, Some phys_addr) \<Rightarrow>
             (s1\<lparr>sw_vm := vmm_map_page (sw_vm s1) vaddr phys_addr (PTE_PRESENT OR PTE_WRITABLE OR PTE_USER)\<rparr>, 0)))"

definition dma_alloc_coherent :: "pmm \<Rightarrow> u64 \<Rightarrow> (pmm \<times> u64) option" where
  "dma_alloc_coherent p sz = pmm_alloc_pages p (PAGE_ALIGN sz div PAGE_SIZE)"

definition dma_free_coherent :: "pmm \<Rightarrow> u64 \<Rightarrow> u64 \<Rightarrow> pmm" where
  "dma_free_coherent p sz vaddr = pmm_free_pages p vaddr (PAGE_ALIGN sz div PAGE_SIZE)"

definition dma_map_single :: "u64 \<Rightarrow> u64" where
  "dma_map_single ptr = ptr"

section \<open>Slots\<close>

definition page_contents :: "bytes \<Rightarrow> u64 \<Rightarrow> u64 \<Rightarrow> u8" where
  "page_contents m p = (\<lambda>k. if k < 4096 then m (p + k) else 0)"

definition swap_slots :: "swap \<Rightarrow> u64 \<Rightarrow> (u64 \<Rightarrow> u8) option" where
  "swap_slots s i =
     (let d = swap_devices s 0 in
      if i < 1024 \<and> sw_mem s (sd_bitmap d + i) \<noteq> 0
      then Some (page_contents (sw_mem s) (sd_storage d + i * SWAP_PAGE_SIZE)) else None)"

text \<open>Device 0 is set up; storage and bitmap lie above the managed frames and do not overlap.\<close>

definition swap_ok :: "swap \<Rightarrow> bool" where
  "swap_ok s \<longleftrightarrow>
     (let d = swap_devices s 0; st = unat (sd_storage d); bm = unat (sd_bitmap d) in
      sd_active d = 1 \<and> sd_size d = 1024 \<and> vmm_ok (sw_vm s) \<and>
      2 ^ 32 \<le> st \<and> 2 ^ 32 \<le> bm \<and> st + 1024 * 4096 \<le> 2 ^ 63 \<and> bm + 1024 \<le> 2 ^ 63 \<and>
      (st + 1024 * 4096 \<le> bm \<or> bm + 1024 \<le> st))"

definition managed_page :: "swap \<Rightarrow> u64 \<Rightarrow> bool" where
  "managed_page s p \<longleftrightarrow> page_aligned p \<and> p div PAGE_SIZE < total_pages (pm (sw_vm s))"

lemma slot_less:
  fixes i k :: u64
  assumes "i < 1024" and "k < 4096"
  shows "unat (i * SWAP_PAGE_SIZE) = 4096 * unat i" and "unat i < 1024" and "unat k < 4096"
  using assms by (auto simp: SWAP_PAGE_SIZE_def word_less_nat_alt unat_mult_no_wrap)

lemma slot_addr:
  assumes "swap_ok s" and "i < 1024" and "k < 4096"
  shows "unat (sd_storage (swap_devices s 0) + i * SWAP_PAGE_SIZE + k) =
           unat (sd_storage (swap_devices s 0)) + 4096 * unat i + unat k"
proof -
  note L = slot_less [OF assms(2,3)]
  have st: "unat (sd_storage (swap_devices s 0)) + 1024 * 4096 \<le> 2 ^ 63" using assms(1) by (simp add: swap_ok_def Let_def)
  then have 1: "unat (sd_storage (swap_devices s 0) + i * SWAP_PAGE_SIZE) = unat (sd_storage (swap_devices s 0)) + 4096 * unat i"
    using L by (subst unat_add_no_wrap) simp_all
  show ?thesis using 1 st L by (subst unat_add_no_wrap) simp_all
qed

lemma bitmap_addr:
  assumes "swap_ok s" and "i < 1024"
  shows "unat (sd_bitmap (swap_devices s 0) + i) = unat (sd_bitmap (swap_devices s 0)) + unat i"
proof -
  have "unat (sd_bitmap (swap_devices s 0)) + 1024 \<le> 2 ^ 63" using assms(1) by (simp add: swap_ok_def Let_def)
  then show ?thesis using assms(2) by (subst unat_add_no_wrap) (simp_all add: word_less_nat_alt)
qed

lemma page_addr:
  assumes "swap_ok s" and "managed_page s p" and "k < 4096"
  shows "unat (p + k) = unat p + unat k" and "unat p + unat k < 2 ^ 32"
proof -
  show u: "unat (p + k) = unat p + unat k" using page_offset(1) assms by (simp add: managed_page_def)
  have ok: "pmm_ok (pm (sw_vm s))" using assms(1) by (simp add: swap_ok_def Let_def vmm_ok_def)
  have "(p + k) div PAGE_SIZE < total_pages (pm (sw_vm s))"
    using page_offset(2) assms(2,3) by (simp add: managed_page_def)
  from frame_unat [OF ok this] u show "unat p + unat k < 2 ^ 32" by simp
qed

lemma in_region:
  fixes b n x :: u64
  assumes "unat b + unat n \<le> 2 ^ 64"
  shows "x - b < n \<longleftrightarrow> unat b \<le> unat x \<and> unat x < unat b + unat n"
  using assms unsigned_less [of x] by (auto simp: word_less_nat_alt unat_sub_if')

lemma copy_page:
  assumes "unat d + 4096 \<le> 2 ^ 63" and "unat s + 4096 \<le> 2 ^ 63" and "unat d + 4096 \<le> unat s \<or> unat s + 4096 \<le> unat d"
  shows "memcpy m d s SWAP_PAGE_SIZE =
           (\<lambda>a. if unat d \<le> unat a \<and> unat a < unat d + 4096 then m (s + (a - d)) else m a)"
proof -
  have "SWAP_PAGE_SIZE \<le> d - s" using assms by (auto simp: SWAP_PAGE_SIZE_def word_le_nat_alt unat_sub_if')
  moreover have "a - d < SWAP_PAGE_SIZE \<longleftrightarrow> unat d \<le> unat a \<and> unat a < unat d + 4096" for a
    using in_region [of d SWAP_PAGE_SIZE a] assms(1) by (simp add: SWAP_PAGE_SIZE_def)
  ultimately show ?thesis by (simp add: memcpy_eq region_copy_def)
qed

text \<open>Changing memory above the managed frames.\<close>

lemma swap_ok_mem:
  assumes ok: "swap_ok s" and m: "\<And>a. unat a < 2 ^ 32 \<Longrightarrow> f (sw_mem s) a = sw_mem s a"
  shows "swap_ok (upd_mem f s)" and "hw_translate (sw_vm (upd_mem f s)) v = hw_translate (sw_vm s) v"
    and "path_clear (sw_vm s) v \<Longrightarrow> path_clear (sw_vm (upd_mem f s)) v \<and> vmm_get_pte (sw_vm (upd_mem f s)) v = vmm_get_pte (sw_vm s) v"
proof -
  have vok: "vmm_ok (sw_vm s)" using ok by (simp add: swap_ok_def Let_def)
  have pok: "pmm_ok (pm (sw_vm s))" using vok by (simp add: vmm_ok_def)
  have a: "f (sw_mem s) a = sw_mem s a" if "is_table (sw_vm s) q u" "a div PAGE_SIZE = u div PAGE_SIZE" for q u a
    using frame_unat [OF pok] is_table_facts(2) [OF vok that(1)] that(2) by (intro m) metis
  let ?s' = "(sw_vm s)\<lparr>mem := f (sw_mem s)\<rparr>"
  have V: "current_pml4 ?s' = current_pml4 (sw_vm s)" "pmm_ok (pm ?s')" "total_pages (pm ?s') = total_pages (pm (sw_vm s))"
    "free_frames (pm ?s') \<subseteq> free_frames (pm (sw_vm s))" using pok by simp_all
  have m': "mem ?s' a = mem (sw_vm s) a" if "is_table (sw_vm s) q u" "a div PAGE_SIZE = u div PAGE_SIZE" for q u a
    using a [OF that] by simp
  have "path_clear ?s' v = path_clear (sw_vm s) v" "path_clear (sw_vm s) v \<Longrightarrow> vmm_get_pte ?s' v = vmm_get_pte (sw_vm s) v"
    by (rule agree_tables [OF vok V]; (assumption | erule (1) m'))+
  then show "path_clear (sw_vm s) v \<Longrightarrow> path_clear (sw_vm (upd_mem f s)) v \<and> vmm_get_pte (sw_vm (upd_mem f s)) v = vmm_get_pte (sw_vm s) v"
    by (simp add: upd_mem_def)
  have "vmm_ok ?s'" "hw_translate ?s' v = hw_translate (sw_vm s) v"
    by (rule agree_tables [OF vok V]; erule (1) m')+
  then show "swap_ok (upd_mem f s)" "hw_translate (sw_vm (upd_mem f s)) v = hw_translate (sw_vm s) v"
    using ok by (auto simp: swap_ok_def upd_mem_def Let_def)
qed

lemma swap_out_slot:
  assumes ok: "swap_ok s" and p: "managed_page s src" and i: "i < 1024"
  defines "d \<equiv> swap_devices s 0"
  defines "m \<equiv> memcpy ((sw_mem s)(sd_bitmap d + i := 1)) (sd_storage d + i * SWAP_PAGE_SIZE) src SWAP_PAGE_SIZE"
  shows "unat a < 2 ^ 32 \<Longrightarrow> m a = sw_mem s a"
    and "j < 1024 \<Longrightarrow> m (sd_bitmap d + j) = (if j = i then 1 else sw_mem s (sd_bitmap d + j))"
    and "j < 1024 \<Longrightarrow> page_contents m (sd_storage d + j * SWAP_PAGE_SIZE) =
           (if j = i then page_contents (sw_mem s) src else page_contents (sw_mem s) (sd_storage d + j * SWAP_PAGE_SIZE))"
proof -
  let ?st = "unat (sd_storage d)" and ?bm = "unat (sd_bitmap d)" and ?D = "sd_storage d + i * SWAP_PAGE_SIZE"
  have K: "2 ^ 32 \<le> ?st" "2 ^ 32 \<le> ?bm" "?st + 1024 * 4096 \<le> 2 ^ 63" "?bm + 1024 \<le> 2 ^ 63"
    "?st + 1024 * 4096 \<le> ?bm \<or> ?bm + 1024 \<le> ?st"
    using ok by (simp_all add: swap_ok_def Let_def d_def)
  have D: "unat ?D = ?st + 4096 * unat i" using slot_addr [OF ok i, of 0] by (simp add: d_def)
  have i': "unat i < 1024" using i by (simp add: word_less_nat_alt)
  have src: "unat src + 4096 \<le> 2 ^ 32" using page_addr(2) [OF ok p, of 4095] by simp
  have m: "m = (\<lambda>a. if unat ?D \<le> unat a \<and> unat a < unat ?D + 4096
      then ((sw_mem s)(sd_bitmap d + i := 1)) (src + (a - ?D)) else ((sw_mem s)(sd_bitmap d + i := 1)) a)"
    unfolding m_def by (rule copy_page) (use K D src i' in simp_all)
  have bm: "unat (sd_bitmap d + j) = ?bm + unat j" if "j < 1024" for j
    using bitmap_addr [OF ok that] by (simp add: d_def)
  show "m a = sw_mem s a" if "unat a < 2 ^ 32"
    using that K D bm [OF i] by (auto simp: m)
  show "m (sd_bitmap d + j) = (if j = i then 1 else sw_mem s (sd_bitmap d + j))" if j: "j < 1024"
    using K D bm [OF j] i' j by (auto simp: m word_less_nat_alt)
  show "page_contents m (sd_storage d + j * SWAP_PAGE_SIZE) =
      (if j = i then page_contents (sw_mem s) src else page_contents (sw_mem s) (sd_storage d + j * SWAP_PAGE_SIZE))"
    if j: "j < 1024"
  proof
    fix k
    show "page_contents m (sd_storage d + j * SWAP_PAGE_SIZE) k =
      (if j = i then page_contents (sw_mem s) src else page_contents (sw_mem s) (sd_storage d + j * SWAP_PAGE_SIZE)) k"
    proof (cases "k < 4096")
      case k: True
      let ?a = "sd_storage d + j * SWAP_PAGE_SIZE + k"
      have a: "unat ?a = ?st + 4096 * unat j + unat k" "unat k < 4096" "unat j < 1024"
        using slot_addr [OF ok j k] j k by (simp_all add: d_def word_less_nat_alt)
      have nb: "?a \<noteq> sd_bitmap d + i" using a bm [OF i] K i' by auto
      show ?thesis
      proof (cases "j = i")
        case True
        have "src + k \<noteq> sd_bitmap d + i"
          using page_addr [OF ok p k] bm [OF i] K by auto
        with True k a D show ?thesis by (simp add: m page_contents_def)
      next
        case False
        then have "unat j \<noteq> unat i" by (simp add: word_unat_eq_iff)
        then have "\<not> (unat ?D \<le> unat ?a \<and> unat ?a < unat ?D + 4096)" using a D by auto
        with False k nb show ?thesis by (auto simp: m page_contents_def)
      qed
    qed (simp add: page_contents_def)
  qed
qed

lemma swap_in_slot:
  assumes ok: "swap_ok s" and p: "managed_page s n" and i: "i < 1024"
  defines "d \<equiv> swap_devices s 0"
  defines "m \<equiv> (memcpy (sw_mem s) n (sd_storage d + i * SWAP_PAGE_SIZE) SWAP_PAGE_SIZE)(sd_bitmap d + i := 0)"
  shows "unat a < 2 ^ 32 \<Longrightarrow> a div PAGE_SIZE \<noteq> n div PAGE_SIZE \<Longrightarrow> m a = sw_mem s a"
    and "page_contents m n = page_contents (sw_mem s) (sd_storage d + i * SWAP_PAGE_SIZE)"
    and "j < 1024 \<Longrightarrow> m (sd_bitmap d + j) = (if j = i then 0 else sw_mem s (sd_bitmap d + j))"
    and "j < 1024 \<Longrightarrow> page_contents m (sd_storage d + j * SWAP_PAGE_SIZE) =
           page_contents (sw_mem s) (sd_storage d + j * SWAP_PAGE_SIZE)"
proof -
  let ?st = "unat (sd_storage d)" and ?bm = "unat (sd_bitmap d)" and ?S = "sd_storage d + i * SWAP_PAGE_SIZE"
  have K: "2 ^ 32 \<le> ?st" "2 ^ 32 \<le> ?bm" "?st + 1024 * 4096 \<le> 2 ^ 63" "?bm + 1024 \<le> 2 ^ 63"
    "?st + 1024 * 4096 \<le> ?bm \<or> ?bm + 1024 \<le> ?st"
    using ok by (simp_all add: swap_ok_def Let_def d_def)
  have S: "unat ?S = ?st + 4096 * unat i" using slot_addr [OF ok i, of 0] by (simp add: d_def)
  have i': "unat i < 1024" using i by (simp add: word_less_nat_alt)
  have n: "unat n + 4096 \<le> 2 ^ 32" using page_addr(2) [OF ok p, of 4095] by simp
  have m: "m = (\<lambda>a. if unat n \<le> unat a \<and> unat a < unat n + 4096
      then sw_mem s (?S + (a - n)) else sw_mem s a)(sd_bitmap d + i := 0)"
    unfolding m_def by (subst copy_page) (use K S n i' in simp_all)
  have bm: "unat (sd_bitmap d + j) = ?bm + unat j" if "j < 1024" for j
    using bitmap_addr [OF ok that] by (simp add: d_def)
  show "m a = sw_mem s a" if "unat a < 2 ^ 32" "a div PAGE_SIZE \<noteq> n div PAGE_SIZE"
  proof -
    have "\<not> (unat n \<le> unat a \<and> unat a < unat n + 4096)"
    proof
      assume "unat n \<le> unat a \<and> unat a < unat n + 4096"
      then have "a - n < 4096" using in_region [of n 4096 a] n by simp
      from page_offset(2) [of n, OF _ this] p that(2) show False by (simp add: managed_page_def)
    qed
    moreover have "a \<noteq> sd_bitmap d + i" using bm [OF i] K that(1) by auto
    ultimately show ?thesis by (auto simp: m)
  qed
  show "page_contents m n = page_contents (sw_mem s) ?S"
  proof
    fix k
    show "page_contents m n k = page_contents (sw_mem s) ?S k"
    proof (cases "k < 4096")
      case True
      note P = page_addr [OF ok p True]
      have "n + k \<noteq> sd_bitmap d + i" using P bm [OF i] K by auto
      with True P(1) show ?thesis by (simp add: m page_contents_def word_less_nat_alt)
    qed (simp add: page_contents_def)
  qed
  show "m (sd_bitmap d + j) = (if j = i then 0 else sw_mem s (sd_bitmap d + j))" if j: "j < 1024"
    using K n bm [OF j] by (auto simp: m)
  show "page_contents m (sd_storage d + j * SWAP_PAGE_SIZE) =
      page_contents (sw_mem s) (sd_storage d + j * SWAP_PAGE_SIZE)" if j: "j < 1024"
  proof
    fix k
    show "page_contents m (sd_storage d + j * SWAP_PAGE_SIZE) k =
      page_contents (sw_mem s) (sd_storage d + j * SWAP_PAGE_SIZE) k"
    proof (cases "k < 4096")
      case k: True
      let ?a = "sd_storage d + j * SWAP_PAGE_SIZE + k"
      have a: "unat ?a = ?st + 4096 * unat j + unat k" "unat k < 4096" "unat j < 1024"
        using slot_addr [OF ok j k] j k by (simp_all add: d_def word_less_nat_alt)
      then have "?a \<noteq> sd_bitmap d + i" "\<not> (unat n \<le> unat ?a \<and> unat ?a < unat n + 4096)"
        using bm [OF i] K i' n by auto
      then show ?thesis by (auto simp: m page_contents_def)
    qed (simp add: page_contents_def)
  qed
qed

section \<open>Main results\<close>

lemma swap_out_spec:
  assumes ok: "swap_ok s" and p: "managed_page s (phys AND 0xFFFFFFFFFFFFF000)"
  shows "case swap_out s phys of
      (s', None) \<Rightarrow> s' = s \<and> (\<forall>i < 1024. swap_slots s i \<noteq> None)
    | (s', Some e) \<Rightarrow>
        swap_ok s' \<and> se_device_id e = 0 \<and> se_offset e < 1024 \<and> swap_slots s (se_offset e) = None \<and>
        swap_slots s' = (swap_slots s)(se_offset e \<mapsto> page_contents (sw_mem s) (phys AND 0xFFFFFFFFFFFFF000)) \<and>
        (\<forall>a. unat a < 2 ^ 32 \<longrightarrow> sw_mem s' a = sw_mem s a) \<and> pm (sw_vm s') = pm (sw_vm s) \<and>
        (\<forall>v. hw_translate (sw_vm s') v = hw_translate (sw_vm s) v) \<and>
        (\<forall>v. path_clear (sw_vm s) v \<longrightarrow> path_clear (sw_vm s') v \<and> vmm_get_pte (sw_vm s') v = vmm_get_pte (sw_vm s) v)"
proof (cases "for_find (\<lambda>i. sw_mem s (sd_bitmap (swap_devices s 0) + i) = 0) 0 1024")
  case None
  then have "\<forall>i < 1024. swap_slots s i \<noteq> None" by (auto simp: for_find_None swap_slots_def Let_def)
  with None ok show ?thesis by (simp add: swap_out_def find_free_swap_slot_def swap_ok_def Let_def)
next
  case (Some i)
  let ?d = "swap_devices s 0" and ?src = "phys AND 0xFFFFFFFFFFFFF000"
  let ?f = "\<lambda>m. memcpy (m(sd_bitmap ?d + i := 1)) (sd_storage ?d + i * SWAP_PAGE_SIZE) ?src SWAP_PAGE_SIZE"
  from Some have i: "i < 1024" "sw_mem s (sd_bitmap ?d + i) = 0" by (simp_all add: for_find_Some)
  note S = swap_out_slot [OF ok p i(1)]
  have out: "swap_out s phys = (upd_mem ?f s, Some \<lparr>se_offset = i, se_device_id = 0\<rparr>)"
    using Some ok by (simp add: swap_out_def find_free_swap_slot_def swap_ok_def Let_def upd_mem_def)
  have "swap_slots (upd_mem ?f s) = (swap_slots s)(i \<mapsto> page_contents (sw_mem s) ?src)"
  proof
    fix j
    show "swap_slots (upd_mem ?f s) j = ((swap_slots s)(i \<mapsto> page_contents (sw_mem s) ?src)) j"
      using S(2,3) [of j] i by (cases "j = i"; cases "j < 1024") (simp_all add: swap_slots_def upd_mem_def Let_def)
  qed
  moreover have "swap_ok (upd_mem ?f s)" "hw_translate (sw_vm (upd_mem ?f s)) v = hw_translate (sw_vm s) v"
    "path_clear (sw_vm s) v \<Longrightarrow> path_clear (sw_vm (upd_mem ?f s)) v \<and> vmm_get_pte (sw_vm (upd_mem ?f s)) v = vmm_get_pte (sw_vm s) v" for v
    by (rule swap_ok_mem [OF ok]; (assumption | erule S(1)))+
  ultimately show ?thesis using out i S(1) by (simp add: upd_mem_def swap_slots_def Let_def)
qed

lemma swap_in_spec:
  assumes ok: "swap_ok s" and c: "swap_slots s i = Some c" and f: "free_frames (pm (sw_vm s)) \<noteq> {}"
  shows "\<exists>s' n. swap_in s \<lparr>se_offset = i, se_device_id = 0\<rparr> = (s', Some n) \<and> swap_ok s' \<and>
    managed_page s n \<and> n div PAGE_SIZE \<in> free_frames (pm (sw_vm s)) \<and>
    free_frames (pm (sw_vm s')) = free_frames (pm (sw_vm s)) - {n div PAGE_SIZE} \<and>
    total_pages (pm (sw_vm s')) = total_pages (pm (sw_vm s)) \<and>
    page_contents (sw_mem s') n = c \<and> swap_slots s' = (swap_slots s)(i := None) \<and>
    (\<forall>a. unat a < 2 ^ 32 \<longrightarrow> a div PAGE_SIZE \<noteq> n div PAGE_SIZE \<longrightarrow> sw_mem s' a = sw_mem s a) \<and>
    (\<forall>v. hw_translate (sw_vm s') v = hw_translate (sw_vm s) v) \<and>
    (\<forall>v. path_clear (sw_vm s') v = path_clear (sw_vm s) v) \<and>
    (\<forall>q u. is_table (sw_vm s') q u = is_table (sw_vm s) q u)"
proof -
  let ?d = "swap_devices s 0" and ?v = "sw_vm s"
  have vok: "vmm_ok ?v" and pok: "pmm_ok (pm ?v)" using ok by (simp_all add: swap_ok_def Let_def vmm_ok_def)
  obtain p' n where al: "pmm_alloc_page (pm ?v) = (p', n)" by fastforce
  have n0: "n \<noteq> 0" using pmm_alloc_page_None [OF pok, of p'] al f by auto
  note A = pmm_alloc_page_Some [OF pok al n0]
  have n: "managed_page s n" using A(1,2) by (simp add: managed_page_def page_aligned_def free_frames_def)
  have i: "i < 1024" and ci: "c = page_contents (sw_mem s) (sd_storage ?d + i * SWAP_PAGE_SIZE)"
    using c by (auto simp: swap_slots_def Let_def split: if_splits)
  note S = swap_in_slot [OF ok n i]
  let ?m = "(memcpy (sw_mem s) n (sd_storage ?d + i * SWAP_PAGE_SIZE) SWAP_PAGE_SIZE)(sd_bitmap ?d + i := 0)"
  let ?v' = "?v\<lparr>pm := p', mem := ?m\<rparr>" let ?s' = "s\<lparr>sw_vm := ?v'\<rparr>"
  have out: "swap_in s \<lparr>se_offset = i, se_device_id = 0\<rparr> = (?s', Some n)"
    using ok i al n0 by (simp add: swap_in_def swap_ok_def Let_def MAX_SWAP_DEVICES_def upd_mem_def not_le)
  have ag: "mem ?v' a = mem ?v a" if "is_table ?v q u" "a div PAGE_SIZE = u div PAGE_SIZE" for q u a
  proof -
    have "unat a < 2 ^ 32" using frame_unat [OF pok] is_table_facts(2) [OF vok that(1)] that(2) by metis
    moreover have "a div PAGE_SIZE \<noteq> n div PAGE_SIZE" using is_table_facts(3) [OF vok that(1)] that(2) A(1) by metis
    ultimately show ?thesis using S(1) by simp
  qed
  have V: "current_pml4 ?v' = current_pml4 ?v" "pmm_ok (pm ?v')" "total_pages (pm ?v') = total_pages (pm ?v)"
    "free_frames (pm ?v') \<subseteq> free_frames (pm ?v)" using A(3-5) by auto
  have T: "vmm_ok ?v'" "hw_translate ?v' v = hw_translate ?v v" "path_clear ?v' v = path_clear ?v v"
    "is_table ?v' q u = is_table ?v q u" for v q u
    by (rule agree_tables [OF vok V]; erule (1) ag)+
  have "swap_ok ?s'" using ok T(1) by (simp add: swap_ok_def Let_def)
  moreover have "page_contents (sw_mem ?s') n = c" using S(2) ci by simp
  moreover have "swap_slots ?s' = (swap_slots s)(i := None)"
  proof
    fix j show "swap_slots ?s' j = ((swap_slots s)(i := None)) j"
      using S(3,4) [of j] by (cases "j = i"; cases "j < 1024") (simp_all add: swap_slots_def Let_def)
  qed
  moreover have "sw_mem ?s' a = sw_mem s a" if "unat a < 2 ^ 32" "a div PAGE_SIZE \<noteq> n div PAGE_SIZE" for a
    using S(1) [OF that] by simp
  moreover have "hw_translate (sw_vm ?s') v = hw_translate ?v v" "path_clear (sw_vm ?s') v = path_clear ?v v"
    "is_table (sw_vm ?s') q u = is_table ?v q u" for v q u using T(2) [of v] T(3) [of v] T(4) [of q u] by simp_all
  ultimately show ?thesis using out n A(1,3,5)
    by (intro exI [of _ ?s'] exI [of _ n] conjI allI impI) (simp_all del: fun_upd_apply)
qed

text \<open>
  What may happen while a page is swapped out: other pages are swapped out and in, and programs write to
  frames that are not page tables.
\<close>

inductive swap_step :: "u64 \<Rightarrow> swap \<Rightarrow> swap \<Rightarrow> bool" for i where
  out: "managed_page s (phys AND 0xFFFFFFFFFFFFF000) \<Longrightarrow> swap_out s phys = (s', r) \<Longrightarrow> swap_step i s s'"
| inn: "swap_slots s j \<noteq> None \<Longrightarrow> j \<noteq> i \<Longrightarrow>
    swap_in s \<lparr>se_offset = j, se_device_id = 0\<rparr> = (s', r) \<Longrightarrow> swap_step i s s'"
| store: "managed_page s p \<Longrightarrow> (\<And>q u. is_table (sw_vm s) q u \<Longrightarrow> u \<noteq> p) \<Longrightarrow> k < 4096 \<Longrightarrow>
    swap_step i s (upd_mem (\<lambda>m. m(p + k := b)) s)"

lemma swap_write:
  assumes ok: "swap_ok s" and p: "managed_page s p" and nt: "\<And>q u. is_table (sw_vm s) q u \<Longrightarrow> u \<noteq> p"
    and k: "k < 4096"
  shows "swap_ok (upd_mem (\<lambda>m. m(p + k := b)) s)" and "swap_slots (upd_mem (\<lambda>m. m(p + k := b)) s) = swap_slots s"
proof -
  let ?v = "sw_vm s" and ?v' = "(sw_vm s)\<lparr>mem := (sw_mem s)(p + k := b)\<rparr>"
  have vok: "vmm_ok ?v" using ok by (simp add: swap_ok_def Let_def)
  have pk: "(p + k) div PAGE_SIZE = p div PAGE_SIZE" "page_aligned p" using p page_offset(2) k by (auto simp: managed_page_def)
  have "mem ?v' a = mem ?v a" if "is_table ?v q u" "a div PAGE_SIZE = u div PAGE_SIZE" for q u a
  proof -
    have "u \<noteq> p" "page_aligned u" using nt is_table_facts(1) [OF vok] that(1) by auto
    then have "u div PAGE_SIZE \<noteq> p div PAGE_SIZE" using pk(2) by (metis page_aligned_def word_div_mod_eqI)
    with that(2) pk(1) show ?thesis by auto
  qed
  then have "vmm_ok ?v'" by (intro agree_tables(2) [OF vok]) (use vok in \<open>auto simp: vmm_ok_def\<close>)
  then show "swap_ok (upd_mem (\<lambda>m. m(p + k := b)) s)" using ok by (simp add: swap_ok_def upd_mem_def Let_def)
  note P = page_addr [OF ok p k]
  have K: "2 ^ 32 \<le> unat (sd_storage (swap_devices s 0))" "2 ^ 32 \<le> unat (sd_bitmap (swap_devices s 0))"
    using ok by (simp_all add: swap_ok_def Let_def)
  have "sd_bitmap (swap_devices s 0) + j \<noteq> p + k" if "j < 1024" for j
    using bitmap_addr [OF ok that] K P by auto
  moreover have "page_contents ((sw_mem s)(p + k := b)) (sd_storage (swap_devices s 0) + j * SWAP_PAGE_SIZE) =
      page_contents (sw_mem s) (sd_storage (swap_devices s 0) + j * SWAP_PAGE_SIZE)" if "j < 1024" for j
  proof
    fix l show "page_contents ((sw_mem s)(p + k := b)) (sd_storage (swap_devices s 0) + j * SWAP_PAGE_SIZE) l =
      page_contents (sw_mem s) (sd_storage (swap_devices s 0) + j * SWAP_PAGE_SIZE) l"
    proof (cases "l < 4096")
      case True
      then have "sd_storage (swap_devices s 0) + j * SWAP_PAGE_SIZE + l \<noteq> p + k"
        using slot_addr [OF ok that True] K P by auto
      then show ?thesis by (simp add: page_contents_def)
    qed (simp add: page_contents_def)
  qed
  ultimately show "swap_slots (upd_mem (\<lambda>m. m(p + k := b)) s) = swap_slots s"
    by (intro ext) (auto simp: swap_slots_def upd_mem_def Let_def)
qed

lemma swap_step_keeps:
  assumes "swap_step i s s'" and "swap_ok s" and "swap_slots s i = Some c"
  shows "swap_ok s' \<and> swap_slots s' i = Some c"
  using assms
proof (cases rule: swap_step.cases)
  case (out phys r)
  then show ?thesis using swap_out_spec [OF assms(2) out(1)] assms(2,3) by (auto split: option.splits)
next
  case (inn j r)
  show ?thesis
  proof (cases "free_frames (pm (sw_vm s)) = {}")
    case True
    obtain p' n where al: "pmm_alloc_page (pm (sw_vm s)) = (p', n)" by fastforce
    have pok: "pmm_ok (pm (sw_vm s))" using assms(2) by (simp add: swap_ok_def vmm_ok_def Let_def)
    have "n = 0" using pmm_alloc_page_Some(1) [OF pok al] True by auto
    moreover from this have "p' = pm (sw_vm s)" using pmm_alloc_page_None [OF pok] al by auto
    ultimately have "s' = s" using inn(3) al by (auto simp: swap_in_def Let_def split: if_splits)
    then show ?thesis using assms by simp
  next
    case False
    obtain d where "swap_slots s j = Some d" using inn(1) by auto
    from swap_in_spec [OF assms(2) this False] inn assms(3) show ?thesis by auto
  qed
next
  case (store p k b)
  then show ?thesis using swap_write [OF assms(2), of p k b] assms(3) by auto
qed


text \<open>
  C20. A fault on a swapped-out page is repaired: when the page table entry of the address names an occupied
  slot, \<open>handle_swap_fault\<close> succeeds, the address then translates to a frame holding the contents of the
  slot, every other page translates as before and the slot is free.
\<close>
theorem handle_swap_fault_restores:
  assumes "swap_ok s" and "path_clear (sw_vm s) v" and "4 \<le> card (free_frames (pm (sw_vm s)))"
    and "pte = vmm_get_pte (sw_vm s) v" and "pte AND PTE_PRESENT = 0" and "pte AND PTE_SWAPPED \<noteq> 0"
    and "drop_bit 1 pte AND 0xFF = 0" and "swap_slots s (drop_bit 12 pte) = Some c"
  shows "\<exists>s' n. handle_swap_fault s v = (s', 0) \<and> hw_translate (sw_vm s') v = Some (n OR (v AND 0xFFF)) \<and>
           page_contents (sw_mem s') n = c \<and> swap_slots s' (drop_bit 12 pte) = None \<and>
           (\<forall>w. page_number w \<noteq> page_number v \<longrightarrow> hw_translate (sw_vm s') w = hw_translate (sw_vm s) w)"
proof -
  let ?i = "drop_bit 12 pte" and ?fl = "PTE_PRESENT OR PTE_WRITABLE OR PTE_USER"
  have "free_frames (pm (sw_vm s)) \<noteq> {}" using assms(3) by auto
  from swap_in_spec [OF assms(1,8) this] obtain s1 n where
    i: "swap_in s \<lparr>se_offset = ?i, se_device_id = 0\<rparr> = (s1, Some n)" and ok1: "swap_ok s1"
    and n: "managed_page s n" "n div PAGE_SIZE \<in> free_frames (pm (sw_vm s))"
    and f1: "free_frames (pm (sw_vm s1)) = free_frames (pm (sw_vm s)) - {n div PAGE_SIZE}"
    and t1: "total_pages (pm (sw_vm s1)) = total_pages (pm (sw_vm s))"
    and c1: "page_contents (sw_mem s1) n = c" "swap_slots s1 = (swap_slots s)(?i := None)"
    and h1: "\<And>w. hw_translate (sw_vm s1) w = hw_translate (sw_vm s) w" "path_clear (sw_vm s1) v"
    and is1: "\<And>q u. is_table (sw_vm s1) q u = is_table (sw_vm s) q u"
    using assms(2) by auto
  have vok: "vmm_ok (sw_vm s)" "vmm_ok (sw_vm s1)" using assms(1) ok1 by (simp_all add: swap_ok_def Let_def)
  then have pok: "pmm_ok (pm (sw_vm s))" by (simp add: vmm_ok_def)
  have ff: "3 \<le> card (free_frames (pm (sw_vm s1)))" using assms(3) n(2) by (simp add: f1 card_Diff_singleton)
  have na: "n AND PTE_FRAME = n"
    using frame_masked frame_unat [OF pok] n(1) by (simp add: managed_page_def)
  have fl: "?fl AND PTE_FRAME = 0" "?fl AND PTE_PRESENT \<noteq> 0"
    by (simp_all add: PTE_PRESENT_def PTE_WRITABLE_def PTE_USER_def PTE_FRAME_def)
  let ?v2 = "vmm_map_page (sw_vm s1) v n ?fl"
  note M = vmm_map_page_spec [OF vok(2) h1(2) ff na fl]
  have nt: "u div PAGE_SIZE \<noteq> n div PAGE_SIZE" if "is_table ?v2 q u" for q u
  proof -
    have "is_table (sw_vm s) q u \<Longrightarrow> u div PAGE_SIZE \<notin> free_frames (pm (sw_vm s))"
      by (rule is_table_facts(3) [OF vok(1)])
    moreover have "is_table (sw_vm s) q u \<or> u div PAGE_SIZE \<in> free_frames (pm (sw_vm s)) - {n div PAGE_SIZE}"
      using M(11) [OF that] unfolding is1 f1 .
    ultimately show ?thesis using n(2) by (metis DiffD2 singletonI)
  qed
  have "page_contents (mem ?v2) n = c"
  proof
    fix k show "page_contents (mem ?v2) n k = c k"
    proof (cases "k < 4096")
      case True
      have "(n + k) div PAGE_SIZE = n div PAGE_SIZE" using page_offset(2) [of n k] True n(1) by (simp add: managed_page_def)
      then have "mem ?v2 (n + k) = sw_mem s1 (n + k)" by (intro M(12)) (use nt in metis)
      then show ?thesis using c1(1) True by (auto simp: page_contents_def)
    qed (use c1(1) in \<open>auto simp: page_contents_def\<close>)
  qed
  moreover have "mem ?v2 (sd_bitmap (swap_devices s1 0) + ?i) = sw_mem s1 (sd_bitmap (swap_devices s1 0) + ?i)" if "?i < 1024"
  proof (rule M(12))
    fix q u assume u: "is_table ?v2 q u"
    have "u div PAGE_SIZE < total_pages (pm ?v2)" by (rule is_table_facts(2) [OF M(1) u])
    moreover have "pmm_ok (pm ?v2)" using M(1) by (simp add: vmm_ok_def)
    moreover have "2 ^ 32 \<le> unat (sd_bitmap (swap_devices s1 0) + ?i)"
      using bitmap_addr [OF ok1 that] ok1 by (simp add: swap_ok_def Let_def)
    ultimately show "u div PAGE_SIZE \<noteq> (sd_bitmap (swap_devices s1 0) + ?i) div PAGE_SIZE"
      using frame_unat [of "pm ?v2"] by (metis not_le)
  qed
  moreover have "swap_slots s1 ?i = None" by (simp add: c1(2))
  ultimately have "swap_slots (s1\<lparr>sw_vm := ?v2\<rparr>) ?i = None" "page_contents (mem ?v2) n = c"
    by (auto simp: swap_slots_def Let_def split: if_splits)
  moreover have "handle_swap_fault s v = (s1\<lparr>sw_vm := ?v2\<rparr>, 0)"
    using i assms(4-7) by (simp add: handle_swap_fault_def Let_def)
  ultimately show ?thesis using M(2) [OF refl] M(3) h1(1)
    by (intro exI [of _ "s1\<lparr>sw_vm := ?v2\<rparr>"] exI [of _ n]) simp
qed

text \<open>The device that \<open>swap_init\<close> sets up from a kernel heap above the managed frames.\<close>

lemma swap_init_ok:
  assumes "swap_init s = Some s'" and "sd_storage (swap_devices s' 0) \<noteq> 0" and "sd_bitmap (swap_devices s' 0) \<noteq> 0"
    and "heap_rep (sw_heap s) base cs" and "2 ^ 32 \<le> base" and "base + cell_total cs \<le> 2 ^ 63" and "vmm_ok (sw_vm s)"
  shows "swap_ok s' \<and> swap_slots s' = Map.empty"
proof -
  let ?d = "swap_devices s' 0"
  obtain h1 st h2 bm where k: "kmalloc 0x400000 (sw_heap s) = Some (h1, st)" "kmalloc 1024 h1 = Some (h2, bm)"
    and d: "sd_storage ?d = st" "sd_bitmap ?d = bm" "sd_active ?d = 1" "sd_size ?d = 1024"
    using assms(1) by (auto simp: swap_init_def SWAP_PAGE_SIZE_def Let_def upd_mem_def split: option.splits if_splits)
  have nz: "st \<noteq> 0" "bm \<noteq> 0" using assms(2,3) d by auto
  have ok: "heap_ok (sw_heap s)" using assms(4) by (auto simp: heap_ok_def)
  from kmalloc_new [OF ok k(1) nz(1)] obtain a n where a: "st = of_nat a" "aligned 0x400000 \<le> n" "heap_ok h1"
    "(a, n) \<in> heap_blocks h1" "heap_arena h1 = heap_arena (sw_heap s)" by auto
  from kmalloc_new [OF a(3) k(2) nz(2)] obtain b l where b: "bm = of_nat b" "aligned 1024 \<le> l" "heap_ok h2"
    "(b, l) \<in> heap_blocks h2" "(b, l) \<notin> heap_blocks h1" "(a, n) \<in> heap_blocks h2" "heap_arena h2 = heap_arena (sw_heap s)"
    using a(4,5) by auto
  have len: "4194304 \<le> n" "1024 \<le> l" using a(2) b(2) by (simp_all add: aligned_eq)
  have "(a, n) \<noteq> (b, l)" using a(4) b(5) by auto
  from heap_disjoint [OF b(3,6,4) this] len have dis: "a + 4194304 \<le> b \<or> b + 1024 \<le> a"
  proof -
    have "a \<notin> {b..<b + l} \<and> b \<notin> {a..<a + n}"
      using \<open>{fst (a, n)..<fst (a, n) + snd (a, n)} \<inter> {fst (b, l)..<fst (b, l) + snd (b, l)} = {}\<close> len by auto
    then show ?thesis using len by auto
  qed
  have range: "2 ^ 32 \<le> x" "x + y \<le> 2 ^ 63" if "(x, y) \<in> heap_blocks h2" for x y
  proof -
    obtain base' cs' where r: "heap_rep h2 base' cs'" using b(3) by (auto simp: heap_ok_def)
    then have "base' = base" "cell_total cs' = cell_total cs"
      using b(7) heap_arena_rep [OF r] heap_arena_rep [OF assms(4)] by auto
    moreover have "(x, y) \<in> used_cells base' cs'" using that heap_blocks_rep [OF r] by simp
    ultimately show "2 ^ 32 \<le> x" "x + y \<le> 2 ^ 63" using used_cells_range [of x y base' cs'] assms(5,6) by auto
  qed
  have u: "unat st = a" "unat bm = b" using range [OF b(6)] range [OF b(4)] a(1) b(1) by (simp_all add: unat_of_nat_small)
  have s': "s' = upd_mem (\<lambda>m. memset m bm 0 1024) (s\<lparr>sw_heap := h2, swap_devices := (swap_devices s)(0 :=
      \<lparr>sd_id = 0, sd_active = 1, sd_storage = st, sd_size = 1024, sd_bitmap = bm\<rparr>)\<rparr>)" (is "_ = upd_mem _ ?s1")
    using assms(1) k nz by (auto simp: swap_init_def SWAP_PAGE_SIZE_def Let_def)
  have "swap_ok ?s1"
    using assms(7) dis len u range [OF b(6)] range [OF b(4)] by (auto simp: swap_ok_def Let_def)
  have ms: "memset m bm 0 1024 = (\<lambda>a. if unat bm \<le> unat a \<and> unat a < unat bm + 1024 then 0 else m a)" for m
    using in_region [of bm 1024] u range [OF b(4)] len by (simp add: memset_eq region_set_def)
  have "swap_ok s'" unfolding s'
    by (rule swap_ok_mem(1) [OF \<open>swap_ok ?s1\<close>]) (use range [OF b(4)] u in \<open>auto simp: ms\<close>)
  moreover have "swap_slots s' i = None" for i
    using bitmap_addr [OF \<open>swap_ok s'\<close>, of i] u
    by (auto simp: swap_slots_def s' upd_mem_def Let_def ms word_less_nat_alt)
  ultimately show ?thesis by auto
qed

section \<open>Witnesses\<close>

definition demo_swap :: "vmm \<Rightarrow> swap" where
  "demo_swap v = \<lparr>sw_vm = v, sw_heap = demo_heap, swap_devices = (\<lambda>_.
     \<lparr>sd_id = 0, sd_active = 1, sd_storage = 0x200000000, sd_size = 1024, sd_bitmap = 0x400000000\<rparr>)\<rparr>"

lemma demo_swap_ok: "vmm_ok v \<Longrightarrow> swap_ok (demo_swap v)"
  by (simp add: swap_ok_def demo_swap_def Let_def)

lemma demo_swap_managed: "7 < total_pages (pm v) \<Longrightarrow> managed_page (demo_swap v) (0x7000 AND 0xFFFFFFFFFFFFF000)"
  by (simp add: managed_page_def demo_swap_def page_aligned_def PAGE_SIZE_def)

lemma demo_swap_out:
  assumes "vmm_ok v" and "7 < total_pages (pm v)" and "mem v 0x400000000 = 0"
  shows "\<exists>s1. swap_out (demo_swap v) 0x7000 = (s1, Some \<lparr>se_offset = 0, se_device_id = 0\<rparr>) \<and> swap_ok s1 \<and>
    swap_slots s1 0 = Some (page_contents (mem v) 0x7000) \<and> pm (sw_vm s1) = pm v \<and>
    (\<forall>w. path_clear v w \<longrightarrow> path_clear (sw_vm s1) w \<and> vmm_get_pte (sw_vm s1) w = vmm_get_pte v w)"
proof -
  obtain s1 where o: "swap_out (demo_swap v) 0x7000 = (s1, Some \<lparr>se_offset = 0, se_device_id = 0\<rparr>)"
    using assms(3) by (simp add: swap_out_def find_free_swap_slot_def demo_swap_def for_find.simps [of _ 0])
  show ?thesis
    using swap_out_spec [OF demo_swap_ok [OF assms(1)] demo_swap_managed [OF assms(2)], unfolded o] o
    by (simp add: demo_swap_def)
qed


text \<open>A larger machine, with a page table entry at \<^verbatim>\<open>0x400000\<close> that names slot 0.\<close>

definition demo_pmm16 :: pmm where
  "demo_pmm16 = demo_pmm\<lparr>total_pages := 16, bitmap_size := 2, highest_addr := 0x10000, free_memory := 0xC000\<rparr>"

definition demo_swapped :: vmm where
  "demo_swapped = vmm_map_page (zero_vmm demo_pmm16) 0x400000 0 0x200"

lemma demo_pmm16_free: "card (free_frames demo_pmm16) = 12"
  unfolding card_free_frames by code_simp

lemma demo_zero_ok: "vmm_ok (zero_vmm demo_pmm16)"
proof (rule zero_vmm_ok)
  show "pmm_ok demo_pmm16"
    using demo_pmm16_free by (simp add: pmm_ok_def demo_pmm16_def demo_pmm_def pmm_test_bit_alt)
qed (simp_all add: demo_pmm16_def demo_pmm_def free_frames_def pmm_test_bit_alt bit_numeral_rec)

lemma demo_swapped_facts:
  "vmm_ok demo_swapped" "path_clear demo_swapped 0x400000" "vmm_get_pte demo_swapped 0x400000 = 0x200"
  "total_pages (pm demo_swapped) = 16" "9 \<le> card (free_frames (pm demo_swapped))" "mem demo_swapped 0x400000000 = 0"
proof -
  let ?v = "0x400000 :: u64" and ?a = "0x400000000 :: u64"
  have "3 \<le> card (free_frames (pm (zero_vmm demo_pmm16)))" by (simp add: demo_pmm16_free)
  from vmm_map_page_tables [OF demo_zero_ok zero_vmm_path_clear this, of ?v 0 "0x200"] obtain s3 pt
    where x: "extends 3 (zero_vmm demo_pmm16) s3" and pt: "is_table s3 (indices ?v) pt"
      and e: "demo_swapped = s3\<lparr>mem := set_entry (mem s3) pt (pt_index ?v) 0x200\<rparr>"
    by (auto simp: demo_swapped_def)
  have ok3: "vmm_ok s3" "path_clear s3 ?v" using x zero_vmm_path_clear by (simp_all add: extends_def)
  have l: "length (indices ?v) = 3" by (simp add: indices_def)
  note F = set_leaf [OF ok3(1) pt l index_less(4), where e = "0x200"]
  show "vmm_ok demo_swapped" unfolding e by (rule F(2))
  show c: "path_clear demo_swapped ?v" unfolding e by (rule path_clear_leaf [OF ok3(1) pt l index_less(4) ok3(2)])
  have pt': "is_table demo_swapped (indices ?v) pt" unfolding e F(1) by (rule pt)
  then have "vmm_pt demo_swapped ?v = Some pt" unfolding vmm_pt_eq [OF c] tpath_is_table .
  moreover have "entry (mem demo_swapped) pt (pt_index ?v) = 0x200" by (simp add: e)
  ultimately show "vmm_get_pte demo_swapped ?v = 0x200" by (simp add: vmm_get_pte_def)
  show t: "total_pages (pm demo_swapped) = 16" "9 \<le> card (free_frames (pm demo_swapped))"
    using x demo_pmm16_free by (simp_all add: e extends_def demo_pmm16_def)
  have nt: "u div PAGE_SIZE \<noteq> ?a div PAGE_SIZE" if "is_table s3 q u" for q u
  proof -
    have "u div PAGE_SIZE < 16" using is_table_facts(2) [OF ok3(1) that] t(1) by (simp add: e)
    then show ?thesis by (auto simp: PAGE_SIZE_def)
  qed
  have "mem s3 ?a = 0" using x nt unfolding extends_def by auto
  then show "mem demo_swapped ?a = 0"
    using set_entry_outside [OF is_table_facts(1) [OF ok3(1) pt] index_less(4), of ?a] nt [OF pt] by (simp add: e)
qed

theorem handle_swap_fault_restores_witness:
  "\<exists>s1 e s' n. swap_out (demo_swap demo_swapped) 0x7000 = (s1, Some e) \<and> handle_swap_fault s1 0x400000 = (s', 0) \<and>
     hw_translate (sw_vm s') 0x400000 = Some n \<and> page_contents (sw_mem s') n = page_contents (mem demo_swapped) 0x7000"
proof -
  note D = demo_swapped_facts
  have "7 < total_pages (pm demo_swapped)" by (simp add: D(4))
  from demo_swap_out [OF D(1) this D(6)] obtain s1 where
    o: "swap_out (demo_swap demo_swapped) 0x7000 = (s1, Some \<lparr>se_offset = 0, se_device_id = 0\<rparr>)" and ok: "swap_ok s1"
    and c: "swap_slots s1 0 = Some (page_contents (mem demo_swapped) 0x7000)" and p: "pm (sw_vm s1) = pm demo_swapped"
    and pc: "path_clear (sw_vm s1) 0x400000" and g: "vmm_get_pte (sw_vm s1) 0x400000 = 0x200"
    using D(2,3) by auto
  have f: "4 \<le> card (free_frames (pm (sw_vm s1)))" using D(5) by (simp add: p)
  have "(0x200 :: u64) AND PTE_PRESENT = 0" "(0x200 :: u64) AND PTE_SWAPPED \<noteq> 0" "drop_bit 1 (0x200 :: u64) AND 0xFF = 0"
    "swap_slots s1 (drop_bit 12 0x200) = Some (page_contents (mem demo_swapped) 0x7000)"
    using c by (simp_all add: PTE_PRESENT_def PTE_SWAPPED_def)
  from handle_swap_fault_restores [OF ok pc f g [symmetric] this] o show ?thesis by auto
qed

end
