(* ===== verification/Spec2Isabelle.thy ===== *)
theory Spec2Isabelle
  imports Heap Hrtimer Input Irq Kernel Keyboard Links Lists Lock_Interfaces Locks Msg Page_Cache Pipe Pmm Process Queue_Interfaces Radix_Tree Rtmutex Sched Seccomp Shm Signal Spinlock Strings Swap Vmm Waitqueue
begin

text \<open>
  A verification library for the RucixOS kernel, the C and assembly sources under \<^verbatim>\<open>src/kernel\<close>.

  \<^bold>\<open>The program.\<close> \<^verbatim>\<open>kernel.c\<close> brings the machine up in this order: \<open>pmm_init\<close> reads the memory map of the boot loader
  and sets up the page frame allocator, \<open>vmm_init\<close> takes over the page tables, \<open>heap_init\<close> maps the kernel heap, then
  the drivers register their interrupt handlers and devices, \<open>process_init\<close> makes the first process, the timer starts,
  and the file systems, modules and swap follow. From then on everything runs in processes, on one processor: the timer
  interrupt calls \<open>scheduler_tick\<close>, which wakes sleepers and calls \<open>process_schedule\<close>; a process that waits calls
  \<open>sleep_on\<close>, which blocks it and calls \<open>process_schedule\<close> as well. Memory comes from the heap (\<open>kmalloc\<close>) and the frame
  allocator; locks, pipes, message queues, input devices and signals are built on wait queues and the ready queues.

  \<^bold>\<open>How the sources are modelled.\<close> Every function is one definition, with the branches, early returns and order of effects
  of the C code; a loop body or a region that several statements share has a definition of its own, and the parts are
  composed as the code composes them.
    \<^item> Machine integers are words of their width (\<open>u8\<close> to \<open>u64\<close>, theory Prelude) with wrap-around; pointers are \<open>u64\<close>, null is
      0. A C \<open>int\<close> that is used as a small counter, identifier or error code is an \<open>int\<close>.
    \<^item> Memory is a function from addresses to bytes (\<open>bytes\<close>) wherever the code looks at bytes: strings, page tables, stacks,
      interrupt frames, message texts, the buffers of callers. It is identity mapped, as \<open>phys_to_virt\<close> is. Structures that
      the code only uses through their fields are records in a typed store indexed by their address; allocating one is a
      \<open>kmalloc\<close> of its size on the modelled heap, freeing it a \<open>kfree\<close>. Structures that contain list heads or are put
      in lists keep the addresses of those heads, at the offsets of the fields.
    \<^item> The state is one record that grows with the components: \<open>sched\<close> (processes, ready queues), \<open>kernel\<close> (the current
      process, process and sleep lists, heap, memory, processor, timers, interrupt flag), \<open>sync\<close> (wait queue entries), and
      from there \<open>pipes\<close>, \<open>msgs\<close>, \<open>shms\<close>, \<open>inputs\<close>, \<open>irqs\<close> and \<open>rts\<close>. An operation takes any extension of the record
      it needs, so that clients in later theories call it on their own state. The allocators, the radix tree, the page cache,
      swap and the filters have records of their own.
    \<^item> A loop that may run forever, on a cyclic list or with the wrong filter program, is a partial function into
      \<open>option\<close>, or ends by a termination proof; \<open>None\<close> is a run that does not return. Every theorem that speaks about a
      result shows that there is one. No fuel is used, except that the chain of priorities in \<^verbatim>\<open>rtmutex.c\<close> is bounded by ten
      steps in the code itself.
    \<^item> A function that sleeps is cut at its suspension points. Its first part ends with the caller done or asleep in
      \<open>process_schedule\<close>; the part behind, or the next round of its loop, starts in whatever state the others have left.
      Properties of concurrent use are stated for all interleavings of these parts. Between them interrupts are disabled by
      the spinlocks, on one processor.
    \<^item> Parameters stand for what is not code of the kernel or not known when it is compiled: the boot information in memory
      and the address \<^verbatim>\<open>_kernel_end\<close> of the linker, addresses of code (\<open>sym_kernel_thread_helper\<close>, \<open>sym_irq_thread\<close>), the value
      of the cycle counter, bytes read from ports, the address of a local variable whose address is taken (the entry of
      \<open>sleep_on\<close>, the waiter of \<open>rt_mutex_lock\<close>), memory behind an array that the code reads too far (\<open>beyond_quantums\<close>), and
      what a function behind a pointer does (timers, input handlers, interrupt handlers). Hypotheses on the last say only
      that it returns and leaves the lists of its caller alone (\<open>quiet\<close>, \<open>steady\<close>), and every theorem that has one is
      applied to a concrete function.

  \<^bold>\<open>Interfaces.\<close> The contracts between components are locales, interpreted on the definitions of the component that provides
  them: \<open>region_allocator\<close> (frame allocator), \<open>object_allocator\<close> (heap), \<open>index_map\<close> (radix tree; its client is the page
  cache), in Interfaces; \<open>run_queue\<close> (ready queues) and \<open>bounded_buffer\<close> (pipes and keyboard), in Queue_Interfaces;
  \<open>lock_protocol\<close> (semaphores, mutexes, read-write locks, priority-inheritance mutexes), in Lock_Interfaces. Links has the
  null-terminated lists of the code and their walks, Lists the circular lists of \<^verbatim>\<open>include/list.h\<close>; both relate pointers to
  sequences once and for all.

  \<^bold>\<open>Memory.\<close>
    \<^item> Pmm: \<^verbatim>\<open>memory/pmm.c\<close>, all functions. The frames handed out never overlap; allocation is first fit; \<open>pmm_init\<close> frees just
      the frames the boot map reports above the bitmap.
    \<^item> Heap: \<^verbatim>\<open>memory/heap.c\<close>. \<open>kmalloc\<close> and \<open>kfree\<close> refine first fit with splitting and merging on a list of cells; objects do
      not overlap or move; nothing is lost when all is freed.
    \<^item> Vmm: \<^verbatim>\<open>memory/vmm.c\<close> and \<open>heap_init\<close>. Page tables are judged by the page walk of the processor, \<open>hw_translate\<close>.
      Mapping and unmapping change one page; \<open>heap_init\<close> backs the heap; \<open>vmm_free_user_space\<close> frees the lower half.
    \<^item> Swap: \<^verbatim>\<open>memory/swap.c\<close> and \<^verbatim>\<open>drivers/core/dma.c\<close>. A page comes back from swap as it went out.
    \<^item> Radix_Tree, Page_Cache: \<^verbatim>\<open>lib/radix-tree.c\<close>, \<^verbatim>\<open>mm/page_cache.c\<close>, \<^verbatim>\<open>include/mm/page.h\<close>. A finite map, with the nodes
      accounted for; found pages carry their space and index.
    \<^item> Strings: \<^verbatim>\<open>lib/string.c\<close>. The word-wise copies equal the byte-wise ones at every alignment and length.
    \<^item> This theory: the heap over the frame allocator and the page tables.

  \<^bold>\<open>Processes.\<close>
    \<^item> Sched: \<^verbatim>\<open>process/sched_mlfq.c\<close>, \<^verbatim>\<open>process/sched_fair.c\<close>. The ready queues refine five lists; a queued process is picked.
    \<^item> Kernel: \<^verbatim>\<open>process/process.c\<close> (lookup, limits, priorities, scheduling) and \<^verbatim>\<open>arch/x86_64/switch.asm\<close>. Scheduling loses no
      process; a process that is switched back has its registers and stack.
    \<^item> Process: the rest of \<^verbatim>\<open>process/process.c\<close> (creation, fork, sleeping, waiting, the tick). A new thread starts in its
      function; a tick wakes the due sleepers.
    \<^item> Signal: \<^verbatim>\<open>ipc/signal.c\<close>. A handler is invisible to the program it interrupts; \<open>sys_kill\<close> delivers.
    \<^item> Hrtimer: \<^verbatim>\<open>time/hrtimer.c\<close>. Timers fire once, in order of expiry.
    \<^item> Seccomp: \<^verbatim>\<open>security/seccomp.c\<close>, \<^verbatim>\<open>include/bpf.h\<close>. Filters only restrict; forward jumps terminate.

  \<^bold>\<open>Synchronisation and communication.\<close>
    \<^item> Spinlock, Waitqueue, Locks: \<^verbatim>\<open>sync/spinlock.c\<close>, \<^verbatim>\<open>sync/waitqueue.c\<close>. Wait queues are first-in first-out; mutexes and
      read-write locks exclude and semaphores bound, for every interleaving.
    \<^item> Rtmutex: \<^verbatim>\<open>sync/rtmutex.c\<close>. Exclusion, and inheritance of priorities.
    \<^item> Pipe, Msg, Shm: \<^verbatim>\<open>ipc/pipe.c\<close>, \<^verbatim>\<open>ipc/msg.c\<close>, \<^verbatim>\<open>ipc/shm.c\<close>. Pipes are bounded streams; queues keep the order of messages; segments
      stay well formed.

  \<^bold>\<open>Devices.\<close>
    \<^item> Irq: \<^verbatim>\<open>drivers/core/irq.c\<close>. The chains of actions and the dispatch of an interrupt.
    \<^item> Input: \<^verbatim>\<open>drivers/input/input.c\<close>, \<^verbatim>\<open>drivers/input/mouse.c\<close>. Events reach every handler in order; motion is misread.
    \<^item> Keyboard: \<^verbatim>\<open>drivers/char/keyboard.c\<close>. What is typed is read, in order.

  Where the code does not do what it means to, the theorem says what it does, and a lemma beside it shows the failure:
  among others a request of almost 2^64 bytes that \<open>kmalloc\<close> rounds to 0, the lost wake-up of \<open>sem_wait\<close>, filters that
  never end, and mouse motion with a wrong sign.

  \<^bold>\<open>Not modelled.\<close>
    \<^item> Console output, and functions that only print (\<^verbatim>\<open>console.c\<close>, the dump functions).
    \<^item> Code that only talks to hardware through ports, memory-mapped registers, model-specific registers or descriptor tables:
      the boot code and interrupt entry in assembly, \<^verbatim>\<open>gdt.c\<close> except the stack of the task state, \<^verbatim>\<open>idt.c\<close>, \<^verbatim>\<open>pic.c\<close>, \<^verbatim>\<open>pit.c\<close>, the
      calibration of the cycle counter, \<open>keyboard_init\<close>, \<open>mouse_init\<close>, serial port, PCI, AHCI, NVMe, xHCI and USB, network and
      sound cards, graphics, VMX. What these do is the behaviour of the device, which the sources do not contain.
      Translation caches and memory ordering are left out for the same reason.
    \<^item> The file systems (\<^verbatim>\<open>fs\<close>), block layer (\<^verbatim>\<open>drivers/block\<close>) and the network stack (\<^verbatim>\<open>net\<close>): none of the modelled components
      calls them, except \<open>process_exit\<close> and \<open>process_init\<close>, which are left out with them, together with the code that ends a
      process from a signal (\<open>handle_pending_signals\<close>) or an interrupt thread (\<open>irq_thread\<close>).
    \<^item> The system call table, program and module loading (\<^verbatim>\<open>syscall\<close>, \<^verbatim>\<open>exec.c\<close>, \<^verbatim>\<open>module.c\<close>), the driver registry, name spaces and
      control groups.
\<close>

section \<open>The kernel heap over the frames\<close>

lemma heap_extent_arena:
  assumes "heap_ok h" and "heap_arena h = {(base, n)}" and "x \<in> heap_extent h p"
  shows "base \<le> x \<and> x < base + n"
proof -
  obtain b cs where r: "heap_rep h b cs" using assms(1) by (auto simp: heap_ok_def)
  obtain a k where a: "(a, k) \<in> used_cells b cs" "a \<le> x" "x < a + k"
    using assms(3) heap_blocks_rep [OF r] by (auto simp: heap_extent_def)
  have "b = base" "cell_total cs = n" using heap_arena_rep [OF r] assms(2) by simp_all
  with used_cells_range [OF a(1)] a(2,3) show ?thesis by auto
qed

lemma page_split:
  fixes start sz :: u64
  assumes "unat start + unat sz + 4096 \<le> 2 ^ 48" and "n = (sz + PAGE_SIZE - 1) div PAGE_SIZE"
    and "unat start \<le> x" and "x < unat start + unat sz"
  shows "unat n = (unat sz + 4095) div 4096"
    and "(of_nat x - start) div PAGE_SIZE < n" and "(of_nat x - start) mod PAGE_SIZE < 4096"
    and "start + (of_nat x - start) div PAGE_SIZE * PAGE_SIZE + (of_nat x - start) mod PAGE_SIZE = of_nat x"
proof -
  have "unat (sz + 4095) = unat sz + unat (4095 :: u64)" using assms(1) by (intro unat_add_no_wrap) simp
  moreover have e: "sz + PAGE_SIZE - 1 = sz + 4095" unfolding PAGE_SIZE_def by simp
  ultimately have sz: "unat (sz + PAGE_SIZE - 1) = unat sz + 4095" unfolding e by simp
  show n: "unat n = (unat sz + 4095) div 4096" unfolding assms(2) unat_div sz by (simp add: PAGE_SIZE_def)
  let ?v = "of_nat x - start :: u64"
  have ux: "unat (of_nat x :: u64) = x" using assms(1,4) by (intro unat_of_nat_small) simp
  have v: "unat ?v = x - unat start" using assms(3) ux by (subst unat_diff_le) (simp_all add: word_le_nat_alt)
  have "(x - unat start + 4096) div 4096 \<le> (unat sz + 4095) div 4096" using assms(3,4) by (intro div_le_mono) linarith
  then have "unat (?v div PAGE_SIZE) < unat n" unfolding unat_div v n by (simp add: PAGE_SIZE_def)
  then show "?v div PAGE_SIZE < n" by (simp add: word_less_nat_alt)
  show "?v mod PAGE_SIZE < 4096" by (simp add: PAGE_SIZE_def word_less_nat_alt unat_mod)
  have "?v div PAGE_SIZE * PAGE_SIZE + ?v mod PAGE_SIZE = ?v" by (rule div_mult_mod_eq)
  then show "start + ?v div PAGE_SIZE * PAGE_SIZE + ?v mod PAGE_SIZE = of_nat x" by (simp add: add.assoc)
qed

text \<open>
  C5. Every object of the kernel heap lies in memory of its own. After \<open>heap_init\<close> has mapped the heap, let clients
  allocate with \<open>kmalloc\<close> and free what they hold, in any order. Then every byte of every object they hold translates
  to a byte of a frame that the frame allocator does not give out again and that is no page table; different pages of
  the heap are different frames, and no byte belongs to two objects.
\<close>

theorem kernel_objects_backed:
  assumes "vmm_ok s" and "page_aligned start" and "start \<noteq> 0" and "unat sz mod 8 = 0" and "48 \<le> unat sz"
    and "unat start + unat sz + 4096 \<le> 2 ^ 48" and "n = (sz + PAGE_SIZE - 1) div PAGE_SIZE"
    and "\<And>j. j < n \<Longrightarrow> path_clear s (start + j * PAGE_SIZE)" and "4 * unat n \<le> card (free_frames (pm s))"
    and "heap_init s h0 start sz = (s', h1)"
    and "(alloc_step kmalloc_opt (\<lambda>h p. kfree p h) (\<lambda>_ _. True))\<^sup>*\<^sup>* (h1, {}) (h, H)"
  shows "\<exists>fr. inj_on fr {j. j < n} \<and>
    (\<forall>p\<in>H. \<forall>x\<in>heap_extent h p. let v = of_nat x - start; f = fr (v div PAGE_SIZE)
       in v div PAGE_SIZE < n \<and> hw_translate s' (of_nat x) = Some (f OR (v mod PAGE_SIZE)) \<and>
          f div PAGE_SIZE \<notin> free_frames (pm s') \<and> (\<forall>q u. is_table s' q u \<longrightarrow> u div PAGE_SIZE \<noteq> f div PAGE_SIZE)) \<and>
    (\<forall>p\<in>H. \<forall>q\<in>H. p \<noteq> q \<longrightarrow> heap_extent h p \<inter> heap_extent h q = {})"
proof -
  have h1: "s' = heap_map start n s" "h1 = heap_init_list start sz h0" using assms(7,10) by (auto simp: heap_init_def)
  have "unat (start mod 4096) = 0" using assms(2) by (simp add: page_aligned_def PAGE_SIZE_def)
  then have "unat start mod 4096 = 0" by (simp add: unat_mod)
  then have al: "unat start mod 8 = 0" using mod_mod_cancel [of 8 4096 "unat start"] by simp
  have rep: "heap_rep h1 (unat start) [(unat sz - 40, True)]"
    unfolding h1 by (rule heap_init_rep [OF al assms(3-5)]) (use assms(6) in simp)
  have ok1: "heap_ok h1" "heap_live h1 = {}" "heap_arena h1 = {(unat start, unat sz)}"
    using rep heap_blocks_rep [OF rep] heap_arena_rep [OF rep] assms(5) by (auto simp: heap_ok_def heap_live_def)
  have run: "heap_ok h" "heap_live h = H" "heap_arena h = {(unat start, unat sz)}"
    using kheap.object_run [of h1 h H] assms(11) ok1 by simp_all
  have inside: "unat start \<le> x \<and> x < unat start + unat sz" if "x \<in> heap_extent h p" for x p
    using heap_extent_arena [OF run(1,3) that] .
  have "unat start + 4096 * unat n \<le> 2 ^ 48"
    using page_split(1) [OF assms(6,7), of "unat start"] assms(5,6) by simp
  then obtain fr where "heap_mapped s start n fr s'" using heap_map_spec [OF assms(1,2) _ assms(8,9)] unfolding h1 by blast
  then have fr: "inj_on fr {j. j < n}" "\<And>j k. j < n \<Longrightarrow> k < 4096 \<Longrightarrow> hw_translate s' (start + j * PAGE_SIZE + k) = Some (fr j OR k)"
    "\<And>j. j < n \<Longrightarrow> fr j div PAGE_SIZE \<notin> free_frames (pm s')"
    "\<And>j q u. j < n \<Longrightarrow> is_table s' q u \<Longrightarrow> u div PAGE_SIZE \<noteq> fr j div PAGE_SIZE" by (simp_all add: heap_mapped_def)
  have "let v = of_nat x - start; f = fr (v div PAGE_SIZE)
      in v div PAGE_SIZE < n \<and> hw_translate s' (of_nat x) = Some (f OR (v mod PAGE_SIZE)) \<and>
         f div PAGE_SIZE \<notin> free_frames (pm s') \<and> (\<forall>q u. is_table s' q u \<longrightarrow> u div PAGE_SIZE \<noteq> f div PAGE_SIZE)"
    if "x \<in> heap_extent h p" for x p
  proof -
    note ps = page_split [OF assms(6,7) conjunct1 [OF inside [OF that]] conjunct2 [OF inside [OF that]]]
    show ?thesis unfolding Let_def using fr(2) [OF ps(2,3), unfolded ps(4)] fr(3) [OF ps(2)] fr(4) [OF ps(2)] ps(2) by blast
  qed
  moreover have "heap_extent h p \<inter> heap_extent h q = {}" if "p \<in> H" "q \<in> H" "p \<noteq> q" for p q
    by (rule kheap.disjoint [OF run(1)]) (use that run(2) in simp_all)
  ultimately show ?thesis using fr(1) by (intro exI [of _ fr]) blast
qed

section \<open>A witness\<close>

theorem kernel_objects_backed_witness:
  "\<exists>s' h1 h p. heap_init demo_vmm demo_heap 0x100000000000 4096 = (s', h1) \<and> kmalloc 20 h1 = Some (h, p) \<and> p \<noteq> 0 \<and>
     (\<forall>x\<in>heap_extent h p. hw_translate s' (of_nat x) \<noteq> None)"
proof -
  let ?s = "0x100000000000 :: u64"
  obtain s' h1 where i: "heap_init demo_vmm demo_heap ?s 4096 = (s', h1)" by fastforce
  then have h1: "h1 = heap_init_list ?s 4096 demo_heap" by (auto simp: heap_init_def)
  have k: "kmalloc 20 h1 = Some (fst (the (kmalloc 20 h1)), 0x100000000028)"
    unfolding h1 by (rule result_eqI; code_simp)
  define h where "h = fst (the (kmalloc 20 h1))"
  have "kmalloc_opt 20 h1 = Some (h, Some 0x100000000028)" using k by (simp add: kmalloc_opt_Some h_def)
  then have "alloc_step kmalloc_opt (\<lambda>h p. kfree p h) (\<lambda>_ _. True) (h1, {}) (h, insert 0x100000000028 {})"
    by (intro alloc_step.take [where r = 20]) simp_all
  then have run: "(alloc_step kmalloc_opt (\<lambda>h p. kfree p h) (\<lambda>_ _. True))\<^sup>*\<^sup>* (h1, {}) (h, {0x100000000028})" by (rule r_into_rtranclp)
  have a: "page_aligned ?s" "?s \<noteq> 0" "unat (4096 :: u64) mod 8 = 0" "48 \<le> unat (4096 :: u64)" "unat ?s + unat (4096 :: u64) + 4096 \<le> 2 ^ 48"
    "1 = (4096 + PAGE_SIZE - 1) div PAGE_SIZE" "4 * unat (1 :: u64) \<le> card (free_frames (pm demo_vmm))"
    by (simp_all add: PAGE_SIZE_def page_aligned_def demo_free)
  from kernel_objects_backed [OF demo_vmm_ok a(1-6) demo_path_clear a(7) i run]
  have "\<forall>x\<in>heap_extent h 0x100000000028. hw_translate s' (of_nat x) \<noteq> None" by (auto simp: Let_def)
  moreover have "kmalloc 20 h1 = Some (h, 0x100000000028)" using k by (simp add: h_def)
  moreover have "(0x100000000028 :: u64) \<noteq> 0" by simp
  ultimately show ?thesis using i by blast
qed

end
